(* ===== verification/Prelude.thy ===== *)
theory Prelude
  imports Complex_Main "HOL-Library.Word"
begin

text \<open>
  What the component theories share: bytes, the errors JavaScript code throws, and the
  state-and-exception monad in which every method that mutates an object is written.
  A JavaScript \<^verbatim>\<open>throw\<close> leaves the mutations made before it in place, so an action returns
  the state in the error case too.
\<close>

named_theorems js_defs \<open>definitions of the model that the component proofs unfold\<close>
named_theorems run_simps \<open>equations that run an action of the monad on a given state\<close>

type_synonym byte = "8 word"
type_synonym bytes = "byte list"

section \<open>Errors\<close>

datatype exn =
    InvalidState string
  | InvalidArgument string
  | AbstractMethodInvoked string
  | MissingPreviousOutput
  | UnableToVerifySignature
  | InvalidSorting
  | InvalidIndex
  | InvalidBuffer
  | RangeError
  | TypeError string
  | GenericError string
  | IllegalTransition

section \<open>Actions\<close>

type_synonym ('s, 'a) action = "'s \<Rightarrow> (exn + 'a) \<times> 's"

definition return :: "'a \<Rightarrow> ('s, 'a) action" where
  "return x s = (Inr x, s)"

definition throw :: "exn \<Rightarrow> ('s, 'a) action" where
  "throw e s = (Inl e, s)"

definition bind :: "('s, 'a) action \<Rightarrow> ('a \<Rightarrow> ('s, 'b) action) \<Rightarrow> ('s, 'b) action" where
  "bind m f s = (case m s of (Inl e, s') \<Rightarrow> (Inl e, s') | (Inr x, s') \<Rightarrow> f x s')"

definition gets :: "('s \<Rightarrow> 'a) \<Rightarrow> ('s, 'a) action" where
  "gets f s = (Inr (f s), s)"

definition modify :: "('s \<Rightarrow> 's) \<Rightarrow> ('s, unit) action" where
  "modify f s = (Inr (), f s)"

text \<open>Statements in sequence; the first that throws ends the block.\<close>

fun block :: "('s, unit) action list \<Rightarrow> ('s, unit) action" where
  "block [] s = (Inr (), s)"
| "block (m # ms) s = (case m s of (Inl e, s') \<Rightarrow> (Inl e, s') | (Inr _, s') \<Rightarrow> block ms s')"

text \<open>An action that needs the state it runs in: \<open>here (\<lambda>s. f s)\<close> runs \<open>f s\<close> in \<open>s\<close>.\<close>

definition here :: "('s \<Rightarrow> ('s, 'a) action) \<Rightarrow> ('s, 'a) action" where
  "here f s = f s s"

text \<open>
  \<^verbatim>\<open>$.checkState\<close> and \<^verbatim>\<open>$.checkArgument\<close> of bitcore's \<^verbatim>\<open>util/preconditions\<close>.
\<close>

definition checkState :: "bool \<Rightarrow> string \<Rightarrow> ('s, unit) action" where
  "checkState c msg s = (if c then (Inr (), s) else (Inl (InvalidState msg), s))"

definition checkArgument :: "bool \<Rightarrow> string \<Rightarrow> ('s, unit) action" where
  "checkArgument c msg s = (if c then (Inr (), s) else (Inl (InvalidArgument msg), s))"

text \<open>A pure computation that may throw, run as an action that leaves the state alone.\<close>

definition lift :: "exn + 'a \<Rightarrow> ('s, 'a) action" where
  "lift r s = (r, s)"

text \<open>An action of a part of the state, run on the whole.\<close>

definition zoom :: "('s \<Rightarrow> 'p) \<Rightarrow> ('p \<Rightarrow> 's \<Rightarrow> 's) \<Rightarrow> ('p, 'a) action \<Rightarrow> ('s, 'a) action" where
  "zoom get put m s = (case m (get s) of (r, p) \<Rightarrow> (r, put p s))"

text \<open>\<^verbatim>\<open>_.each\<close> with a body that mutates the element; a throw leaves the elements after it untouched.\<close>

primrec each :: "('x, unit) action \<Rightarrow> ('x list, unit) action" where
  "each m [] = (Inr (), [])"
| "each m (x # xs) = (case m x of
      (Inl e, x') \<Rightarrow> (Inl e, x' # xs)
    | (Inr _, x') \<Rightarrow> (case each m xs of (r, xs') \<Rightarrow> (r, x' # xs')))"

lemmas action_defs = return_def throw_def bind_def gets_def modify_def here_def
  checkState_def checkArgument_def lift_def zoom_def

lemma bind_Inl [run_simps]: "m s = (Inl e, s') \<Longrightarrow> bind m f s = (Inl e, s')"
  by (simp add: bind_def)

lemma bind_Inr [run_simps]: "m s = (Inr x, s') \<Longrightarrow> bind m f s = f x s'"
  by (simp add: bind_def)

lemma block_Cons [run_simps]:
  "block (m # ms) s = (case m s of (Inl e, s') \<Rightarrow> (Inl e, s') | (Inr _, s') \<Rightarrow> block ms s')"
  by (rule block.simps)

declare block.simps(2) [simp del]

lemma block_Inl [run_simps]: "m s = (Inl e, s') \<Longrightarrow> block (m # ms) s = (Inl e, s')"
  by (simp add: block_Cons)

lemma block_Inr [run_simps]: "m s = (Inr u, s') \<Longrightarrow> block (m # ms) s = block ms s'"
  by (simp add: block_Cons)

lemma block_append:
  "block (ms @ ns) s = (case block ms s of (Inl e, s') \<Rightarrow> (Inl e, s') | (Inr _, s') \<Rightarrow> block ns s')"
  by (induction ms arbitrary: s) (auto simp: block_Cons split: prod.splits sum.splits)

text \<open>
  A predicate on states that an action keeps, whether it returns or throws. Invariants of
  handlers are proved by closure of \<open>keeps\<close> under the combinators.
\<close>

definition keeps :: "('s \<Rightarrow> bool) \<Rightarrow> ('s, 'a) action \<Rightarrow> bool" where
  "keeps P m \<longleftrightarrow> (\<forall>s. P s \<longrightarrow> P (snd (m s)))"

lemma keepsI [intro?]: "(\<And>s. P s \<Longrightarrow> P (snd (m s))) \<Longrightarrow> keeps P m"
  by (simp add: keeps_def)

lemma keepsD: "keeps P m \<Longrightarrow> P s \<Longrightarrow> P (snd (m s))"
  by (simp add: keeps_def)

named_theorems keeps_intros \<open>closure of invariants under the combinators\<close>

lemma keeps_return [keeps_intros]: "keeps P (return x)"
  by (simp add: keeps_def return_def)

lemma keeps_throw [keeps_intros]: "keeps P (throw e)"
  by (simp add: keeps_def throw_def)

lemma keeps_lift [keeps_intros]: "keeps P (lift r)"
  by (simp add: keeps_def lift_def)

lemma keeps_gets [keeps_intros]: "keeps P (gets f)"
  by (simp add: keeps_def gets_def)

lemma keeps_checkState [keeps_intros]: "keeps P (checkState c msg)"
  by (simp add: keeps_def checkState_def)

lemma keeps_checkArgument [keeps_intros]: "keeps P (checkArgument c msg)"
  by (simp add: keeps_def checkArgument_def)

lemma keeps_bind [keeps_intros]: "keeps P m \<Longrightarrow> (\<And>x. keeps P (f x)) \<Longrightarrow> keeps P (bind m f)"
  unfolding keeps_def bind_def by (fastforce split: prod.splits sum.splits)

lemma keeps_Nil [keeps_intros]: "keeps P (block [])"
  by (simp add: keeps_def)

lemma keeps_Cons [keeps_intros]: "keeps P m \<Longrightarrow> keeps P (block ms) \<Longrightarrow> keeps P (block (m # ms))"
  unfolding keeps_def block_Cons by (fastforce split: prod.splits sum.splits)

lemma keeps_here [keeps_intros]: "(\<And>s. P s \<Longrightarrow> P (snd (f s s))) \<Longrightarrow> keeps P (here f)"
  by (simp add: keeps_def here_def)

lemma keeps_modify [keeps_intros]: "(\<And>s. P s \<Longrightarrow> P (f s)) \<Longrightarrow> keeps P (modify f)"
  by (simp add: keeps_def modify_def)

lemma keeps_If [keeps_intros]: "(b \<Longrightarrow> keeps P m) \<Longrightarrow> (\<not> b \<Longrightarrow> keeps P n) \<Longrightarrow> keeps P (if b then m else n)"
  by simp

text \<open>Rules for whole handlers: an action that reads the state under \<^const>\<open>here\<close> keeps what it keeps whatever it reads.\<close>

lemma keeps_here_all: "(\<And>s. keeps P (f s)) \<Longrightarrow> keeps P (here f)"
  by (simp add: keeps_def here_def)

lemma keeps_option: "(x = None \<Longrightarrow> keeps P m) \<Longrightarrow> (\<And>y. x = Some y \<Longrightarrow> keeps P (f y)) \<Longrightarrow> keeps P (case x of None \<Rightarrow> m | Some y \<Rightarrow> f y)"
  by (cases x) simp_all

lemma keeps_prod: "(\<And>a b. x = (a, b) \<Longrightarrow> keeps P (f a b)) \<Longrightarrow> keeps P (case x of (a, b) \<Rightarrow> f a b)"
  by (cases x) simp

section \<open>Loops over a range\<close>

lemma fold_sim:
  assumes "\<And>j s w. P j s w \<Longrightarrow> j < n \<Longrightarrow> P (Suc j) (f j s) (g j w)" and "P 0 s w"
  shows "P n (fold f [0..<n] s) (fold g [0..<n] w)"
proof -
  have "k \<le> n \<Longrightarrow> P k (fold f [0..<k] s) (fold g [0..<k] w)" for k by (induction k) (simp_all add: assms)
  then show ?thesis by simp
qed

lemma fold_range:
  assumes "\<And>j. a \<le> j \<Longrightarrow> j < b \<Longrightarrow> f j = g j" shows "fold f [a..<b] s = fold g [a..<b] s"
  by (rule fold_cong[OF refl refl]) (use assms in \<open>auto simp only: set_upt atLeastLessThan_iff\<close>)

lemma fold_upt_split: "a \<le> b \<Longrightarrow> b \<le> c \<Longrightarrow> fold f [b..<c] (fold f [a..<b] s) = fold f [a..<c] s"
  using upt_add_eq_append[of a b "c - b"] by simp

lemma fold_inv:
  assumes "a \<le> n" "P a x" "\<And>k y. a \<le> k \<Longrightarrow> P k y \<Longrightarrow> P (Suc k) (f k y)"
  shows "P n (fold f [a..<n] x)"
  using assms(1) by (induction n rule: nat_induct_at_least) (simp_all add: assms(2,3))

end
