(* ===== verification/JSNumber.thy ===== *)
theory JSNumber
  imports Prelude "HOL-Library.Log_Nat"
begin

text \<open>
  JavaScript Numbers: finite values are the rationals that IEEE binary64 represents, every
  arithmetic operation is the exact result rounded half-to-even to 53 bits (\<open>rnd\<close>), with the two
  infinities and NaN. The sign of a zero is not kept: no operation of the modelled code divides
  by a negative zero. Integers up to \<open>2 ^ 53\<close> in magnitude are exact (\<open>rnd_int\<close>), and rounding is
  monotone (\<open>rndr_mono\<close>), which is what the bounds on payments rest on.
\<close>

section \<open>Rounding to binary64\<close>

definition ilog2 :: "rat \<Rightarrow> int" where
  "ilog2 x = (let (p, q) = quotient_of x; k = bitlen p - bitlen q
              in if 2 powi k \<le> x then k else k - 1)"

definition rne :: "rat \<Rightarrow> int" where
  "rne y = (let f = \<lfloor>y\<rfloor>; d = y - of_int f
            in if d < 1 / 2 then f else if 1 / 2 < d then f + 1 else if even f then f else f + 1)"

definition quantum :: "rat \<Rightarrow> rat" where
  "quantum x = 2 powi (max (ilog2 \<bar>x\<bar> - 52) (-1074))"

datatype jsnum = Fin rat | PInf | NInf | NaN

definition rnd :: "rat \<Rightarrow> jsnum" where
  "rnd x = (if x = 0 then Fin 0
            else let u = quantum x; r = of_int (rne (x / u)) * u
                 in if 2 ^ 1024 \<le> r then PInf else if r \<le> - (2 ^ 1024) then NInf else Fin r)"

lemma ilog2_bounds:
  assumes "0 < x"
  shows "2 powi (ilog2 x) \<le> x" and "x < 2 powi (ilog2 x + 1)"
proof -
  obtain p q where pq: "quotient_of x = (p, q)" by (cases "quotient_of x")
  have q: "0 < q" using pq by (rule quotient_of_denom_pos)
  have x: "x = of_int p / of_int q" using pq by (rule quotient_of_div)
  have p: "0 < p" using assms x q by (simp add: zero_less_divide_iff)
  let ?P = "bitlen p" and ?Q = "bitlen q"
  have P: "1 \<le> ?P" and Q: "1 \<le> ?Q"
    using p q bitlen_eq_zero_iff[of p] bitlen_eq_zero_iff[of q] bitlen_nonneg[of p] bitlen_nonneg[of q] by linarith+
  have pl: "(2::rat) powi (?P - 1) \<le> of_int p" and pu: "of_int p < (2::rat) powi ?P"
  proof -
    have "(2::int) ^ nat (?P - 1) \<le> p" "p < 2 ^ nat ?P" using bitlen_bounds[OF p] by auto
    then have "(of_int (2 ^ nat (?P - 1)) :: rat) \<le> of_int p" "(of_int p :: rat) < of_int (2 ^ nat ?P)"
      by (simp_all only: of_int_le_iff of_int_less_iff)
    then show "(2::rat) powi (?P - 1) \<le> of_int p" "of_int p < (2::rat) powi ?P"
      using P by (simp_all add: power_int_def)
  qed
  have ql: "(2::rat) powi (?Q - 1) \<le> of_int q" and qu: "of_int q < (2::rat) powi ?Q"
  proof -
    have "(2::int) ^ nat (?Q - 1) \<le> q" "q < 2 ^ nat ?Q" using bitlen_bounds[OF q] by auto
    then have "(of_int (2 ^ nat (?Q - 1)) :: rat) \<le> of_int q" "(of_int q :: rat) < of_int (2 ^ nat ?Q)"
      by (simp_all only: of_int_le_iff of_int_less_iff)
    then show "(2::rat) powi (?Q - 1) \<le> of_int q" "of_int q < (2::rat) powi ?Q"
      using Q by (simp_all add: power_int_def)
  qed
  have qpos: "(0::rat) < of_int q" using q by simp
  have up: "x < 2 powi (?P - ?Q + 1)"
  proof -
    have "x < 2 powi ?P / of_int q" unfolding x using pu qpos by (simp add: divide_strict_right_mono)
    also have "\<dots> \<le> 2 powi ?P / 2 powi (?Q - 1)" using ql qpos by (simp add: frac_le)
    also have "\<dots> = 2 powi (?P - (?Q - 1))" by (simp add: power_int_diff)
    finally show ?thesis by (simp add: algebra_simps)
  qed
  have lo: "2 powi (?P - ?Q - 1) \<le> x"
  proof -
    have "(2::rat) powi (?P - ?Q - 1) = 2 powi (?P - 1) / 2 powi ?Q"
      by (simp add: power_int_diff)
    also have "\<dots> \<le> of_int p / of_int q" using pl qu qpos p by (intro frac_le) auto
    finally show ?thesis by (simp add: x)
  qed
  show "2 powi (ilog2 x) \<le> x" and "x < 2 powi (ilog2 x + 1)"
    using up lo by (auto simp: ilog2_def pq Let_def)
qed

lemma powi2_pos: "0 < (2::rat) powi k"
  by simp

lemma powi_mono_iff [simp]: "(2::rat) powi a \<le> 2 powi b \<longleftrightarrow> a \<le> b"
  using power_int_increasing[of a b "2::rat"] power_int_strict_increasing[of b a "2::rat"]
  by (auto simp: not_le[symmetric])

lemma powi_strict_iff [simp]: "(2::rat) powi a < 2 powi b \<longleftrightarrow> a < b"
  using powi_mono_iff[of b a] by linarith

lemma ilog2_unique: "2 powi k \<le> x \<Longrightarrow> x < 2 powi (k + 1) \<Longrightarrow> ilog2 x = k"
proof -
  assume a: "2 powi k \<le> x" "x < 2 powi (k + 1)"
  have "0 < (2::rat) powi k" by simp
  with a have x: "0 < x" by linarith
  have "(2::rat) powi (ilog2 x) < 2 powi (k + 1)" "(2::rat) powi k < 2 powi (ilog2 x + 1)"
    using ilog2_bounds[OF x] a by linarith+
  then show ?thesis by simp
qed

lemma ilog2_mono: "0 < x \<Longrightarrow> x \<le> y \<Longrightarrow> ilog2 x \<le> ilog2 y"
proof -
  assume a: "0 < x" "x \<le> y"
  have "(2::rat) powi (ilog2 x) < 2 powi (ilog2 y + 1)"
    using ilog2_bounds(1)[OF a(1)] ilog2_bounds(2)[of y] a by linarith
  then show ?thesis by simp
qed

subsection \<open>Round half to even\<close>

lemma rne_of_int [simp]: "rne (of_int n) = n"
  by (simp add: rne_def)

lemma rne_0 [simp]: "rne 0 = 0"
  using rne_of_int[of 0] by simp

lemma rne_error: "\<bar>of_int (rne y) - y\<bar> \<le> 1 / 2"
proof -
  let ?d = "y - of_int \<lfloor>y\<rfloor>"
  have d: "0 \<le> ?d" "?d < 1" by linarith+
  have "rne y = \<lfloor>y\<rfloor> \<and> ?d \<le> 1 / 2 \<or> rne y = \<lfloor>y\<rfloor> + 1 \<and> 1 / 2 \<le> ?d"
    by (auto simp: rne_def Let_def)
  then show ?thesis using d by (auto simp: abs_le_iff)
qed

lemma rne_mono: "x \<le> y \<Longrightarrow> rne x \<le> rne y"
proof -
  assume xy: "x \<le> y"
  then have f: "\<lfloor>x\<rfloor> \<le> \<lfloor>y\<rfloor>" by (rule floor_mono)
  have b: "\<lfloor>z\<rfloor> \<le> rne z \<and> rne z \<le> \<lfloor>z\<rfloor> + 1" for z by (auto simp: rne_def Let_def)
  show ?thesis
  proof (cases "\<lfloor>x\<rfloor> < \<lfloor>y\<rfloor>")
    case True
    then show ?thesis using b[of x] b[of y] by linarith
  next
    case False
    with f have "\<lfloor>x\<rfloor> = \<lfloor>y\<rfloor>" by simp
    with xy show ?thesis by (auto simp: rne_def Let_def)
  qed
qed

lemma rne_minus: "rne (- y) = - rne y"
proof (cases "y = of_int \<lfloor>y\<rfloor>")
  case True
  then have "rne y = \<lfloor>y\<rfloor>" "rne (- y) = - \<lfloor>y\<rfloor>"
    using rne_of_int[of "\<lfloor>y\<rfloor>"] rne_of_int[of "- \<lfloor>y\<rfloor>"] by simp_all
  then show ?thesis by simp
next
  case False
  have "of_int \<lfloor>y\<rfloor> \<le> y" "y < of_int \<lfloor>y\<rfloor> + 1" by linarith+
  with False have lt: "of_int \<lfloor>y\<rfloor> < y" "y < of_int \<lfloor>y\<rfloor> + 1" by linarith+
  have "\<lfloor>- y\<rfloor> = - \<lfloor>y\<rfloor> - 1" using lt by (intro floor_unique) auto
  then show ?thesis using lt by (auto simp: rne_def Let_def)
qed

subsection \<open>Exactness and order\<close>

lemma quantum_pos [simp]: "0 < quantum x"
  by (simp add: quantum_def)

lemma quantum_minus [simp]: "quantum (- x) = quantum x"
  by (simp add: quantum_def)

definition rndr :: "rat \<Rightarrow> rat" where
  "rndr x = of_int (rne (x / quantum x)) * quantum x"

lemma rnd_rndr: "rnd x = (if 2 ^ 1024 \<le> rndr x then PInf else if rndr x \<le> - (2 ^ 1024) then NInf else Fin (rndr x))"
  by (simp add: rnd_def rndr_def Let_def)

lemma rndr_minus: "rndr (- x) = - rndr x"
  by (simp add: rndr_def rne_minus)

lemma rndr_exact: "x = of_int m * quantum x \<Longrightarrow> rndr x = x"
proof -
  assume x: "x = of_int m * quantum x"
  have "x / quantum x = of_int m" by (subst (1) x) (simp add: less_imp_neq[OF quantum_pos, symmetric])
  then have "rndr x = of_int m * quantum x" by (simp add: rndr_def)
  then show ?thesis using x by simp
qed

lemma rndr_error: "\<bar>rndr x - x\<bar> \<le> quantum x / 2"
proof -
  have "rndr x - x = (of_int (rne (x / quantum x)) - x / quantum x) * quantum x"
    using less_imp_neq[OF quantum_pos, of x] by (simp add: rndr_def field_simps)
  then have "\<bar>rndr x - x\<bar> = \<bar>of_int (rne (x / quantum x)) - x / quantum x\<bar> * quantum x"
    using quantum_pos[of x] by (simp only: abs_mult abs_of_pos)
  also have "\<dots> \<le> 1 / 2 * quantum x" by (intro mult_right_mono rne_error) (simp add: less_imp_le)
  finally show ?thesis by simp
qed

lemma powi_multiple:
  assumes "e \<le> k"
  shows "(2::rat) powi k = of_int (2 ^ nat (k - e)) * 2 powi e"
proof -
  have "(2::rat) powi k = 2 powi ((k - e) + e)" by simp
  also have "\<dots> = 2 powi (k - e) * 2 powi e" by (subst power_int_add) simp_all
  finally show ?thesis using assms by (simp add: power_int_def)
qed

lemma rndr_pos_bounds:
  assumes "0 < x" and "-1074 \<le> ilog2 x"
  shows "2 powi (ilog2 x) \<le> rndr x" and "rndr x \<le> 2 powi (ilog2 x + 1)"
proof -
  let ?e = "max (ilog2 x - 52) (-1074)" and ?k = "ilog2 x"
  have u: "quantum x = 2 powi ?e" using assms(1) by (simp add: quantum_def)
  have ek: "?e \<le> ?k" "?e \<le> ?k + 1" using assms(2) by auto
  have "2 powi ?k \<le> x" "x \<le> 2 powi (?k + 1)" using ilog2_bounds[OF assms(1)] by auto
  then have "of_int (2 ^ nat (?k - ?e)) \<le> x / quantum x" "x / quantum x \<le> of_int (2 ^ nat (?k + 1 - ?e))"
    unfolding u by (simp_all only: powi_multiple[OF ek(1)] powi_multiple[OF ek(2)] pos_le_divide_eq[OF powi2_pos]
        pos_divide_le_eq[OF powi2_pos])
  then have "2 ^ nat (?k - ?e) \<le> rne (x / quantum x)" "rne (x / quantum x) \<le> 2 ^ nat (?k + 1 - ?e)"
    using rne_mono rne_of_int by metis+
  then have "(of_int (2 ^ nat (?k - ?e)) :: rat) \<le> of_int (rne (x / quantum x))"
    "(of_int (rne (x / quantum x)) :: rat) \<le> of_int (2 ^ nat (?k + 1 - ?e))"
    by (simp_all only: of_int_le_iff)
  then show "2 powi ?k \<le> rndr x" "rndr x \<le> 2 powi (?k + 1)"
    unfolding rndr_def powi_multiple[OF ek(1)] powi_multiple[OF ek(2)] u
    by (auto intro: mult_right_mono)
qed

lemma rndr_nonneg: "0 \<le> x \<Longrightarrow> 0 \<le> rndr x"
  using rne_mono[of 0 "x / quantum x"] quantum_pos[of x] by (simp add: rndr_def less_imp_le)

lemma rndr_mono_pos:
  assumes "0 < x" and "x \<le> y"
  shows "rndr x \<le> rndr y"
proof (cases "quantum x = quantum y")
  case True
  have "x / quantum y \<le> y / quantum y" using assms by (simp add: divide_right_mono less_imp_le)
  then have "rne (x / quantum y) \<le> rne (y / quantum y)" by (rule rne_mono)
  then show ?thesis by (simp add: rndr_def True mult_right_mono less_imp_le)
next
  case False
  have y: "0 < y" using assms by simp
  have "ilog2 x \<le> ilog2 y" using assms by (rule ilog2_mono)
  moreover have ne: "max (ilog2 x - 52) (-1074) \<noteq> max (ilog2 y - 52) (-1074)"
    using False assms y by (auto simp: quantum_def)
  ultimately have lt: "ilog2 x + 1 \<le> ilog2 y" and big: "-1074 \<le> ilog2 y - 52"
    by (auto simp: max_def split: if_splits)
  show ?thesis
  proof (cases "-1074 \<le> ilog2 x")
    case True
    have "rndr x \<le> 2 powi (ilog2 x + 1)" using rndr_pos_bounds(2)[OF assms(1) True] .
    also have "\<dots> \<le> 2 powi (ilog2 y)" using lt by simp
    also have "\<dots> \<le> rndr y" using rndr_pos_bounds(1)[OF y] big by simp
    finally show ?thesis .
  next
    case False
    have u: "quantum x = 2 powi (-1074)" using False assms by (simp add: quantum_def)
    have "x < 2 powi (ilog2 x + 1)" using ilog2_bounds(2)[OF assms(1)] .
    also have "\<dots> \<le> 2 powi (-1074)" using False by (simp only: powi_mono_iff)
    finally have "x / quantum x \<le> of_int 1" unfolding u by (simp add: divide_le_eq)
    then have "rne (x / quantum x) \<le> 1" using rne_mono rne_of_int by metis
    then have "(of_int (rne (x / quantum x)) :: rat) \<le> 1" using of_int_le_1_iff by blast
    then have "rndr x \<le> 1 * quantum x" unfolding rndr_def by (intro mult_right_mono) (auto intro: less_imp_le)
    also have "1 * quantum x \<le> 2 powi (ilog2 y)" unfolding u using big by (simp only: powi_mono_iff mult_1_left)
    also have "\<dots> \<le> rndr y" using rndr_pos_bounds(1)[OF y] big by simp
    finally show ?thesis .
  qed
qed

lemma rndr_mono: "x \<le> y \<Longrightarrow> rndr x \<le> rndr y"
proof -
  assume xy: "x \<le> y"
  consider "0 < x" | "x \<le> 0" "0 \<le> y" | "y < 0" by linarith
  then show ?thesis
  proof cases
    case 1
    then show ?thesis using xy by (rule rndr_mono_pos)
  next
    case 2
    then have "0 \<le> rndr (- x)" "0 \<le> rndr y" by (auto intro: rndr_nonneg)
    then show ?thesis by (simp add: rndr_minus)
  next
    case 3
    then have "rndr (- y) \<le> rndr (- x)" using xy by (intro rndr_mono_pos) auto
    then show ?thesis by (simp add: rndr_minus)
  qed
qed

lemma rndr_int:
  assumes "\<bar>n\<bar> \<le> 2 ^ 53"
  shows "rndr (of_int n) = of_int n"
proof (cases "n = 0")
  case True
  then show ?thesis by (simp add: rndr_def)
next
  case False
  let ?x = "of_int \<bar>n\<bar> :: rat" and ?k = "ilog2 (of_int \<bar>n\<bar>)"
  have x1: "1 \<le> ?x" using False by (metis abs_not_less_zero int_one_le_iff_zero_less linorder_less_linear of_int_1 of_int_le_iff zero_less_abs_iff)
  have x: "0 < ?x" using x1 by linarith
  have le: "?x \<le> 2 powi 53"
  proof -
    have "?x \<le> of_int (2 ^ 53)" using assms by (simp only: of_int_le_iff)
    then show ?thesis by simp
  qed
  have "(2::rat) powi ?k \<le> 2 powi 53" using ilog2_bounds(1)[OF x] le by linarith
  then have k53: "?k \<le> 53" by (simp only: powi_mono_iff)
  have "(2::rat) powi 0 < 2 powi (?k + 1)" using ilog2_bounds(2)[OF x] x1 by simp
  then have k0: "0 \<le> ?k" by (simp only: powi_strict_iff)
  have u: "quantum (of_int n) = 2 powi (?k - 52)" using k0 by (simp add: quantum_def)
  show ?thesis
  proof (cases "?k \<le> 52")
    case True
    have "(2::rat) powi 0 = of_int (2 ^ nat (0 - (?k - 52))) * 2 powi (?k - 52)"
      using True by (intro powi_multiple) simp
    then have "(of_int n :: rat) = of_int (n * 2 ^ nat (52 - ?k)) * quantum (of_int n)"
      unfolding u by simp
    then show ?thesis by (rule rndr_exact)
  next
    case False
    with k53 have k: "?k = 53" by simp
    have "2 powi 53 \<le> ?x" using ilog2_bounds(1)[OF x] k by simp
    with le have "?x = of_int (2 ^ 53)" by simp
    then have "\<bar>n\<bar> = 2 ^ 53" by (simp only: of_int_eq_iff)
    then have "n = 2 ^ 53 \<or> n = - (2 ^ 53)" by linarith
    moreover have "quantum (of_int n) = 2" unfolding u k by simp
    ultimately have "(of_int n :: rat) = of_int (n div 2) * quantum (of_int n)" by auto
    then show ?thesis by (rule rndr_exact)
  qed
qed

lemma rnd_int: "\<bar>n\<bar> \<le> 2 ^ 53 \<Longrightarrow> rnd (of_int n) = Fin (of_int n)"
proof -
  assume n: "\<bar>n\<bar> \<le> 2 ^ 53"
  have "\<bar>of_int n :: rat\<bar> \<le> of_int (2 ^ 53)" using n by (metis of_int_abs of_int_le_iff)
  moreover have "(of_int (2 ^ 53) :: rat) < 2 ^ 1024" by simp
  ultimately have "\<not> 2 ^ 1024 \<le> (of_int n :: rat)" "\<not> (of_int n :: rat) \<le> - (2 ^ 1024)" by linarith+
  then show ?thesis by (simp add: rnd_rndr rndr_int[OF n])
qed

lemma rnd_0 [simp]: "rnd 0 = Fin 0" and rnd_1 [simp]: "rnd 1 = Fin 1"
  using rnd_int[of 0] rnd_int[of 1] by simp_all

lemma rnd_numeral [simp]: "(numeral w :: int) \<le> 9007199254740992 \<Longrightarrow> rnd (numeral w) = Fin (numeral w)"
  using rnd_int[of "numeral w"] by simp

lemma rnd_neg_numeral [simp]:
  "(numeral w :: int) \<le> 9007199254740992 \<Longrightarrow> rnd (- numeral w) = Fin (- numeral w)"
  using rnd_int[of "- numeral w"] by simp

section \<open>Operators\<close>

instantiation jsnum :: "{zero, one, plus, minus, times, uminus, inverse, ord}"
begin

definition zero_jsnum :: jsnum where "0 = Fin 0"
definition one_jsnum :: jsnum where "1 = Fin 1"

definition uminus_jsnum :: "jsnum \<Rightarrow> jsnum" where
  "- x = (case x of Fin a \<Rightarrow> Fin (- a) | PInf \<Rightarrow> NInf | NInf \<Rightarrow> PInf | NaN \<Rightarrow> NaN)"

definition plus_jsnum :: "jsnum \<Rightarrow> jsnum \<Rightarrow> jsnum" where
  "x + y = (case (x, y) of
      (Fin a, Fin b) \<Rightarrow> rnd (a + b)
    | (NaN, _) \<Rightarrow> NaN | (_, NaN) \<Rightarrow> NaN
    | (PInf, NInf) \<Rightarrow> NaN | (NInf, PInf) \<Rightarrow> NaN
    | (Fin _, i) \<Rightarrow> i | (i, _) \<Rightarrow> i)"

definition minus_jsnum :: "jsnum \<Rightarrow> jsnum \<Rightarrow> jsnum" where
  "x - y = x + (- y :: jsnum)"

definition times_jsnum :: "jsnum \<Rightarrow> jsnum \<Rightarrow> jsnum" where
  "x * y = (case (x, y) of
      (Fin a, Fin b) \<Rightarrow> rnd (a * b)
    | (NaN, _) \<Rightarrow> NaN | (_, NaN) \<Rightarrow> NaN
    | (Fin a, i) \<Rightarrow> (if a = 0 then NaN else if 0 < a then i else - i)
    | (i, Fin b) \<Rightarrow> (if b = 0 then NaN else if 0 < b then i else - i)
    | (i, PInf) \<Rightarrow> i | (i, NInf) \<Rightarrow> - i)"

text \<open>The sign of a zero divisor is not kept: a zero divides as \<open>+0\<close>.\<close>

definition divide_jsnum :: "jsnum \<Rightarrow> jsnum \<Rightarrow> jsnum" where
  "divide x y = (case (x, y) of
      (Fin a, Fin b) \<Rightarrow> (if b \<noteq> 0 then rnd (a / b)
                         else if a = 0 then NaN else if 0 < a then PInf else NInf)
    | (NaN, _) \<Rightarrow> NaN | (_, NaN) \<Rightarrow> NaN
    | (Fin _, _) \<Rightarrow> Fin 0
    | (i, Fin b) \<Rightarrow> (if 0 \<le> b then i else - i)
    | _ \<Rightarrow> NaN)"

definition inverse_jsnum :: "jsnum \<Rightarrow> jsnum" where
  "inverse x = divide (1 :: jsnum) x"

definition less_jsnum :: "jsnum \<Rightarrow> jsnum \<Rightarrow> bool" where
  "x < y = (case (x, y) of
      (Fin a, Fin b) \<Rightarrow> a < b
    | (NInf, Fin _) \<Rightarrow> True | (NInf, PInf) \<Rightarrow> True | (Fin _, PInf) \<Rightarrow> True
    | _ \<Rightarrow> False)"

definition less_eq_jsnum :: "jsnum \<Rightarrow> jsnum \<Rightarrow> bool" where
  "(x :: jsnum) \<le> y = (x < y \<or> (x = y \<and> x \<noteq> NaN))"

instance ..

end

text \<open>\<^verbatim>\<open>===\<close> on numbers.\<close>

definition jseq :: "jsnum \<Rightarrow> jsnum \<Rightarrow> bool" where
  "jseq x y \<longleftrightarrow> x = y \<and> x \<noteq> NaN"

definition trunc :: "rat \<Rightarrow> int" where
  "trunc x = (if 0 \<le> x then \<lfloor>x\<rfloor> else \<lceil>x\<rceil>)"

definition jsrem :: "jsnum \<Rightarrow> jsnum \<Rightarrow> jsnum" where
  "jsrem x y = (case (x, y) of
      (Fin a, Fin b) \<Rightarrow> (if b = 0 then NaN else Fin (a - b * of_int (trunc (a / b))))
    | (Fin a, PInf) \<Rightarrow> Fin a | (Fin a, NInf) \<Rightarrow> Fin a
    | _ \<Rightarrow> NaN)"

definition js_floor :: "jsnum \<Rightarrow> jsnum" where
  "js_floor x = (case x of Fin a \<Rightarrow> Fin (of_int \<lfloor>a\<rfloor>) | _ \<Rightarrow> x)"

definition js_ceil :: "jsnum \<Rightarrow> jsnum" where
  "js_ceil x = (case x of Fin a \<Rightarrow> Fin (of_int \<lceil>a\<rceil>) | _ \<Rightarrow> x)"

definition js_round :: "jsnum \<Rightarrow> jsnum" where
  "js_round x = (case x of Fin a \<Rightarrow> Fin (of_int \<lfloor>a + 1 / 2\<rfloor>) | _ \<Rightarrow> x)"

text \<open>\<^verbatim>\<open>ToInt32\<close> and \<^verbatim>\<open>ToUint32\<close> of the language: truncate, then keep the low 32 bits.\<close>

definition to_word32 :: "jsnum \<Rightarrow> 32 word" where
  "to_word32 x = (case x of Fin a \<Rightarrow> word_of_int (trunc a) | _ \<Rightarrow> 0)"

abbreviation IntN :: "int \<Rightarrow> jsnum" where
  "IntN n \<equiv> Fin (of_int n)"

lemma Fin_plus [simp]: "Fin a + Fin b = rnd (a + b)"
  and Fin_minus [simp]: "Fin a - Fin b = rnd (a - b)"
  and Fin_times [simp]: "Fin a * Fin b = rnd (a * b)"
  and Fin_divide: "Fin a / Fin b = (if b \<noteq> 0 then rnd (a / b)
                         else if a = 0 then NaN else if 0 < a then PInf else NInf)"
  and Fin_uminus [simp]: "- Fin a = Fin (- a)"
  and Fin_less [simp]: "Fin a < Fin b \<longleftrightarrow> a < b"
  and Fin_less_eq [simp]: "Fin a \<le> Fin b \<longleftrightarrow> a \<le> b"
  by (auto simp: plus_jsnum_def minus_jsnum_def times_jsnum_def divide_jsnum_def uminus_jsnum_def
      less_jsnum_def less_eq_jsnum_def)

lemma Fin_divide_nz [simp]: "b \<noteq> 0 \<Longrightarrow> Fin a / Fin b = rnd (a / b)"
  by (simp add: Fin_divide)

lemma NaN_less [simp]: "\<not> NaN < x" "\<not> x < NaN"
  by (auto simp: less_jsnum_def split: jsnum.splits)

lemma NaN_arith [simp]:
  "NaN + x = NaN" "x + NaN = NaN" "NaN - x = NaN" "x - NaN = NaN" "NaN * x = NaN" "x * NaN = NaN"
  "NaN / x = NaN" "x / NaN = NaN"
  by (auto simp: plus_jsnum_def minus_jsnum_def uminus_jsnum_def times_jsnum_def divide_jsnum_def split: jsnum.splits)

lemma Inf_less [simp]:
  "NInf < Fin a" "Fin a < PInf" "NInf < PInf" "\<not> PInf < x" "\<not> x < NInf"
  by (auto simp: less_jsnum_def split: jsnum.splits)

lemma Int_plus: "\<bar>m + n\<bar> \<le> 2 ^ 53 \<Longrightarrow> IntN m + IntN n = IntN (m + n)"
  using rnd_int[of "m + n"] by simp

lemma Int_minus: "\<bar>m - n\<bar> \<le> 2 ^ 53 \<Longrightarrow> IntN m - IntN n = IntN (m - n)"
  using rnd_int[of "m - n"] by simp

lemma Int_times: "\<bar>m * n\<bar> \<le> 2 ^ 53 \<Longrightarrow> IntN m * IntN n = IntN (m * n)"
  using rnd_int[of "m * n"] by simp

lemma rnd_le_Int: "x \<le> of_int n \<Longrightarrow> \<bar>n\<bar> \<le> 2 ^ 53 \<Longrightarrow> rnd x \<le> IntN n"
proof -
  assume a: "x \<le> of_int n" "\<bar>n\<bar> \<le> 2 ^ 53"
  have le: "rndr x \<le> of_int n" using rndr_mono[OF a(1)] rndr_int[OF a(2)] by simp
  have "(of_int n :: rat) \<le> of_int (2 ^ 53)" using a(2) by (metis abs_le_iff of_int_le_iff)
  moreover have "(of_int (2 ^ 53) :: rat) < 2 ^ 1024" by simp
  ultimately have "\<not> 2 ^ 1024 \<le> rndr x" using le by linarith
  then show ?thesis using le by (auto simp: rnd_rndr less_eq_jsnum_def)
qed

lemma rnd_ge_Int: "of_int n \<le> x \<Longrightarrow> \<bar>n\<bar> \<le> 2 ^ 53 \<Longrightarrow> IntN n \<le> rnd x"
proof -
  assume a: "of_int n \<le> x" "\<bar>n\<bar> \<le> 2 ^ 53"
  have le: "of_int n \<le> rndr x" using rndr_mono[OF a(1)] rndr_int[OF a(2)] by simp
  have "(of_int (- (2 ^ 53)) :: rat) \<le> of_int n" using a(2) by (metis abs_le_iff minus_le_iff of_int_le_iff)
  moreover have "- (2 ^ 1024) < (of_int (- (2 ^ 53)) :: rat)" by simp
  ultimately have "\<not> rndr x \<le> - (2 ^ 1024)" using le by linarith
  then show ?thesis using le by (auto simp: rnd_rndr less_eq_jsnum_def)
qed

lemma rnd_not_NaN [simp]: "rnd x \<noteq> NaN"
  by (simp add: rnd_rndr)

lemma trunc_of_int [simp]: "trunc (of_int n) = n"
  by (simp add: trunc_def)

lemma to_word32_Int [simp]: "to_word32 (IntN n) = word_of_int n"
  by (simp add: to_word32_def)

subsection \<open>Divisions that are rounded up\<close>

lemma rndr_close: "0 < x \<Longrightarrow> x < 2 ^ 31 \<Longrightarrow> \<bar>rndr x - x\<bar> < 1 / 4000000"
proof -
  assume x: "0 < x" "x < 2 ^ 31"
  have "2 powi (ilog2 x) < (2::rat) powi 31" using ilog2_bounds(1)[OF x(1)] x(2) by (simp add: power_int_def)
  then have "ilog2 x < 31" by (simp only: powi_strict_iff)
  then have "ilog2 \<bar>x\<bar> - 52 \<le> - 22" using x(1) by simp
  then have "quantum x \<le> 2 powi (- 22)" unfolding quantum_def by (simp only: powi_mono_iff)
  moreover have "(2::rat) powi (- 22) = 1 / 4194304" by (simp add: power_int_def power_one_over)
  ultimately show ?thesis using rndr_error[of x] by linarith
qed

lemma js_ceil_div: 
  assumes "0 \<le> n" and "n < 2 ^ 40"
  shows "js_ceil (IntN n / Fin 1000) = IntN ((n + 999) div 1000)"
proof (cases "n = 0")
  case False
  let ?x = "of_int n / 1000 :: rat" and ?k = "(n + 999) div 1000"
  have "?k * 1000 + (n + 999) mod 1000 = n + 999" by (rule div_mult_mod_eq)
  moreover have "0 \<le> (n + 999) mod 1000" "(n + 999) mod 1000 < 1000" by simp_all
  ultimately have k: "1000 * ?k - 999 \<le> n" "n \<le> 1000 * ?k" by linarith+
  have pos: "0 < ?x" using assms False by simp
  have "(of_int n :: rat) < of_int (2 ^ 40)" using assms(2) by (simp only: of_int_less_iff)
  then have lt: "?x < 2 ^ 31" by simp
  have "(of_int n :: rat) \<le> of_int (1000 * ?k)" using k(2) by (simp only: of_int_le_iff)
  then have up: "?x \<le> of_int ?k" by simp
  have "(of_int (1000 * ?k - 999) :: rat) \<le> of_int n" using k(1) by (simp only: of_int_le_iff)
  then have lo: "of_int (?k - 1) + 1 / 1000 \<le> ?x" by (simp add: field_simps)
  have kb: "\<bar>?k\<bar> \<le> 2 ^ 53" using k assms by simp
  have r1: "rndr ?x \<le> of_int ?k" using rndr_mono[OF up] rndr_int[OF kb] by simp
  have r2: "of_int (?k - 1) < rndr ?x" using rndr_close[OF pos lt] lo by linarith
  have "\<lceil>rndr ?x\<rceil> = ?k" using r1 r2 by (intro ceiling_unique) simp_all
  moreover have "(of_int ?k :: rat) \<le> of_int (2 ^ 53)" using kb by (metis abs_le_D1 of_int_le_iff)
  then have "rndr ?x \<le> of_int (2 ^ 53)" using r1 by (rule order_trans[rotated])
  then have "rndr ?x < 2 ^ 1024" by (rule le_less_trans) simp
  moreover have "- (2 ^ 1024) < rndr ?x" using rndr_nonneg[of ?x] pos by (simp add: less_le_trans[of _ 0])
  ultimately show ?thesis by (simp add: rnd_rndr js_ceil_def)
qed (simp add: js_ceil_def)

lemma rndr_half: "0 < k \<Longrightarrow> k < 2 ^ 32 \<Longrightarrow> rndr (of_int k / 2) = of_int k / 2"
proof -
  assume k: "0 < k" "k < 2 ^ 32"
  let ?x = "of_int k / 2 :: rat"
  have "(of_int k :: rat) < of_int (2 ^ 32)" using k(2) by (simp only: of_int_less_iff)
  then have x: "0 < ?x" "?x < 2 ^ 31" using k(1) by simp_all
  have "2 powi (ilog2 ?x) < (2::rat) powi 31" using ilog2_bounds(1)[OF x(1)] x(2) by (simp add: power_int_def)
  then have "ilog2 ?x < 31" by (simp only: powi_strict_iff)
  then have "max (ilog2 \<bar>?x\<bar> - 52) (- 1074) \<le> - 1" using x(1) by simp
  from powi_multiple[OF this]
  have "(2::rat) powi (- 1) = of_int (2 ^ nat (- 1 - max (ilog2 \<bar>?x\<bar> - 52) (- 1074))) * quantum ?x" by (simp only: quantum_def)
  moreover have "?x = of_int k * 2 powi (- 1)" by (simp add: power_int_def)
  ultimately have "?x = of_int (k * 2 ^ nat (- 1 - max (ilog2 \<bar>?x\<bar> - 52) (- 1074))) * quantum ?x"
    by (simp only: of_int_mult mult.assoc)
  then show ?thesis by (rule rndr_exact)
qed

lemma js_round_div:
  assumes "0 \<le> n" and "n < 2147483648000"
  shows "js_round (IntN n / Fin 1000) = IntN ((n + 500) div 1000)"
proof (cases "n = 0")
  case False
  let ?x = "of_int n / 1000 :: rat" and ?q = "(n + 500) div 1000" and ?r = "(n + 500) mod 1000"
  have eq: "?q * 1000 + ?r = n + 500" by (rule div_mult_mod_eq)
  have r: "0 \<le> ?r" "?r < 1000" by simp_all
  have "(of_int n :: rat) < of_int 2147483648000" using assms(2) by (simp only: of_int_less_iff)
  then have x: "0 < ?x" "?x < 2 ^ 31" using assms False by simp_all
  have "(of_int (?q * 1000 + ?r) :: rat) = of_int (n + 500)" using eq by (simp only:)
  then have "of_int ?q * 1000 + of_int ?r = (of_int n + 500 :: rat)" by (simp only: of_int_add of_int_mult of_int_numeral)
  then have xq: "?x = of_int ?q - 1 / 2 + of_int ?r / 1000" by (simp add: field_simps)
  have "\<lfloor>rndr ?x + 1 / 2\<rfloor> = ?q"
  proof (cases "?r = 0")
    case True
    then have half: "?x = of_int (2 * ?q - 1) / 2" using xq by (simp add: field_simps)
    have "0 < 2 * ?q - 1" "2 * ?q - 1 < 4294967296" using eq True assms False by linarith+
    then have "rndr (of_int (2 * ?q - 1) / 2) = of_int (2 * ?q - 1) / 2" by (intro rndr_half) simp_all
    then have "rndr ?x = of_int (2 * ?q - 1) / 2" by (simp only: half)
    then have "rndr ?x + 1 / 2 = of_int ?q" by (simp add: field_simps)
    then show ?thesis by (simp only: floor_of_int)
  next
    case False
    then have "(1 :: rat) \<le> of_int ?r" "(of_int ?r :: rat) \<le> 999" using r by linarith+
    then show ?thesis using rndr_close[OF x] xq by (intro floor_unique) linarith+
  qed
  moreover have "rndr ?x < 2 ^ 1024"
    using rndr_close[OF x] x(2) by (intro less_trans[of "rndr ?x" "2 ^ 31 + 1" "2 ^ 1024"]) (linarith, simp)
  moreover have "- (2 ^ 1024) < rndr ?x" using rndr_nonneg[of ?x] x(1) by (simp add: less_le_trans[of _ 0])
  ultimately show ?thesis by (simp add: rnd_rndr js_round_def)
next
  case True
  have "\<lfloor>1 / 2 :: rat\<rfloor> = 0" by (rule floor_unique) simp_all
  with True show ?thesis by (simp add: js_round_def)
qed

subsection \<open>Scaling by powers of two\<close>

lemma powi_shift: "(2::rat) powi (j + e) = 2 powi j * 2 powi e"
  by (subst power_int_add) simp_all

lemma ilog2_scale: "0 < x \<Longrightarrow> ilog2 (x * 2 powi e) = ilog2 x + e"
proof (rule ilog2_unique)
  assume x: "0 < x"
  show "2 powi (ilog2 x + e) \<le> x * 2 powi e"
    unfolding powi_shift using ilog2_bounds(1)[OF x] by (intro mult_right_mono) simp_all
  have "2 powi (ilog2 x + e + 1) = (2::rat) powi (ilog2 x + 1) * 2 powi e"
    using powi_shift[of "ilog2 x + 1" e] by (simp add: algebra_simps)
  then show "x * 2 powi e < 2 powi (ilog2 x + e + 1)"
    using ilog2_bounds(2)[OF x] by (simp add: mult_strict_right_mono)
qed

lemma rndr_scale:
  assumes "x \<noteq> 0" "- 1022 \<le> ilog2 \<bar>x\<bar>" "- 1022 \<le> ilog2 \<bar>x\<bar> + e"
  shows "rndr (x * 2 powi e) = rndr x * 2 powi e"
proof -
  have "quantum (x * 2 powi e) = 2 powi ((ilog2 \<bar>x\<bar> - 52) + e)" "quantum x = 2 powi (ilog2 \<bar>x\<bar> - 52)"
    using ilog2_scale[of "\<bar>x\<bar>" e] assms by (simp_all add: quantum_def abs_mult algebra_simps)
  then have "quantum (x * 2 powi e) = quantum x * 2 powi e" by (simp only: powi_shift)
  then show ?thesis by (simp add: rndr_def)
qed

lemma ilog2_int: "n \<noteq> 0 \<Longrightarrow> 0 \<le> ilog2 \<bar>of_int n\<bar>"
proof -
  assume n: "n \<noteq> 0"
  then have "1 \<le> \<bar>n\<bar>" by linarith
  then have "1 \<le> \<bar>of_int n :: rat\<bar>" by (metis of_int_1 of_int_abs of_int_le_iff)
  then have "(2::rat) powi 0 < 2 powi (ilog2 \<bar>of_int n\<bar> + 1)" using ilog2_bounds(2)[of "\<bar>of_int n\<bar>"] n by simp
  then show ?thesis by (simp only: powi_strict_iff)
qed

lemma rnd_scaled_int:
  assumes "\<bar>n\<bar> \<le> 2 ^ 53" "- 1000 \<le> e" "e \<le> 900"
  shows "rnd (of_int n * 2 powi e) = Fin (of_int n * 2 powi e)"
proof (cases "n = 0")
  case False
  then have r: "rndr (of_int n * 2 powi e) = of_int n * 2 powi e"
    using ilog2_int[OF False] assms(2) by (simp add: rndr_scale rndr_int[OF assms(1)])
  have "\<bar>of_int n :: rat\<bar> \<le> of_int (2 ^ 53)" using assms(1) by (metis of_int_abs of_int_le_iff)
  moreover have "(2 :: rat) powi e \<le> 2 powi 900" using assms(3) by (simp only: powi_mono_iff)
  ultimately have "\<bar>of_int n\<bar> * 2 powi e \<le> of_int (2 ^ 53) * (2 :: rat) powi 900" by (rule mult_mono) simp_all
  then have "\<bar>of_int n * 2 powi e :: rat\<bar> \<le> of_int (2 ^ 53) * 2 ^ 900" by (simp add: abs_mult)
  also have "\<dots> < (2 :: rat) ^ 1024" by (simp flip: power_add)
  finally have "\<not> 2 ^ 1024 \<le> (of_int n * 2 powi e :: rat)" "\<not> (of_int n * 2 powi e :: rat) \<le> - (2 ^ 1024)" by linarith+
  then show ?thesis unfolding rnd_rndr r by simp
qed simp

end
