(* ===== verification/Buffers.thy ===== *)
theory Buffers
  imports JSNumber
begin

unbundle bit_operations_syntax

text \<open>
  Byte buffers of \<^verbatim>\<open>bitcore.js\<close>: the bounds-checked reads and writes of the bundled \<^verbatim>\<open>Buffer\<close>,
  the big-number conversions the serializers use, and the \<^verbatim>\<open>BufferReader\<close>, \<^verbatim>\<open>BufferWriter\<close> and
  \<^verbatim>\<open>Varint\<close> classes. A writer's state is its list \<^verbatim>\<open>bufs\<close>, a reader's the buffer with a position.
  The locale \<open>codec\<close> states what it means for a writer and a reader method to be inverse; the
  message formats of the later theories are built from its instances.
\<close>

section \<open>Reads and writes of Buffer\<close>

text \<open>\<^verbatim>\<open>~~n\<close> and \<^verbatim>\<open>n >>> k\<close> on integral Numbers.\<close>

definition int32 :: "int \<Rightarrow> int" where
  "int32 n = sint (word_of_int n :: 32 word)"

definition ushr :: "int \<Rightarrow> nat \<Rightarrow> int" where
  "ushr n k = drop_bit k (take_bit 32 n)"

definition buf_slice :: "bytes \<Rightarrow> int \<Rightarrow> int \<Rightarrow> bytes" where
  "buf_slice b start stop =
    (let len = int (length b);
         s = int32 start;
         e = int32 stop;
         s = (if s < 0 then (if s + len < 0 then 0 else s + len) else if s > len then len else s);
         e = (if e < 0 then (if e + len < 0 then 0 else e + len) else if e > len then len else e);
         e = (if e < s then s else e)
     in take (nat (e - s)) (drop (nat s) b))"

definition checkOffset :: "int \<Rightarrow> int \<Rightarrow> int \<Rightarrow> exn + unit" where
  "checkOffset offset ext len =
    (if offset < 0 then Inl RangeError else if offset + ext > len then Inl RangeError else Inr ())"

abbreviation byte_at :: "bytes \<Rightarrow> int \<Rightarrow> int" where
  "byte_at b i \<equiv> uint (b ! nat i)"

definition readUInt8 :: "bytes \<Rightarrow> int \<Rightarrow> exn + int" where
  "readUInt8 b offset =
    (case checkOffset offset 1 (int (length b)) of Inl e \<Rightarrow> Inl e | Inr _ \<Rightarrow> Inr (byte_at b offset))"

definition readUInt16LE :: "bytes \<Rightarrow> int \<Rightarrow> exn + int" where
  "readUInt16LE b offset =
    (case checkOffset offset 2 (int (length b)) of Inl e \<Rightarrow> Inl e
     | Inr _ \<Rightarrow> Inr (byte_at b offset OR push_bit 8 (byte_at b (offset + 1))))"

definition readUInt32LE :: "bytes \<Rightarrow> int \<Rightarrow> exn + int" where
  "readUInt32LE b offset =
    (case checkOffset offset 4 (int (length b)) of Inl e \<Rightarrow> Inl e
     | Inr _ \<Rightarrow> Inr ((byte_at b offset OR push_bit 8 (byte_at b (offset + 1))
                       OR push_bit 16 (byte_at b (offset + 2)))
                     + byte_at b (offset + 3) * 0x1000000))"

text \<open>
  The writes are made into a fresh buffer of the width written, so of the tests of
  \<^verbatim>\<open>checkInt\<close> only the one on the value can fail.
\<close>

definition checkInt :: "int \<Rightarrow> int \<Rightarrow> int \<Rightarrow> exn + unit" where
  "checkInt v mx mn =
    (if v > mx \<or> v < mn then Inl (TypeError ''value is out of bounds'') else Inr ())"

definition writeUInt8 :: "int \<Rightarrow> exn + bytes" where
  "writeUInt8 v = (case checkInt v 0xff 0 of Inl e \<Rightarrow> Inl e | Inr _ \<Rightarrow> Inr [word_of_int v])"

definition writeUInt16LE :: "int \<Rightarrow> exn + bytes" where
  "writeUInt16LE v = (case checkInt v 0xffff 0 of Inl e \<Rightarrow> Inl e
     | Inr _ \<Rightarrow> Inr [word_of_int v, word_of_int (ushr v 8)])"

definition bytes32 :: "int \<Rightarrow> bytes" where
  "bytes32 v = [word_of_int v, word_of_int (ushr v 8), word_of_int (ushr v 16), word_of_int (ushr v 24)]"

definition writeUInt32LE :: "int \<Rightarrow> exn + bytes" where
  "writeUInt32LE v = (case checkInt v 0xffffffff 0 of Inl e \<Rightarrow> Inl e | Inr _ \<Rightarrow> Inr (bytes32 v))"

definition writeInt32LE :: "int \<Rightarrow> exn + bytes" where
  "writeInt32LE v = (case checkInt v 0x7fffffff (-0x80000000) of Inl e \<Rightarrow> Inl e | Inr _ \<Rightarrow> Inr (bytes32 v))"

section \<open>Big numbers\<close>

text \<open>
  A \<^verbatim>\<open>BN\<close> is an integer. \<^verbatim>\<open>new BN(number)\<close> keeps two 26-bit words of the magnitude.
\<close>

definition bn_fromNumber :: "jsnum \<Rightarrow> int" where
  "bn_fromNumber x = (case x of
      Fin a \<Rightarrow> (if a < 0 then - (trunc (- a) mod 2 ^ 52) else trunc a mod 2 ^ 52)
    | _ \<Rightarrow> 0)"

definition bn_toNumber :: "int \<Rightarrow> jsnum" where
  "bn_toNumber n = rnd (of_int n)"

fun le_val :: "bytes \<Rightarrow> int" where
  "le_val [] = 0"
| "le_val (b # bs) = uint b + 256 * le_val bs"

fun le_bytes :: "nat \<Rightarrow> int \<Rightarrow> bytes" where
  "le_bytes 0 n = []"
| "le_bytes (Suc k) n = word_of_int n # le_bytes k (n div 256)"

definition bn_fromBuffer :: "bytes \<Rightarrow> int" where
  "bn_fromBuffer b = le_val (rev b)"

text \<open>Length in bytes of \<^verbatim>\<open>toString(16, 2)\<close>; zero prints as one byte.\<close>

definition bn_natlen :: "int \<Rightarrow> nat" where
  "bn_natlen n = max 1 ((nat (bitlen n) + 7) div 8)"

definition bn_toBuffer :: "nat \<Rightarrow> int \<Rightarrow> exn + bytes" where
  "bn_toBuffer sz n =
    (if n < 0 then Inl (GenericError ''Invalid hex string'')
     else Inr (rev (le_bytes (max sz (bn_natlen n)) n)))"

section \<open>BufferWriter\<close>

type_synonym bufs = "bytes list"
type_synonym writer = "(bufs, unit) action"

definition bw_write :: "bytes \<Rightarrow> writer" where
  "bw_write b = modify (\<lambda>ws. ws @ [b])"

definition bw_writeReverse :: "bytes \<Rightarrow> writer" where
  "bw_writeReverse b = modify (\<lambda>ws. ws @ [rev b])"

definition bw_writeUInt8 :: "int \<Rightarrow> writer" where
  "bw_writeUInt8 n = bind (lift (writeUInt8 n)) bw_write"

definition bw_writeUInt16LE :: "int \<Rightarrow> writer" where
  "bw_writeUInt16LE n = bind (lift (writeUInt16LE n)) bw_write"

definition bw_writeInt32LE :: "int \<Rightarrow> writer" where
  "bw_writeInt32LE n = bind (lift (writeInt32LE n)) bw_write"

definition bw_writeUInt32LE :: "int \<Rightarrow> writer" where
  "bw_writeUInt32LE n = bind (lift (writeUInt32LE n)) bw_write"

definition bw_writeUInt64LEBN :: "int \<Rightarrow> writer" where
  "bw_writeUInt64LEBN bn = bind (lift (bn_toBuffer 8 bn)) (\<lambda>b. bw_write (rev b))"

definition varintBufNum :: "int \<Rightarrow> exn + bytes" where
  "varintBufNum n =
    (if n < 253 then writeUInt8 n
     else if n < 0x10000 then map_sum id (\<lambda>b. 253 # b) (writeUInt16LE n)
     else if n < 0x100000000 then map_sum id (\<lambda>b. 254 # b) (writeUInt32LE n)
     else case writeInt32LE (int32 n) of Inl e \<Rightarrow> Inl e
          | Inr lo \<Rightarrow> map_sum id (\<lambda>hi. 255 # lo @ hi) (writeUInt32LE (n div 0x100000000)))"

definition bw_writeVarintNum :: "int \<Rightarrow> writer" where
  "bw_writeVarintNum n = bind (lift (varintBufNum n)) bw_write"

text \<open>\<^verbatim>\<open>bw.concat()\<close> after running a writer on an empty list.\<close>

definition bw_concat :: "writer \<Rightarrow> exn + bytes" where
  "bw_concat m = (case m [] of (Inl e, _) \<Rightarrow> Inl e | (Inr _, ws) \<Rightarrow> Inr (concat ws))"

definition varintBufBN :: "int \<Rightarrow> exn + bytes" where
  "varintBufBN bn =
    (let n = bn_toNumber bn in
     if n < IntN 253 then writeUInt8 bn
     else if n < IntN 0x10000 then map_sum id (\<lambda>b. 253 # b) (writeUInt16LE bn)
     else if n < IntN 0x100000000 then map_sum id (\<lambda>b. 254 # b) (writeUInt32LE bn)
     else bw_concat (block [bw_writeUInt8 255, bw_writeUInt64LEBN bn]))"

definition bw_writeVarintBN :: "int \<Rightarrow> writer" where
  "bw_writeVarintBN bn = bind (lift (varintBufBN bn)) bw_write"

section \<open>BufferReader\<close>

record BufferReader =
  br_buf :: bytes
  br_pos :: int

definition BufferReader :: "bytes \<Rightarrow> BufferReader" where
  "BufferReader b = \<lparr> br_buf = b, br_pos = 0 \<rparr>"

definition br_finished :: "BufferReader \<Rightarrow> bool" where
  "br_finished r = (br_pos r \<ge> int (length (br_buf r)))"

definition br_advance :: "int \<Rightarrow> (BufferReader, unit) action" where
  "br_advance n = modify (\<lambda>r. r\<lparr> br_pos := br_pos r + n \<rparr>)"

definition br_read :: "int \<Rightarrow> (BufferReader, bytes) action" where
  "br_read n = bind (gets (\<lambda>r. buf_slice (br_buf r) (br_pos r) (br_pos r + n)))
                    (\<lambda>b. bind (br_advance n) (\<lambda>_. return b))"

definition br_readAll :: "(BufferReader, bytes) action" where
  "br_readAll = bind (gets (\<lambda>r. buf_slice (br_buf r) (br_pos r) (int (length (br_buf r)))))
                     (\<lambda>b. bind (modify (\<lambda>r. r\<lparr> br_pos := int (length (br_buf r)) \<rparr>)) (\<lambda>_. return b))"

definition br_num :: "(bytes \<Rightarrow> int \<Rightarrow> exn + int) \<Rightarrow> int \<Rightarrow> (BufferReader, int) action" where
  "br_num rd n = here (\<lambda>r. bind (lift (rd (br_buf r) (br_pos r)))
                                 (\<lambda>v. bind (br_advance n) (\<lambda>_. return v)))"

definition br_readUInt8 :: "(BufferReader, int) action" where
  "br_readUInt8 = br_num readUInt8 1"

definition br_readUInt16LE :: "(BufferReader, int) action" where
  "br_readUInt16LE = br_num readUInt16LE 2"

definition br_readUInt32LE :: "(BufferReader, int) action" where
  "br_readUInt32LE = br_num readUInt32LE 4"

definition br_readUInt64LEBN :: "(BufferReader, int) action" where
  "br_readUInt64LEBN =
    bind (gets (\<lambda>r. buf_slice (br_buf r) (br_pos r) (br_pos r + 8)))
         (\<lambda>b. bind (br_advance 8) (\<lambda>_. return (bn_fromBuffer (rev b))))"

definition br_readVarintNum :: "(BufferReader, int) action" where
  "br_readVarintNum = bind br_readUInt8 (\<lambda>first.
     if first = 0xFD then br_readUInt16LE
     else if first = 0xFE then br_readUInt32LE
     else if first = 0xFF then bind br_readUInt64LEBN (\<lambda>bn.
       case bn_toNumber bn of
         Fin a \<Rightarrow> if a \<le> 2 ^ 53 then return (trunc a)
                  else throw (GenericError ''number too large to retain precision - use readVarintBN'')
       | _ \<Rightarrow> throw (GenericError ''number too large to retain precision - use readVarintBN''))
     else return first)"

definition br_readVarLengthBuffer :: "(BufferReader, bytes) action" where
  "br_readVarLengthBuffer = bind br_readVarintNum (\<lambda>n. bind (br_read n) (\<lambda>b.
     bind (checkState (int (length b) = n) ''Invalid length while reading varlength buffer'')
          (\<lambda>_. return b)))"

definition br_readVarintBuf :: "(BufferReader, bytes) action" where
  "br_readVarintBuf = here (\<lambda>r. bind (lift (readUInt8 (br_buf r) (br_pos r))) (\<lambda>first.
     if first = 0xFD then br_read (1 + 2)
     else if first = 0xFE then br_read (1 + 4)
     else if first = 0xFF then br_read (1 + 8)
     else br_read 1))"

definition br_readVarintBN :: "(BufferReader, int) action" where
  "br_readVarintBN = bind br_readUInt8 (\<lambda>first.
     if first = 0xFD then br_readUInt16LE
     else if first = 0xFE then br_readUInt32LE
     else if first = 0xFF then br_readUInt64LEBN
     else return first)"

definition br_readReverse :: "int \<Rightarrow> (BufferReader, bytes) action" where
  "br_readReverse n = bind (br_read n) (\<lambda>b. return (rev b))"

text \<open>\<^verbatim>\<open>for (i = 0; i < n; i++) xs.push(read())\<close>.\<close>

primrec br_times :: "nat \<Rightarrow> (BufferReader, 'a) action \<Rightarrow> (BufferReader, 'a list) action" where
  "br_times 0 p = return []"
| "br_times (Suc n) p = bind p (\<lambda>x. bind (br_times n p) (\<lambda>xs. return (x # xs)))"

section \<open>Varint\<close>

definition Varint_fromNumber :: "int \<Rightarrow> exn + bytes" where
  "Varint_fromNumber n = bw_concat (bw_writeVarintNum n)"

definition Varint_fromBN :: "int \<Rightarrow> exn + bytes" where
  "Varint_fromBN bn = bw_concat (bw_writeVarintBN bn)"

definition Varint_toNumber :: "bytes \<Rightarrow> exn + int" where
  "Varint_toNumber b = fst (br_readVarintNum (BufferReader b))"

definition Varint_toBN :: "bytes \<Rightarrow> exn + int" where
  "Varint_toBN b = fst (br_readVarintBN (BufferReader b))"


section \<open>Bytes and their values\<close>

lemma length_le_bytes [simp]: "length (le_bytes k n) = k"
  by (induction k arbitrary: n) simp_all

lemma uint_byte: "uint (word_of_int n :: byte) = n mod 256"
  by (simp add: uint_word_of_int)

lemma byte_eqI: "m mod 256 = n mod 256 \<Longrightarrow> (word_of_int m :: byte) = word_of_int n"
  by (simp add: word_uint_eq_iff uint_byte)

lemma uint_byte_bounds [simp]: "0 \<le> uint (b :: byte)" "uint (b :: byte) < 256" "uint (b :: byte) div 256 = 0"
  "uint (b :: byte) mod 256 = uint b"
proof -
  show l: "0 \<le> uint b" and u: "uint b < 256" using uint_lt2p[of b] by simp_all
  from l u show "uint b div 256 = 0" "uint b mod 256 = uint b" by simp_all
qed

lemma le_val_le_bytes: "le_val (le_bytes k n) = n mod 256 ^ k"
proof (induction k arbitrary: n)
  case (Suc k)
  have "n mod 256 ^ Suc k = n mod 256 + 256 * (n div 256 mod 256 ^ k)"
    by (simp add: zmod_zmult2_eq)
  then show ?case using Suc by (simp add: uint_byte)
qed simp

lemma le_val_bounds: "0 \<le> le_val b" "le_val b < 256 ^ length b"
proof (induction b)
  case (Cons a b)
  have "uint a \<le> 255" using uint_byte_bounds(2)[of a] by linarith
  moreover have "256 * le_val b \<le> 256 * (256 ^ length b - 1)" using Cons(2) by simp
  ultimately show "0 \<le> le_val (a # b)" "le_val (a # b) < 256 ^ length (a # b)" 
    using Cons by (simp_all)
qed simp_all

lemma le_bytes_le_val: "length b = k \<Longrightarrow> le_bytes k (le_val b) = b"
proof (induction b arbitrary: k)
  case (Cons a b)
  then obtain j where k: "k = Suc j" "length b = j" by auto
  have "(uint a + 256 * le_val b) div 256 = le_val b" by simp
  moreover have "(word_of_int (uint a + 256 * le_val b) :: byte) = a"
    using byte_eqI[of "uint a + 256 * le_val b" "uint a"] by (simp del: of_int_add of_int_mult)
  ultimately show ?case using k Cons.IH[of j] by simp
qed simp

lemma ushr_byte: "k \<le> 24 \<Longrightarrow> (word_of_int (ushr v k) :: byte) = word_of_int (v div 2 ^ k)"
proof (rule byte_eqI)
  assume k: "k \<le> 24"
  have "take_bit 8 (drop_bit k (take_bit 32 v)) = take_bit 8 (drop_bit k v)"
    using k by (simp add: take_bit_drop_bit take_bit_take_bit)
  then show "ushr v k mod 256 = v div 2 ^ k mod 256"
    by (simp add: ushr_def take_bit_eq_mod drop_bit_eq_div)
qed

lemma bytes32_le: "bytes32 v = le_bytes 4 v"
  by (simp add: bytes32_def ushr_byte numeral_eq_Suc) (simp add: zdiv_zmult2_eq [symmetric])

lemma bytes16_le: "[word_of_int v, word_of_int (ushr v 8)] = le_bytes 2 v"
  by (simp add: ushr_byte numeral_eq_Suc)

lemma le_bytes_append: "le_bytes (j + k) n = le_bytes j n @ le_bytes k (n div 256 ^ j)"
  by (induction j arbitrary: n) (simp_all add: zdiv_zmult2_eq)

lemma le_bytes_mod: "le_bytes k (n mod 256 ^ k) = le_bytes k n"
  using le_bytes_le_val[of "le_bytes k n" k] by (simp add: le_val_le_bytes)

section \<open>What a writer writes and a reader reads\<close>

definition writes :: "writer \<Rightarrow> bytes \<Rightarrow> bool" where
  "writes m bs \<longleftrightarrow> (\<forall>ws. \<exists>ws'. m ws = (Inr (), ws') \<and> concat ws' = concat ws @ bs)"

text \<open>
  A reader consumes exactly \<open>bs\<close> and returns \<open>x\<close> wherever \<open>bs\<close> stands in the buffer. Buffers
  are shorter than \<open>2 ^ 31\<close> bytes, beyond which \<^verbatim>\<open>slice\<close> reads its arguments as negative.
\<close>

definition parses :: "(BufferReader, 'a) action \<Rightarrow> bytes \<Rightarrow> 'a \<Rightarrow> bool" where
  "parses p bs x \<longleftrightarrow> (\<forall>pre post. length pre + length bs + length post < 2 ^ 31 \<longrightarrow>
     p \<lparr> br_buf = pre @ bs @ post, br_pos = int (length pre) \<rparr>
       = (Inr x, \<lparr> br_buf = pre @ bs @ post, br_pos = int (length pre + length bs) \<rparr>))"

named_theorems io_intros \<open>what writers write and readers read\<close>

lemma parsesI:
  assumes "\<And>pre post. length pre + length bs + length post < 2 ^ 31 \<Longrightarrow>
     p \<lparr> br_buf = pre @ bs @ post, br_pos = int (length pre) \<rparr>
       = (Inr x, \<lparr> br_buf = pre @ bs @ post, br_pos = int (length pre + length bs) \<rparr>)"
  shows "parses p bs x"
  using assms by (simp add: parses_def)

lemma parsesD:
  "parses p bs x \<Longrightarrow> length bs + length post < 2 ^ 31 \<Longrightarrow>
   p (BufferReader (bs @ post)) = (Inr x, \<lparr> br_buf = bs @ post, br_pos = int (length bs) \<rparr>)"
  unfolding parses_def BufferReader_def by (drule spec[of _ "[]"]) simp

lemma writesD: "writes m bs \<Longrightarrow> bw_concat m = Inr bs"
  unfolding writes_def bw_concat_def by (drule spec[of _ "[]"]) auto

lemma writes_Nil [io_intros]: "writes (block []) []"
  by (simp add: writes_def)

lemma writes_append:
  assumes "writes (block ms) bs" and "writes (block ns) cs"
  shows "writes (block (ms @ ns)) (bs @ cs)"
  unfolding writes_def
proof
  fix ws
  obtain ws1 where "block ms ws = (Inr (), ws1)" "concat ws1 = concat ws @ bs"
    using assms(1) by (auto simp: writes_def)
  moreover obtain ws2 where "block ns ws1 = (Inr (), ws2)" "concat ws2 = concat ws1 @ cs"
    using assms(2) by (auto simp: writes_def)
  ultimately show "\<exists>ws'. block (ms @ ns) ws = (Inr (), ws') \<and> concat ws' = concat ws @ bs @ cs"
    by (simp add: block_append)
qed

lemma writes_single: "writes m bs \<Longrightarrow> writes (block [m]) bs"
  unfolding writes_def block_Cons by (metis (no_types, lifting) block.simps(1) case_prod_conv old.sum.simps(6))

lemma writes_Cons [io_intros]:
  "writes m bs \<Longrightarrow> writes (block ms) cs \<Longrightarrow> writes (block (m # ms)) (bs @ cs)"
  using writes_append[OF writes_single] by simp

lemma writes_write [io_intros]: "writes (bw_write b) b"
  by (simp add: writes_def bw_write_def modify_def)

lemma writes_writeReverse: "writes (bw_writeReverse b) (rev b)"
  by (simp add: writes_def bw_writeReverse_def modify_def)

lemma writes_lift: "r = Inr b \<Longrightarrow> writes (bind (lift r) bw_write) b"
  by (simp add: writes_def bw_write_def modify_def bind_def lift_def)

lemma parses_return [io_intros]: "parses (return x) [] x"
  by (simp add: parses_def return_def)

lemma parses_bind [io_intros]:
  assumes p: "parses p bs x" and f: "parses (f x) cs y"
  shows "parses (bind p f) (bs @ cs) y"
proof (rule parsesI)
  fix pre post :: bytes
  assume len: "length pre + length (bs @ cs) + length post < 2 ^ 31"
  have "p \<lparr> br_buf = pre @ bs @ (cs @ post), br_pos = int (length pre) \<rparr>
      = (Inr x, \<lparr> br_buf = pre @ bs @ (cs @ post), br_pos = int (length pre + length bs) \<rparr>)"
    using p[unfolded parses_def, rule_format, of pre "cs @ post"] len by simp
  moreover have "f x \<lparr> br_buf = (pre @ bs) @ cs @ post, br_pos = int (length (pre @ bs)) \<rparr>
      = (Inr y, \<lparr> br_buf = (pre @ bs) @ cs @ post, br_pos = int (length (pre @ bs) + length cs) \<rparr>)"
    using f[unfolded parses_def, rule_format, of "pre @ bs" post] len by simp
  ultimately show "bind p f \<lparr> br_buf = pre @ (bs @ cs) @ post, br_pos = int (length pre) \<rparr>
      = (Inr y, \<lparr> br_buf = pre @ (bs @ cs) @ post, br_pos = int (length pre + length (bs @ cs)) \<rparr>)"
    by (simp add: bind_def)
qed

lemma parses_bind_return: "parses p bs x \<Longrightarrow> parses (bind p (\<lambda>x. return (g x))) bs (g x)"
  using parses_bind[of p bs x "\<lambda>x. return (g x)" "[]" "g x"] by (simp add: parses_return)

lemma parses_times:
  assumes "\<forall>x \<in> set xs. parses p (w x) (v x)"
  shows "parses (br_times (length xs) p) (concat (map w xs)) (map v xs)"
  using assms
proof (induction xs)
  case (Cons x xs)
  then have "parses (bind (br_times (length xs) p) (\<lambda>ys. return (v x # ys))) (concat (map w xs)) (v x # map v xs)"
    by (intro parses_bind_return) simp
  with Cons.prems show ?case
    using parses_bind[of p "w x" "v x"] by simp
qed (simp add: parses_return)

lemma int32_small: "- (2 ^ 31) \<le> n \<Longrightarrow> n < 2 ^ 31 \<Longrightarrow> int32 n = n"
  unfolding int32_def by (simp add: sint_sbintrunc' signed_take_bit_int_eq_self)

lemma buf_slice_mid:
  assumes "length pre + length bs + length post < 2 ^ 31"
  shows "buf_slice (pre @ bs @ post) (int (length pre)) (int (length pre) + int (length bs)) = bs"
proof -
  have *: "int (length pre) + int (length bs) + int (length post) < 2147483648"
    using assms by simp
  have "int32 (int (length pre)) = int (length pre)"
    using * by (intro int32_small) simp_all
  moreover have "int32 (int (length pre) + int (length bs)) = int (length pre) + int (length bs)"
    using * by (intro int32_small) simp_all
  ultimately show ?thesis unfolding buf_slice_def Let_def by simp
qed

lemma parses_read: "parses (br_read (int (length bs))) bs bs"
proof (rule parsesI)
  fix pre post :: bytes
  assume "length pre + length bs + length post < 2 ^ 31"
  from buf_slice_mid[OF this] show "br_read (int (length bs)) \<lparr> br_buf = pre @ bs @ post, br_pos = int (length pre) \<rparr>
       = (Inr bs, \<lparr> br_buf = pre @ bs @ post, br_pos = int (length pre + length bs) \<rparr>)"
    by (simp add: br_read_def br_advance_def action_defs)
qed

lemma parses_readReverse: "n = int (length bs) \<Longrightarrow> parses (br_readReverse n) (rev bs) bs"
  using parses_bind_return[OF parses_read[of "rev bs"], of rev] by (simp add: br_readReverse_def)

section \<open>Numbers on the wire\<close>

lemma or_shift: "0 \<le> a \<Longrightarrow> a < 2 ^ k \<Longrightarrow> a OR push_bit k b = a + 2 ^ k * (b :: int)"
proof -
  assume "0 \<le> a" "a < 2 ^ k"
  then have a: "take_bit k a = a" by (simp add: take_bit_int_eq_self)
  have "a AND push_bit k b = 0"
    by (subst a[symmetric], rule bit_eqI) (auto simp: bit_simps)
  then show ?thesis using plus_and_or[of a "push_bit k b"] by (simp add: push_bit_eq_mult mult.commute)
qed

lemma length_1: "length bs = 1 \<Longrightarrow> \<exists>a. bs = [a]"
  and length_2: "length bs = 2 \<Longrightarrow> \<exists>a b. bs = [a, b]"
  and length_4: "length bs = 4 \<Longrightarrow> \<exists>a b c d. bs = [a, b, c, d]"
  by (auto simp: numeral_eq_Suc length_Suc_conv)

lemma parses_num:
  assumes "\<And>pre post. rd (pre @ bs @ post) (int (length pre)) = Inr v" and "n = int (length bs)"
  shows "parses (br_num rd n) bs v"
  using assms by (intro parsesI) (simp add: br_num_def br_advance_def action_defs)

lemma parses_readUInt8: "length bs = 1 \<Longrightarrow> parses br_readUInt8 bs (le_val bs)"
  unfolding br_readUInt8_def
  by (drule length_1, clarify, rule parses_num) (simp_all add: readUInt8_def checkOffset_def nth_append)

lemma parses_readUInt16LE: "length bs = 2 \<Longrightarrow> parses br_readUInt16LE bs (le_val bs)"
  unfolding br_readUInt16LE_def
  by (drule length_2, clarify, rule parses_num)
     (simp_all add: readUInt16LE_def checkOffset_def nth_append or_shift nat_add_distrib)

lemma or_bytes3: "uint (a :: byte) OR push_bit 8 (uint (b :: byte)) OR push_bit 16 (uint (c :: byte))
    = uint a + 256 * (uint b + 256 * uint c)"
proof -
  have "uint a \<le> 255" "uint b \<le> 255" using uint_byte_bounds(2)[of a] uint_byte_bounds(2)[of b] by linarith+
  then have "uint a OR push_bit 8 (uint b) OR push_bit 16 (uint c) = (uint a + 2 ^ 8 * uint b) + 2 ^ 16 * uint c"
    using or_shift[of "uint a + 2 ^ 8 * uint b" 16 "uint c"] or_shift[of "uint a" 8 "uint b"]
    by (simp add: or.assoc [symmetric])
  then show ?thesis by simp
qed

lemma parses_readUInt32LE: "length bs = 4 \<Longrightarrow> parses br_readUInt32LE bs (le_val bs)"
  unfolding br_readUInt32LE_def
  by (drule length_4, clarify, rule parses_num)
     (simp_all add: readUInt32LE_def checkOffset_def nth_append nat_add_distrib or_bytes3)

lemma parses_readUInt64LEBN: "length bs = 8 \<Longrightarrow> parses br_readUInt64LEBN bs (le_val bs)"
proof (rule parsesI)
  fix pre post :: bytes
  assume "length bs = 8" and "length pre + length bs + length post < 2 ^ 31"
  then show "br_readUInt64LEBN \<lparr> br_buf = pre @ bs @ post, br_pos = int (length pre) \<rparr>
       = (Inr (le_val bs), \<lparr> br_buf = pre @ bs @ post, br_pos = int (length pre + length bs) \<rparr>)"
    using buf_slice_mid[of pre bs post]
    by (simp add: br_readUInt64LEBN_def br_advance_def bn_fromBuffer_def action_defs)
qed

lemma writes_UInt8: "0 \<le> n \<Longrightarrow> n < 256 \<Longrightarrow> writes (bw_writeUInt8 n) (le_bytes 1 n)"
  by (auto simp: bw_writeUInt8_def writeUInt8_def checkInt_def intro!: writes_lift)

lemma writeUInt16LE_ok: "0 \<le> n \<Longrightarrow> n < 2 ^ 16 \<Longrightarrow> writeUInt16LE n = Inr (le_bytes 2 n)"
  by (simp add: writeUInt16LE_def checkInt_def bytes16_le)

lemma writeUInt32LE_ok: "0 \<le> n \<Longrightarrow> n < 2 ^ 32 \<Longrightarrow> writeUInt32LE n = Inr (le_bytes 4 n)"
  by (simp add: writeUInt32LE_def checkInt_def bytes32_le)

lemma writes_UInt32LE: "0 \<le> n \<Longrightarrow> n < 2 ^ 32 \<Longrightarrow> writes (bw_writeUInt32LE n) (le_bytes 4 n)"
  by (auto simp: bw_writeUInt32LE_def writeUInt32LE_ok intro!: writes_lift)

lemma int32_range: "- (2 ^ 31) \<le> int32 n" "int32 n < 2 ^ 31"
  using sint_range_size[of "word_of_int n :: 32 word"] by (auto simp: int32_def word_size)

lemma int32_mod: "int32 n mod 2 ^ 32 = n mod 2 ^ 32"
proof -
  have "word_of_int (int32 n) = (word_of_int n :: 32 word)" by (simp add: int32_def)
  from arg_cong[OF this, of uint] show ?thesis by (simp add: uint_word_of_int)
qed

lemma writeInt32LE_int32: "writeInt32LE (int32 n) = Inr (le_bytes 4 n)"
proof -
  have "le_bytes 4 (int32 n) = le_bytes 4 n"
    using int32_mod[of n] le_bytes_mod[of 4 "int32 n"] le_bytes_mod[of 4 n] by simp
  then show ?thesis using int32_range[of n]
    by (simp add: writeInt32LE_def checkInt_def bytes32_le)
qed

lemma bitlen_le: "0 \<le> n \<Longrightarrow> n < 2 ^ k \<Longrightarrow> nat (bitlen n) \<le> k"
  using bitlen_le_iff_power[of n "int k"] by simp

lemma bn_natlen_le: "0 \<le> n \<Longrightarrow> n < 256 ^ k \<Longrightarrow> 0 < k \<Longrightarrow> bn_natlen n \<le> k"
  using bitlen_le[of n "8 * k"] by (simp add: bn_natlen_def power_mult)

lemma writes_UInt64LEBN: "0 \<le> n \<Longrightarrow> n < 2 ^ 64 \<Longrightarrow> writes (bw_writeUInt64LEBN n) (le_bytes 8 n)"
  using bn_natlen_le[of n 8]
  by (simp add: bw_writeUInt64LEBN_def bn_toBuffer_def bind_def lift_def writes_def bw_write_def modify_def)

section \<open>Inverse pairs of writer and reader\<close>

locale codec =
  fixes put :: "'a \<Rightarrow> writer"
    and get :: "(BufferReader, 'a) action"
    and wire :: "'a \<Rightarrow> bytes"
    and ok :: "'a \<Rightarrow> bool"
  assumes writes_wire: "ok x \<Longrightarrow> writes (put x) (wire x)"
    and parses_wire: "ok x \<Longrightarrow> parses get (wire x) x"
begin

lemma put_wire: "ok x \<Longrightarrow> bw_concat (put x) = Inr (wire x)"
  by (intro writesD writes_wire)

lemma get_wire:
  "ok x \<Longrightarrow> length (wire x) + length post < 2 ^ 31 \<Longrightarrow>
   get (BufferReader (wire x @ post)) = (Inr x, \<lparr> br_buf = wire x @ post, br_pos = int (length (wire x)) \<rparr>)"
  by (intro parsesD parses_wire)

lemma wire_prefix_free:
  assumes "ok x" "ok y" "wire x @ p = wire y @ q" "length (wire x) + length p < 2 ^ 31"
  shows "x = y"
proof -
  have "length (wire y) + length q < 2 ^ 31" using arg_cong[OF assms(3), of length] assms(4) by simp
  from get_wire[OF assms(2) this] get_wire[OF assms(1,4)] show ?thesis using assms(3) by simp
qed

lemma writes_list: "list_all ok xs \<Longrightarrow> writes (block (map put xs)) (concat (map wire xs))"
proof (induction xs)
  case (Cons x xs)
  then show ?case using writes_Cons[OF writes_wire, of x "map put xs"] by simp
qed (simp add: writes_Nil)

lemma parses_list: "list_all ok xs \<Longrightarrow> parses (br_times (length xs) get) (concat (map wire xs)) xs"
  using parses_times[of xs get wire id] parses_wire by (simp add: list_all_iff)

end

interpretation uint32: codec bw_writeUInt32LE br_readUInt32LE "le_bytes 4" "\<lambda>n. 0 \<le> n \<and> n < 2 ^ 32"
proof unfold_locales
  fix n :: int assume n: "0 \<le> n \<and> n < 2 ^ 32"
  then show "writes (bw_writeUInt32LE n) (le_bytes 4 n)" by (intro writes_UInt32LE) simp_all
  have "le_val (le_bytes 4 n) = n" using n by (simp add: le_val_le_bytes)
  then show "parses br_readUInt32LE (le_bytes 4 n) n" using parses_readUInt32LE[of "le_bytes 4 n"] by simp
qed

interpretation uint64: codec bw_writeUInt64LEBN br_readUInt64LEBN "le_bytes 8" "\<lambda>n. 0 \<le> n \<and> n < 2 ^ 64"
proof unfold_locales
  fix n :: int assume n: "0 \<le> n \<and> n < 2 ^ 64"
  then show "writes (bw_writeUInt64LEBN n) (le_bytes 8 n)" by (intro writes_UInt64LEBN) simp_all
  have "le_val (le_bytes 8 n) = n" using n by (simp add: le_val_le_bytes)
  then show "parses br_readUInt64LEBN (le_bytes 8 n) n" using parses_readUInt64LEBN[of "le_bytes 8 n"] by simp
qed

subsection \<open>Variable-length integers\<close>

definition varint_wire :: "int \<Rightarrow> bytes" where
  "varint_wire n = (if n < 253 then le_bytes 1 n else if n < 2 ^ 16 then 253 # le_bytes 2 n
     else if n < 2 ^ 32 then 254 # le_bytes 4 n else 255 # le_bytes 8 n)"

abbreviation varint_ok :: "int \<Rightarrow> bool" where
  "varint_ok n \<equiv> 0 \<le> n \<and> n \<le> 2 ^ 53"

lemma length_varint_wire: "1 \<le> length (varint_wire n)" "length (varint_wire n) \<le> 9"
  by (simp_all add: varint_wire_def)

lemma varintBufNum_wire: "0 \<le> n \<Longrightarrow> n < 2 ^ 64 \<Longrightarrow> varintBufNum n = Inr (varint_wire n)"
proof -
  assume n: "0 \<le> n" "n < 2 ^ 64"
  consider "n < 253" | "253 \<le> n" "n < 2 ^ 16" | "2 ^ 16 \<le> n" "n < 2 ^ 32" | "2 ^ 32 \<le> n" by linarith
  then show ?thesis
  proof cases
    case 1 with n show ?thesis by (simp add: varintBufNum_def varint_wire_def writeUInt8_def checkInt_def)
  next
    case 2 with n show ?thesis by (simp add: varintBufNum_def varint_wire_def writeUInt16LE_ok)
  next
    case 3 with n show ?thesis by (simp add: varintBufNum_def varint_wire_def writeUInt32LE_ok)
  next
    case 4
    have "le_bytes 8 n = le_bytes 4 n @ le_bytes 4 (n div 2 ^ 32)" using le_bytes_append[of 4 4 n] by simp
    with 4 n show ?thesis
      by (simp add: varintBufNum_def varint_wire_def writeInt32LE_int32 writeUInt32LE_ok)
  qed
qed

lemma parses_first: "parses (f (uint b)) bs x \<Longrightarrow> parses (bind br_readUInt8 f) (b # bs) x"
  using parses_bind[OF parses_readUInt8[of "[b]"], of f bs x] by simp

lemma bn_toNumber_exact: "\<bar>n\<bar> \<le> 2 ^ 53 \<Longrightarrow> bn_toNumber n = IntN n"
  by (simp add: bn_toNumber_def rnd_int)

lemma parses_varint8:
  "0 \<le> n \<Longrightarrow> n < 253 \<Longrightarrow> parses br_readVarintNum [word_of_int n] n"
  unfolding br_readVarintNum_def by (rule parses_first) (simp add: uint_byte parses_return)

lemma parses_varint16: "parses br_readUInt16LE bs n \<Longrightarrow> parses br_readVarintNum (253 # bs) n"
  unfolding br_readVarintNum_def by (rule parses_first) simp

lemma parses_varint32: "parses br_readUInt32LE bs n \<Longrightarrow> parses br_readVarintNum (254 # bs) n"
  unfolding br_readVarintNum_def by (rule parses_first) simp

lemma parses_varint64:
  assumes "parses br_readUInt64LEBN bs n" and "bn_toNumber n = IntN m" and "of_int m \<le> (2 ^ 53 :: rat)"
  shows "parses br_readVarintNum (255 # bs) m"
proof -
  have "parses (bind br_readUInt64LEBN (\<lambda>bn. case bn_toNumber bn of
         Fin a \<Rightarrow> if a \<le> 2 ^ 53 then return (trunc a)
                  else throw (GenericError ''number too large to retain precision - use readVarintBN'')
       | _ \<Rightarrow> throw (GenericError ''number too large to retain precision - use readVarintBN''))) (bs @ []) m"
    by (rule parses_bind[OF assms(1)], simp only: assms(2) jsnum.case assms(3) if_True trunc_of_int parses_return)
  then show ?thesis unfolding br_readVarintNum_def by (intro parses_first) simp
qed

lemma parses_readVarintNum:
  assumes "varint_ok n" shows "parses br_readVarintNum (varint_wire n) n"
proof -
  have exact: "bn_toNumber n = IntN n" using assms by (intro bn_toNumber_exact) simp
  have n53: "of_int n \<le> (2 ^ 53 :: rat)"
    using assms of_int_le_iff[of n "2 ^ 53", where 'a = rat] by simp
  consider "n < 253" | "253 \<le> n" "n < 2 ^ 16" | "2 ^ 16 \<le> n" "n < 2 ^ 32" | "2 ^ 32 \<le> n" by linarith
  then show ?thesis
  proof cases
    case 1
    with assms parses_varint8[of n] show ?thesis by (simp add: varint_wire_def)
  next
    case 2
    with assms parses_varint16[OF parses_readUInt16LE[of "le_bytes 2 n"]] show ?thesis
      by (simp add: varint_wire_def le_val_le_bytes)
  next
    case 3
    with assms parses_varint32[OF uint32.parses_wire[of n]] show ?thesis
      by (simp add: varint_wire_def)
  next
    case 4
    with assms parses_varint64[OF uint64.parses_wire[of n] exact n53] show ?thesis
      by (simp add: varint_wire_def)
  qed
qed

interpretation varint: codec bw_writeVarintNum br_readVarintNum varint_wire varint_ok
proof unfold_locales
  fix n :: int assume n: "varint_ok n"
  then show "writes (bw_writeVarintNum n) (varint_wire n)"
    unfolding bw_writeVarintNum_def by (intro writes_lift varintBufNum_wire) simp_all
  from n show "parses br_readVarintNum (varint_wire n) n" by (rule parses_readVarintNum)
qed

text \<open>A length-prefixed byte string, as \<^verbatim>\<open>writeVarintNum(b.length).write(b)\<close> writes it.\<close>

definition bw_writeVarLength :: "bytes \<Rightarrow> writer" where
  "bw_writeVarLength b = block [bw_writeVarintNum (int (length b)), bw_write b]"

definition varbuf_wire :: "bytes \<Rightarrow> bytes" where
  "varbuf_wire b = varint_wire (int (length b)) @ b"

lemma parses_checked:
  assumes "parses p bs x" and "c x"
  shows "parses (bind p (\<lambda>x. bind (checkState (c x) msg) (\<lambda>_. return x))) bs x"
proof -
  have "parses (bind p (\<lambda>x. bind (checkState (c x) msg) (\<lambda>_. return x))) (bs @ []) x"
    using assms by (intro parses_bind[of p bs x]) (simp_all add: parses_def bind_def checkState_def return_def)
  then show ?thesis by simp
qed

lemma writes_varbuf: "length b < 2 ^ 31 \<Longrightarrow> writes (bw_writeVarLength b) (varbuf_wire b)"
proof -
  assume "length b < 2 ^ 31"
  then have n: "varint_ok (int (length b))" by simp
  have "writes (bw_writeVarLength b) (varint_wire (int (length b)) @ b @ [])"
    unfolding bw_writeVarLength_def by (intro writes_Cons varint.writes_wire writes_write writes_Nil n)
  then show ?thesis by (simp add: varbuf_wire_def)
qed

lemma parses_varbuf: "length b < 2 ^ 31 \<Longrightarrow> parses br_readVarLengthBuffer (varbuf_wire b) b"
proof -
  assume "length b < 2 ^ 31"
  then have n: "varint_ok (int (length b))" by simp
  show ?thesis unfolding br_readVarLengthBuffer_def varbuf_wire_def
    by (rule parses_bind[OF parses_readVarintNum[OF n]], rule parses_checked[OF parses_read], rule refl)
qed

interpretation varbuf: codec bw_writeVarLength br_readVarLengthBuffer varbuf_wire "\<lambda>b. length b < 2 ^ 31"
  by unfold_locales (fact writes_varbuf, fact parses_varbuf)

text \<open>The first integer that a Number cannot hold.\<close>

lemma bn_toNumber_rounds: "bn_toNumber (2 ^ 53 + 1) = Fin (2 ^ 53)"
proof -
  let ?x = "2 ^ 53 + 1 :: rat"
  have "ilog2 ?x = 53" by (rule ilog2_unique) (simp_all add: power_int_def)
  then have q: "quantum ?x = 2" by (simp add: quantum_def)
  have f: "\<lfloor>?x / 2\<rfloor> = 2 ^ 52" by (rule floor_unique) simp_all
  have "rne (?x / 2) = 2 ^ 52" unfolding rne_def f by simp
  then have "rndr ?x = 2 ^ 53" unfolding rndr_def q by simp
  moreover have "(9007199254740992 :: rat) < 2 ^ 1024" "- (2 ^ 1024) < (9007199254740992 :: rat)" by simp_all
  ultimately show ?thesis unfolding bn_toNumber_def rnd_rndr by simp
qed

section \<open>Properties\<close>

text \<open>
  C32: a variable-length integer up to the largest exactly representable one is written
  without error, and reading it back gives the number and leaves the reader right behind it,
  whatever bytes follow.
\<close>

theorem varint_roundtrip:
  assumes "0 \<le> n" "n \<le> 2 ^ 53" "length post < 2 ^ 30"
  shows "\<exists>b. Varint_fromNumber n = Inr b \<and>
    br_readVarintNum (BufferReader (b @ post)) = (Inr n, \<lparr> br_buf = b @ post, br_pos = int (length b) \<rparr>)"
proof -
  have "Varint_fromNumber n = Inr (varint_wire n)"
    unfolding Varint_fromNumber_def using assms by (intro varint.put_wire) simp
  moreover have "length (varint_wire n) + length post < 2 ^ 31" using length_varint_wire(2)[of n] assms(3) by simp
  ultimately show ?thesis using varint.get_wire[of n post] assms(1,2) by blast
qed

theorem varint_roundtrip_witness:
  "\<exists>b. Varint_fromNumber 70000 = Inr b \<and>
    br_readVarintNum (BufferReader (b @ [7, 8])) = (Inr 70000, \<lparr> br_buf = b @ [7, 8], br_pos = int (length b) \<rparr>)"
  by (rule varint_roundtrip) simp_all


end
