(* ===== verification/Scripts.thy ===== *)
theory Scripts
  imports Buffers "HOL-Library.List_Lexorder" "HOL-Library.Char_ord"
begin

unbundle bit_operations_syntax

text \<open>
  The \<^verbatim>\<open>Script\<close> and \<^verbatim>\<open>Opcode\<close> classes of \<^verbatim>\<open>bitcore.js\<close> and the signature encodings they use: a script is
  its list of chunks, \<^verbatim>\<open>fromBuffer\<close> and \<^verbatim>\<open>toBuffer\<close> translate it to and from bytes, the classifiers
  recognise the standard forms and the builders produce them. The elliptic-curve and hash code
  is a parameter, the record \<open>crypto\<close>.
\<close>

section \<open>Cryptographic primitives\<close>

text \<open>
  The functions the modelled code calls in \<^verbatim>\<open>crypto/hash\<close>, \<^verbatim>\<open>crypto/ecdsa\<close> and \<^verbatim>\<open>publickey\<close>. Keys and
  signatures are the byte strings of their canonical encodings (\<^verbatim>\<open>toBuffer\<close>, \<^verbatim>\<open>toDER\<close>);
  \<open>pk_fromBuffer\<close> is the lenient \<^verbatim>\<open>PublicKey.fromBuffer(buf, false)\<close>, undefined where it throws.
\<close>

record crypto =
  sha1 :: "bytes \<Rightarrow> bytes"
  sha256 :: "bytes \<Rightarrow> bytes"
  ripemd160 :: "bytes \<Rightarrow> bytes"
  pk_valid :: "bytes \<Rightarrow> bool"
  pk_fromBuffer :: "bytes \<Rightarrow> bytes option"
  privToPub :: "bytes \<Rightarrow> bytes"
  ecdsa_sign :: "bytes \<Rightarrow> bytes \<Rightarrow> bytes"
  ecdsa_verify :: "bytes \<Rightarrow> bytes \<Rightarrow> bytes \<Rightarrow> bool"

definition sha256sha256 :: "crypto \<Rightarrow> bytes \<Rightarrow> bytes" where
  "sha256sha256 C b = sha256 C (sha256 C b)"

definition sha256ripemd160 :: "crypto \<Rightarrow> bytes \<Rightarrow> bytes" where
  "sha256ripemd160 C b = ripemd160 C (sha256 C b)"

section \<open>Opcodes\<close>

abbreviation (input) OP_0 :: int where "OP_0 \<equiv> 0"
abbreviation (input) OP_PUSHDATA1 :: int where "OP_PUSHDATA1 \<equiv> 76"
abbreviation (input) OP_PUSHDATA2 :: int where "OP_PUSHDATA2 \<equiv> 77"
abbreviation (input) OP_PUSHDATA4 :: int where "OP_PUSHDATA4 \<equiv> 78"
abbreviation (input) OP_1NEGATE :: int where "OP_1NEGATE \<equiv> 79"
abbreviation (input) OP_1 :: int where "OP_1 \<equiv> 81"
abbreviation (input) OP_16 :: int where "OP_16 \<equiv> 96"
abbreviation (input) OP_RETURN :: int where "OP_RETURN \<equiv> 106"
abbreviation (input) OP_DUP :: int where "OP_DUP \<equiv> 118"
abbreviation (input) OP_EQUAL :: int where "OP_EQUAL \<equiv> 135"
abbreviation (input) OP_EQUALVERIFY :: int where "OP_EQUALVERIFY \<equiv> 136"
abbreviation (input) OP_HASH160 :: int where "OP_HASH160 \<equiv> 169"
abbreviation (input) OP_CODESEPARATOR :: int where "OP_CODESEPARATOR \<equiv> 171"
abbreviation (input) OP_CHECKSIG :: int where "OP_CHECKSIG \<equiv> 172"
abbreviation (input) OP_CHECKMULTISIG :: int where "OP_CHECKMULTISIG \<equiv> 174"

definition smallInt :: "int \<Rightarrow> exn + int" where
  "smallInt n =
    (if 0 \<le> n \<and> n \<le> 16 then Inr (if n = 0 then OP_0 else OP_1 + n - 1)
     else Inl (InvalidArgument ''Invalid Argument: n must be between 0 and 16''))"

definition isSmallIntOp :: "int \<Rightarrow> bool" where
  "isSmallIntOp opcode \<longleftrightarrow> opcode = OP_0 \<or> (opcode \<ge> OP_1 \<and> opcode \<le> OP_16)"

section \<open>Chunks and their bytes\<close>

text \<open>An opcode alone has neither \<^verbatim>\<open>buf\<close> nor \<^verbatim>\<open>len\<close>; its \<open>len\<close> field is 0 here and never read.\<close>

record chunk =
  opcodenum :: int
  buf :: "bytes option"
  len :: int

type_synonym script = "chunk list"

abbreviation op_chunk :: "int \<Rightarrow> chunk" where
  "op_chunk n \<equiv> \<lparr> opcodenum = n, buf = None, len = 0 \<rparr>"

abbreviation data_chunk :: "int \<Rightarrow> bytes \<Rightarrow> int \<Rightarrow> chunk" where
  "data_chunk n b l \<equiv> \<lparr> opcodenum = n, buf = Some b, len = l \<rparr>"

definition read_push :: "int \<Rightarrow> int \<Rightarrow> (BufferReader, chunk) action" where
  "read_push n l = bind (br_read l) (\<lambda>b. return (data_chunk n b l))"

definition read_chunk :: "(BufferReader, chunk) action" where
  "read_chunk = bind br_readUInt8 (\<lambda>n.
     if n > 0 \<and> n < OP_PUSHDATA1 then read_push n n
     else if n = OP_PUSHDATA1 then bind br_readUInt8 (read_push n)
     else if n = OP_PUSHDATA2 then bind br_readUInt16LE (read_push n)
     else if n = OP_PUSHDATA4 then bind br_readUInt32LE (read_push n)
     else return (op_chunk n))"

lemma br_num_ok:
  "br_num rd n r = (Inr v, r') \<Longrightarrow> rd (br_buf r) (br_pos r) = Inr v \<and> r' = r\<lparr> br_pos := br_pos r + n \<rparr>"
  by (auto simp: br_num_def br_advance_def action_defs split: sum.splits)

lemma rd_nonneg:
  "readUInt8 b p = Inr v \<Longrightarrow> 0 \<le> v" "readUInt16LE b p = Inr v \<Longrightarrow> 0 \<le> v"
  "readUInt32LE b p = Inr v \<Longrightarrow> 0 \<le> v"
  by (auto simp: readUInt8_def readUInt16LE_def readUInt32LE_def or_bytes3 or_shift split: sum.splits)

lemma br_num_advance:
  "br_readUInt8 r = (Inr v, r') \<Longrightarrow> 0 \<le> v \<and> r' = r\<lparr> br_pos := br_pos r + 1 \<rparr>"
  "br_readUInt16LE r = (Inr v, r') \<Longrightarrow> 0 \<le> v \<and> r' = r\<lparr> br_pos := br_pos r + 2 \<rparr>"
  "br_readUInt32LE r = (Inr v, r') \<Longrightarrow> 0 \<le> v \<and> r' = r\<lparr> br_pos := br_pos r + 4 \<rparr>"
  by (auto simp: br_readUInt8_def br_readUInt16LE_def br_readUInt32LE_def dest!: br_num_ok dest: rd_nonneg)

lemma read_push_run: "read_push n l r
    = (Inr (data_chunk n (buf_slice (br_buf r) (br_pos r) (br_pos r + l)) l), r\<lparr> br_pos := br_pos r + l \<rparr>)"
  by (simp add: read_push_def br_read_def br_advance_def action_defs)

lemma bind_InrE:
  assumes "bind m f s = (Inr y, s'')"
  obtains x s' where "m s = (Inr x, s')" and "f x s' = (Inr y, s'')"
  using assms by (auto simp: bind_def split: prod.splits sum.splits)

lemma read_chunk_advance:
  assumes "read_chunk r = (Inr c, r')"
  shows "br_buf r' = br_buf r \<and> br_pos r < br_pos r'"
  using assms unfolding read_chunk_def
  by (elim bind_InrE, auto split: if_splits elim!: bind_InrE
      simp: read_push_run return_def dest!: br_num_advance)

function Script_chunks :: "BufferReader \<Rightarrow> exn + script" where
  "Script_chunks r =
    (if br_finished r then Inr []
     else case read_chunk r of
       (Inl e, _) \<Rightarrow> Inl (if e = RangeError then InvalidBuffer else e)
     | (Inr c, r') \<Rightarrow> (case Script_chunks r' of Inl e \<Rightarrow> Inl e | Inr cs \<Rightarrow> Inr (c # cs)))"
  by pat_completeness auto

termination
proof (relation "measure (\<lambda>r. nat (int (length (br_buf r)) - br_pos r))")
  fix r x c r'
  assume "\<not> br_finished r" and "(x, r') = read_chunk r" and "x = Inr c"
  then show "(r', r) \<in> measure (\<lambda>r. nat (int (length (br_buf r)) - br_pos r))"
    using read_chunk_advance[of r c r'] by (simp add: br_finished_def)
qed simp

declare Script_chunks.simps [simp del]

definition Script_fromBuffer :: "bytes \<Rightarrow> exn + script" where
  "Script_fromBuffer b = Script_chunks (BufferReader b)"

definition write_chunk :: "chunk \<Rightarrow> writer" where
  "write_chunk c = block
    (bw_writeUInt8 (opcodenum c) #
     (case buf c of
        None \<Rightarrow> []
      | Some b \<Rightarrow>
          if opcodenum c < OP_PUSHDATA1 then [bw_write b]
          else if opcodenum c = OP_PUSHDATA1 then [bw_writeUInt8 (len c), bw_write b]
          else if opcodenum c = OP_PUSHDATA2 then [bw_writeUInt16LE (len c), bw_write b]
          else if opcodenum c = OP_PUSHDATA4 then [bw_writeUInt32LE (len c), bw_write b]
          else []))"

definition Script_toBuffer :: "script \<Rightarrow> exn + bytes" where
  "Script_toBuffer s = bw_concat (block (map write_chunk s))"

definition chunk_size :: "chunk \<Rightarrow> nat" where
  "chunk_size c = (case buf c of None \<Rightarrow> 0 | Some b \<Rightarrow> length b)"

lemma buf_slice_shorter:
  assumes "0 < i" and "i \<le> int (length b)"
  shows "length (buf_slice b i j) < length b"
proof (cases "int (length b) < 2 ^ 31")
  case True
  then have "int32 i = i" using assms by (intro int32_small) simp_all
  then show ?thesis using assms unfolding buf_slice_def Let_def by (auto simp: min_def)
next
  case False
  then have "int32 j < int (length b)" using int32_range(2)[of j] by linarith
  moreover have "b \<noteq> []" using assms by auto
  ultimately show ?thesis unfolding buf_slice_def Let_def by (auto simp: min_def)
qed

section \<open>Classification\<close>

datatype script_type = UNKNOWN | PUBKEY_OUT | PUBKEY_IN | PUBKEYHASH_OUT | PUBKEYHASH_IN
  | SCRIPTHASH_OUT | SCRIPTHASH_IN | MULTISIG_OUT | MULTISIG_IN | DATA_OUT

definition buf_len_is :: "chunk \<Rightarrow> nat \<Rightarrow> bool" where
  "buf_len_is c n = (case buf c of None \<Rightarrow> False | Some b \<Rightarrow> length b = n)"

definition isPublicKeyHashOut :: "script \<Rightarrow> bool" where
  "isPublicKeyHashOut s \<longleftrightarrow> length s = 5 \<and> opcodenum (s ! 0) = OP_DUP \<and> opcodenum (s ! 1) = OP_HASH160
     \<and> buf_len_is (s ! 2) 20 \<and> opcodenum (s ! 3) = OP_EQUALVERIFY \<and> opcodenum (s ! 4) = OP_CHECKSIG"

text \<open>\<^verbatim>\<open>PublicKey.isValid\<close> answers false on \<^verbatim>\<open>undefined\<close>.\<close>

definition pk_isValid :: "crypto \<Rightarrow> bytes option \<Rightarrow> bool" where
  "pk_isValid C b = (case b of None \<Rightarrow> False | Some b \<Rightarrow> pk_valid C b)"

definition isPublicKeyHashIn :: "crypto \<Rightarrow> script \<Rightarrow> bool" where
  "isPublicKeyHashIn C s \<longleftrightarrow> length s = 2 \<and>
     (case buf (s ! 0) of None \<Rightarrow> False | Some b \<Rightarrow> 0x47 \<le> length b \<and> length b \<le> 0x49) \<and>
     pk_isValid C (buf (s ! 1))"

definition isPublicKeyOut :: "crypto \<Rightarrow> script \<Rightarrow> bool" where
  "isPublicKeyOut C s \<longleftrightarrow> length s = 2 \<and> buf (s ! 0) \<noteq> None \<and> pk_isValid C (buf (s ! 0))
     \<and> opcodenum (s ! 1) = OP_CHECKSIG"

definition isPublicKeyIn :: "script \<Rightarrow> bool" where
  "isPublicKeyIn s \<longleftrightarrow> length s = 1 \<and> buf_len_is (s ! 0) 0x47"

definition isScriptHashOut :: "script \<Rightarrow> exn + bool" where
  "isScriptHashOut s = map_sum id (\<lambda>b.
     length b = 23 \<and> uint (b ! 0) = OP_HASH160 \<and> b ! 1 = 0x14 \<and> uint (b ! (length b - 1)) = OP_EQUAL)
     (Script_toBuffer s)"

definition isMultisigOut :: "script \<Rightarrow> bool" where
  "isMultisigOut s \<longleftrightarrow> length s > 3 \<and> isSmallIntOp (opcodenum (s ! 0))
     \<and> list_all (\<lambda>c. buf c \<noteq> None) (take (length s - 3) (drop 1 s))
     \<and> isSmallIntOp (opcodenum (s ! (length s - 2))) \<and> opcodenum (s ! (length s - 1)) = OP_CHECKMULTISIG"

definition isMultisigIn :: "script \<Rightarrow> bool" where
  "isMultisigIn s \<longleftrightarrow> length s \<ge> 2 \<and> opcodenum (s ! 0) = 0 \<and> list_all (\<lambda>c. buf_len_is c 0x47) (drop 1 s)"

text \<open>
  The last conjunct of the source compares \<^verbatim>\<open>chunks[1].length\<close> with \<^verbatim>\<open>chunks.len\<close>, two properties that
  do not exist; it is true.
\<close>

definition isDataOut :: "script \<Rightarrow> bool" where
  "isDataOut s \<longleftrightarrow> length s \<ge> 1 \<and> opcodenum (s ! 0) = OP_RETURN \<and>
     (length s = 1 \<or> (length s = 2 \<and>
        (case buf (s ! 1) of None \<Rightarrow> False | Some b \<Rightarrow> length b \<le> 80)))"

definition isPushOnly :: "script \<Rightarrow> bool" where
  "isPushOnly s = list_all (\<lambda>c. opcodenum c \<le> OP_16) s"

text \<open>The redeem script \<^verbatim>\<open>isScriptHashIn\<close> parses; \<open>None\<close> where it returns false before classifying.\<close>

definition redeem_script :: "script \<Rightarrow> exn + script option" where
  "redeem_script s =
    (if s = [] then Inr None
     else case buf (last s) of None \<Rightarrow> Inr None
     | Some b \<Rightarrow> (case Script_fromBuffer b of
           Inl e \<Rightarrow> if e = InvalidBuffer then Inr None else Inl e
         | Inr r \<Rightarrow> Inr (Some r)))"

definition data_or_unknown :: "script \<Rightarrow> script_type" where
  "data_or_unknown s = (if isDataOut s then DATA_OUT else UNKNOWN)"

definition last_size :: "script \<Rightarrow> nat" where
  "last_size s = (if s = [] then 0 else Suc (chunk_size (last s)))"

lemma br_num_bound:
  "br_readUInt8 r = (Inr v, r') \<Longrightarrow> 0 < br_pos r' \<and> br_pos r' \<le> int (length (br_buf r'))"
  "br_readUInt16LE r = (Inr v, r') \<Longrightarrow> 0 < br_pos r' \<and> br_pos r' \<le> int (length (br_buf r'))"
  "br_readUInt32LE r = (Inr v, r') \<Longrightarrow> 0 < br_pos r' \<and> br_pos r' \<le> int (length (br_buf r'))"
  by (auto simp: br_readUInt8_def br_readUInt16LE_def br_readUInt32LE_def readUInt8_def readUInt16LE_def
      readUInt32LE_def checkOffset_def dest!: br_num_ok split: if_splits)

lemma read_push_size:
  assumes "read_push n l r = (Inr c, r')" and "0 < br_pos r \<and> br_pos r \<le> int (length (br_buf r))"
  shows "chunk_size c < length (br_buf r)"
  using assms by (auto simp: read_push_run chunk_size_def intro: buf_slice_shorter)

lemma read_chunk_size:
  assumes "read_chunk r = (Inr c, r')" shows "chunk_size c < length (br_buf r)"
proof -
  from assms obtain n r1 where n: "br_readUInt8 r = (Inr n, r1)"
    and rest: "(if n > 0 \<and> n < OP_PUSHDATA1 then read_push n n
     else if n = OP_PUSHDATA1 then bind br_readUInt8 (read_push n)
     else if n = OP_PUSHDATA2 then bind br_readUInt16LE (read_push n)
     else if n = OP_PUSHDATA4 then bind br_readUInt32LE (read_push n)
     else return (op_chunk n)) r1 = (Inr c, r')"
    unfolding read_chunk_def by (elim bind_InrE) auto
  have r1: "br_buf r1 = br_buf r" "0 < br_pos r1 \<and> br_pos r1 \<le> int (length (br_buf r1))"
    using br_num_advance(1)[OF n] br_num_bound(1)[OF n] by auto
  then have "0 < length (br_buf r)" by auto
  then show ?thesis using rest r1
    by (auto split: if_splits elim!: bind_InrE simp: return_def chunk_size_def[of "op_chunk _"]
        dest: read_push_size br_num_bound br_num_advance)
       (metis br_num_advance br_num_bound read_push_size BufferReader.select_convs(1)
          BufferReader.surjective BufferReader.update_convs(2))+
qed

lemma Script_chunks_size:
  "Script_chunks r = Inr s \<Longrightarrow> c \<in> set s \<Longrightarrow> chunk_size c < length (br_buf r)"
proof (induction r arbitrary: s rule: Script_chunks.induct)
  case (1 r)
  show ?case
  proof (cases "br_finished r")
    case True with 1(2,3) show ?thesis by (simp add: Script_chunks.simps)
  next
    case False
    with 1(2,3) obtain d r' cs where step: "read_chunk r = (Inr d, r')" and cs: "Script_chunks r' = Inr cs" "s = d # cs"
      by (subst (asm) Script_chunks.simps) (auto split: prod.splits sum.splits)
    then show ?thesis
      using 1(1)[OF False step[symmetric] refl cs(1)] read_chunk_size[OF step] read_chunk_advance[OF step] 1(3)
      by auto
  qed
qed

lemma redeem_script_smaller:
  assumes "redeem_script s = Inr (Some r)" shows "last_size r < last_size s"
proof -
  from assms obtain b where "s \<noteq> []" "buf (last s) = Some b" "Script_fromBuffer b = Inr r"
    by (auto simp: redeem_script_def split: if_splits option.splits sum.splits)
  then show ?thesis using Script_chunks_size[of "BufferReader b" r "last r"]
    by (simp add: Script_fromBuffer_def BufferReader_def last_size_def chunk_size_def)
qed

function classify :: "crypto \<Rightarrow> script \<Rightarrow> exn + script_type" where
  "classify C s =
    (if isPublicKeyOut C s then Inr PUBKEY_OUT
     else if isPublicKeyIn s then Inr PUBKEY_IN
     else if isPublicKeyHashOut s then Inr PUBKEYHASH_OUT
     else if isPublicKeyHashIn C s then Inr PUBKEYHASH_IN
     else if isMultisigOut s then Inr MULTISIG_OUT
     else if isMultisigIn s then Inr MULTISIG_IN
     else case isScriptHashOut s of Inl e \<Rightarrow> Inl e
     | Inr p2sh \<Rightarrow>
        if p2sh then Inr SCRIPTHASH_OUT
        else case redeem_script s of Inl e \<Rightarrow> Inl e
        | Inr None \<Rightarrow> Inr (data_or_unknown s)
        | Inr (Some r) \<Rightarrow> (case classify C r of Inl e \<Rightarrow> Inl e
            | Inr t \<Rightarrow> Inr (if t \<noteq> UNKNOWN then SCRIPTHASH_IN else data_or_unknown s)))"
  by pat_completeness auto

termination
  by (relation "measure (\<lambda>(C, s). last_size s)") (auto intro: redeem_script_smaller)

declare classify.simps [simp del]

definition isScriptHashIn :: "crypto \<Rightarrow> script \<Rightarrow> exn + bool" where
  "isScriptHashIn C s = (case redeem_script s of Inl e \<Rightarrow> Inl e | Inr None \<Rightarrow> Inr False
     | Inr (Some r) \<Rightarrow> map_sum id (\<lambda>t. t \<noteq> UNKNOWN) (classify C r))"

definition isStandard :: "crypto \<Rightarrow> script \<Rightarrow> exn + bool" where
  "isStandard C s = map_sum id (\<lambda>t. t \<noteq> UNKNOWN) (classify C s)"

definition buf_or_throw :: "script \<Rightarrow> nat \<Rightarrow> exn + bytes" where
  "buf_or_throw s i =
    (if i < length s then
       (case buf (s ! i) of
          None \<Rightarrow> Inl (TypeError ''must start with number, buffer, array or string'')
        | Some b \<Rightarrow> Inr b)
     else Inl (TypeError ''undefined has no properties''))"

definition getData :: "script \<Rightarrow> exn + bytes" where
  "getData s =
    (if isDataOut s then buf_or_throw s 1
     else case isScriptHashOut s of Inl e \<Rightarrow> Inl e
     | Inr p2sh \<Rightarrow> if p2sh then buf_or_throw s 1
         else if isPublicKeyHashOut s then buf_or_throw s 2
         else Inl (GenericError ''Unrecognized script type to get data from''))"

definition getPublicKeyHash :: "script \<Rightarrow> exn + bytes" where
  "getPublicKeyHash s = (if isPublicKeyHashOut s then buf_or_throw s 2
     else Inl (InvalidState (''Can'' @ CHR 0x27 # ''t retrieve PublicKeyHash from a non-PKH output'')))"

section \<open>Addresses\<close>

datatype address_type = PayToPublicKeyHash | PayToScriptHash

record address =
  hashBuffer :: bytes
  addr_type :: address_type

text \<open>\<^verbatim>\<open>getAddressInfo\<close>; \<open>None\<close> is the result \<^verbatim>\<open>false\<close>.\<close>

definition getAddressInfo :: "crypto \<Rightarrow> script \<Rightarrow> exn + address option" where
  "getAddressInfo C s = (case isScriptHashOut s of Inl e \<Rightarrow> Inl e | Inr p2sh \<Rightarrow>
     if p2sh then map_sum id (\<lambda>h. Some \<lparr> hashBuffer = h, addr_type = PayToScriptHash \<rparr>) (getData s)
     else if isPublicKeyHashOut s then
       map_sum id (\<lambda>h. Some \<lparr> hashBuffer = h, addr_type = PayToPublicKeyHash \<rparr>) (getData s)
     else if isPublicKeyHashIn C s then
       map_sum id (\<lambda>b. Some \<lparr> hashBuffer = sha256ripemd160 C b, addr_type = PayToPublicKeyHash \<rparr>)
         (buf_or_throw s 1)
     else case isScriptHashIn C s of Inl e \<Rightarrow> Inl e | Inr h \<Rightarrow>
       if h then map_sum id (\<lambda>b. Some \<lparr> hashBuffer = sha256ripemd160 C b, addr_type = PayToScriptHash \<rparr>)
                   (buf_or_throw s (length s - 1))
       else Inr None)"

section \<open>Construction\<close>

text \<open>\<^verbatim>\<open>_insertAtPosition\<close>, \<^verbatim>\<open>_addOpcode\<close> and \<^verbatim>\<open>_addBuffer\<close>.\<close>

definition insertAtPosition :: "chunk \<Rightarrow> bool \<Rightarrow> script \<Rightarrow> script" where
  "insertAtPosition c prepend s = (if prepend then c # s else s @ [c])"

definition addOpcode :: "int \<Rightarrow> bool \<Rightarrow> script \<Rightarrow> script" where
  "addOpcode n prepend s = insertAtPosition (op_chunk n) prepend s"

definition buffer_chunk :: "bytes \<Rightarrow> exn + chunk" where
  "buffer_chunk b = (let l = int (length b) in
     if l < OP_PUSHDATA1 then Inr (data_chunk l b l)
     else if l < 2 ^ 8 then Inr (data_chunk OP_PUSHDATA1 b l)
     else if l < 2 ^ 16 then Inr (data_chunk OP_PUSHDATA2 b l)
     else if l < 2 ^ 32 then Inr (data_chunk OP_PUSHDATA4 b l)
     else Inl (GenericError (''You can'' @ CHR 0x27 # ''t push that much data'')))"

definition addBuffer :: "bytes \<Rightarrow> bool \<Rightarrow> script \<Rightarrow> exn + script" where
  "addBuffer b prepend s = map_sum id (\<lambda>c. insertAtPosition c prepend s) (buffer_chunk b)"

primrec addBuffers :: "bytes list \<Rightarrow> script \<Rightarrow> exn + script" where
  "addBuffers [] s = Inr s"
| "addBuffers (b # bs) s = (case addBuffer b False s of Inl e \<Rightarrow> Inl e | Inr s \<Rightarrow> addBuffers bs s)"

definition removeCodeseparators :: "script \<Rightarrow> script" where
  "removeCodeseparators s = filter (\<lambda>c. opcodenum c \<noteq> OP_CODESEPARATOR) s"

text \<open>\<^verbatim>\<open>buf.toString('hex')\<close>.\<close>

definition hex_digit :: "int \<Rightarrow> char" where
  "hex_digit n = ''0123456789abcdef'' ! nat n"

definition hex :: "bytes \<Rightarrow> string" where
  "hex b = concat (map (\<lambda>x. [hex_digit (uint x div 16), hex_digit (uint x mod 16)]) b)"

definition buildMultisigOut :: "bytes list \<Rightarrow> int \<Rightarrow> bool \<Rightarrow> exn + script" where
  "buildMultisigOut publicKeys threshold noSorting =
    (if threshold > int (length publicKeys) then
       Inl (InvalidArgument
         ''Number of required signatures must be less than or equal to the number of public keys'')
     else case smallInt threshold of Inl e \<Rightarrow> Inl e | Inr m \<Rightarrow>
       (let sorted = (if noSorting then publicKeys else sort_key hex publicKeys) in
        case addBuffers sorted (addOpcode m False []) of Inl e \<Rightarrow> Inl e | Inr s \<Rightarrow>
        case smallInt (int (length publicKeys)) of Inl e \<Rightarrow> Inl e | Inr n \<Rightarrow>
        Inr (addOpcode OP_CHECKMULTISIG False (addOpcode n False s))))"

definition buildP2SHMultisigIn ::
    "bytes list \<Rightarrow> int \<Rightarrow> bytes list \<Rightarrow> script option \<Rightarrow> bool \<Rightarrow> exn + script" where
  "buildP2SHMultisigIn pubkeys threshold signatures cachedMultisig noSorting =
    (case addBuffers signatures (addOpcode OP_0 False []) of Inl e \<Rightarrow> Inl e | Inr s \<Rightarrow>
     case (case cachedMultisig of Some m \<Rightarrow> Inr m | None \<Rightarrow> buildMultisigOut pubkeys threshold noSorting) of
       Inl e \<Rightarrow> Inl e
     | Inr m \<Rightarrow> (case Script_toBuffer m of Inl e \<Rightarrow> Inl e | Inr b \<Rightarrow> addBuffer b False s))"

definition buildPublicKeyHashOut :: "address \<Rightarrow> exn + script" where
  "buildPublicKeyHashOut a =
    (case addBuffer (hashBuffer a) False (addOpcode OP_HASH160 False (addOpcode OP_DUP False [])) of
       Inl e \<Rightarrow> Inl e
     | Inr s \<Rightarrow> Inr (addOpcode OP_CHECKSIG False (addOpcode OP_EQUALVERIFY False s)))"

definition buildPublicKeyOut :: "bytes \<Rightarrow> exn + script" where
  "buildPublicKeyOut pubkey = map_sum id (addOpcode OP_CHECKSIG False) (addBuffer pubkey False [])"

definition buildDataOut :: "bytes option \<Rightarrow> exn + script" where
  "buildDataOut d = (let s = addOpcode OP_RETURN False [] in
     case d of None \<Rightarrow> Inr s | Some b \<Rightarrow> addBuffer b False s)"

definition p2sh_script :: "bytes \<Rightarrow> exn + script" where
  "p2sh_script h = map_sum id (addOpcode OP_EQUAL False) (addBuffer h False (addOpcode OP_HASH160 False []))"

definition buildScriptHashOut :: "crypto \<Rightarrow> script \<Rightarrow> exn + script" where
  "buildScriptHashOut C s =
    (case Script_toBuffer s of Inl e \<Rightarrow> Inl e | Inr b \<Rightarrow> p2sh_script (sha256ripemd160 C b))"

definition buildScriptHashOut_address :: "address \<Rightarrow> exn + script" where
  "buildScriptHashOut_address a = (if addr_type a = PayToScriptHash then p2sh_script (hashBuffer a)
     else Inl (InvalidArgument []))"

definition buildPublicKeyHashIn :: "bytes \<Rightarrow> bytes \<Rightarrow> int \<Rightarrow> exn + script" where
  "buildPublicKeyHashIn publicKey signature sigtype =
    addBuffers [signature @ [word_of_int (if sigtype = 0 then 1 else sigtype)], publicKey] []"

definition Script_fromAddress :: "address \<Rightarrow> exn + script" where
  "Script_fromAddress a = (case addr_type a of
     PayToScriptHash \<Rightarrow> buildScriptHashOut_address a | PayToPublicKeyHash \<Rightarrow> buildPublicKeyHashOut a)"

text \<open>\<^verbatim>\<open>findAndDelete\<close> splices while it counts up, so the chunk after a deleted one is not looked at.\<close>

fun delete_chunks :: "bytes \<Rightarrow> script \<Rightarrow> exn + script" where
  "delete_chunks b [] = Inr []"
| "delete_chunks b (c # cs) = (case Script_toBuffer [c] of Inl e \<Rightarrow> Inl e | Inr b2 \<Rightarrow>
     if b = b2 then (case cs of [] \<Rightarrow> Inr [] | d # ds \<Rightarrow> map_sum id ((#) d) (delete_chunks b ds))
     else map_sum id ((#) c) (delete_chunks b cs))"

definition findAndDelete :: "script \<Rightarrow> script \<Rightarrow> exn + script" where
  "findAndDelete s target = (case Script_toBuffer target of Inl e \<Rightarrow> Inl e | Inr b \<Rightarrow> delete_chunks b s)"

definition checkMinimalPush :: "script \<Rightarrow> nat \<Rightarrow> exn + bool" where
  "checkMinimalPush s i = (if i \<ge> length s then Inl (TypeError ''undefined has no properties'')
     else let n = opcodenum (s ! i) in case buf (s ! i) of None \<Rightarrow> Inr True
     | Some b \<Rightarrow> Inr (
        if length b = 0 then n = OP_0
        else if length b = 1 \<and> 1 \<le> uint (b ! 0) \<and> uint (b ! 0) \<le> 16 then n = OP_1 + (uint (b ! 0) - 1)
        else if length b = 1 \<and> b ! 0 = 0x81 then n = OP_1NEGATE
        else if length b \<le> 75 then n = int (length b)
        else if length b \<le> 255 then n = OP_PUSHDATA1
        else if length b \<le> 65535 then n = OP_PUSHDATA2
        else True))"

fun equal_chunks :: "script \<Rightarrow> script \<Rightarrow> bool" where
  "equal_chunks (c # cs) (d # ds) \<longleftrightarrow>
    (case buf c of
       Some b \<Rightarrow> buf d \<noteq> None \<and> buf d = Some b \<and> opcodenum c = opcodenum d
     | None \<Rightarrow> opcodenum c = opcodenum d) \<and> equal_chunks cs ds"
| "equal_chunks _ _ \<longleftrightarrow> True"

definition Script_equals :: "script \<Rightarrow> script \<Rightarrow> bool" where
  "Script_equals s t \<longleftrightarrow> length s = length t \<and> equal_chunks s t"

section \<open>Signature encodings\<close>

abbreviation (input) SIGHASH_ALL :: int where "SIGHASH_ALL \<equiv> 1"
abbreviation (input) SIGHASH_NONE :: int where "SIGHASH_NONE \<equiv> 2"
abbreviation (input) SIGHASH_SINGLE :: int where "SIGHASH_SINGLE \<equiv> 3"
abbreviation (input) SIGHASH_ANYONECANPAY :: int where "SIGHASH_ANYONECANPAY \<equiv> 0x80"

text \<open>\<^verbatim>\<open>Signature.isTxDER\<close>; the tests on lengths guard every index that is read.\<close>

definition isTxDER :: "bytes \<Rightarrow> bool" where
  "isTxDER b =
    (if length b < 9 then False
     else if length b > 73 then False
     else if b ! 0 \<noteq> 0x30 then False
     else if unat (b ! 1) \<noteq> length b - 3 then False
     else let nLenR = unat (b ! 3) in
       if 5 + nLenR \<ge> length b then False
       else let nLenS = unat (b ! (5 + nLenR)) in
         if nLenR + nLenS + 7 \<noteq> length b then False
         else let R = drop 4 b in
           if b ! 2 \<noteq> 0x02 then False
           else if nLenR = 0 then False
           else if R ! 0 AND 0x80 \<noteq> 0 then False
           else if nLenR > 1 \<and> R ! 0 = 0 \<and> R ! 1 AND 0x80 = 0 then False
           else let S = drop (6 + nLenR) b in
             if b ! (6 + nLenR - 2) \<noteq> 0x02 then False
             else if nLenS = 0 then False
             else if S ! 0 AND 0x80 \<noteq> 0 then False
             else if nLenS > 1 \<and> S ! 0 = 0 \<and> S ! 1 AND 0x80 = 0 then False
             else True)"

definition hasDefinedHashtype :: "int \<Rightarrow> bool" where
  "hasDefinedHashtype nhashtype =
    (let hashtype = nhashtype AND 0xf in \<not> (hashtype < SIGHASH_ALL \<or> hashtype > SIGHASH_SINGLE))"

definition toTxFormat :: "bytes \<Rightarrow> int \<Rightarrow> exn + bytes" where
  "toTxFormat der nhashtype = map_sum id (\<lambda>b. der @ b) (writeUInt8 nhashtype)"

section \<open>Chunks on the wire\<close>

text \<open>The chunks that \<^verbatim>\<open>fromBuffer\<close> makes of complete pushes and of plain opcodes.\<close>

definition wf_chunk :: "chunk \<Rightarrow> bool" where
  "wf_chunk c \<longleftrightarrow> (case buf c of
     None \<Rightarrow> len c = 0 \<and> (opcodenum c = 0 \<or> 78 < opcodenum c \<and> opcodenum c < 256)
   | Some b \<Rightarrow> len c = int (length b) \<and>
       (0 < opcodenum c \<and> opcodenum c < OP_PUSHDATA1 \<and> opcodenum c = len c
        \<or> opcodenum c = OP_PUSHDATA1 \<and> len c < 2 ^ 8
        \<or> opcodenum c = OP_PUSHDATA2 \<and> len c < 2 ^ 16
        \<or> opcodenum c = OP_PUSHDATA4 \<and> len c < 2 ^ 31))"

definition push_width :: "int \<Rightarrow> nat" where
  "push_width n = (if n = OP_PUSHDATA1 then 1 else if n = OP_PUSHDATA2 then 2 else if n = OP_PUSHDATA4 then 4 else 0)"

definition chunk_wire :: "chunk \<Rightarrow> bytes" where
  "chunk_wire c = word_of_int (opcodenum c) # (case buf c of None \<Rightarrow> []
     | Some b \<Rightarrow> if opcodenum c \<le> OP_PUSHDATA4 then le_bytes (push_width (opcodenum c)) (len c) @ b else [])"

lemma writes_UInt16LE: "0 \<le> n \<Longrightarrow> n < 2 ^ 16 \<Longrightarrow> writes (bw_writeUInt16LE n) (le_bytes 2 n)"
  by (auto simp: bw_writeUInt16LE_def writeUInt16LE_ok intro!: writes_lift)

lemma writes_two: "writes m bs \<Longrightarrow> writes n cs \<Longrightarrow> writes (block [m, n]) (bs @ cs)"
  using writes_Cons[OF _ writes_single] by blast

lemma writes_three: "writes m bs \<Longrightarrow> writes n cs \<Longrightarrow> writes k ds \<Longrightarrow> writes (block [m, n, k]) (bs @ cs @ ds)"
  using writes_Cons[OF _ writes_two] by blast

text \<open>
  A chunk is written whole whenever its opcode and length fit their fields, whether or not its
  data is as long as \<open>len\<close> says.
\<close>

definition fits_chunk :: "chunk \<Rightarrow> bool" where
  "fits_chunk c \<longleftrightarrow> 0 \<le> opcodenum c \<and> opcodenum c < 256 \<and>
     (buf c \<noteq> None \<longrightarrow> 0 \<le> len c \<and> (opcodenum c \<ge> OP_PUSHDATA1 \<longrightarrow> len c < 256 ^ push_width (opcodenum c)))"

lemma writes_chunk: "fits_chunk c \<Longrightarrow> writes (write_chunk c) (chunk_wire c)"
proof -
  assume fits: "fits_chunk c"
  then have op: "writes (bw_writeUInt8 (opcodenum c)) [word_of_int (opcodenum c)]"
    using writes_UInt8[of "opcodenum c"] by (simp add: fits_chunk_def)
  note push = writes_three[OF op _ writes_write, of _ _]
  show ?thesis
  proof (cases "buf c")
    case None
    with writes_single[OF op] show ?thesis by (simp add: write_chunk_def chunk_wire_def)
  next
    case (Some b)
    consider "opcodenum c < 76" | "opcodenum c = 76" | "opcodenum c = 77" | "opcodenum c = 78" | "78 < opcodenum c"
      by linarith
    then show ?thesis
    proof cases
      case 1 with writes_two[OF op writes_write[of b]] Some show ?thesis
        by (simp add: write_chunk_def chunk_wire_def push_width_def)
    next
      case 2 with push[OF writes_UInt8[of "len c"], of b] Some fits show ?thesis
        by (simp add: write_chunk_def chunk_wire_def push_width_def fits_chunk_def)
    next
      case 3 with push[OF writes_UInt16LE[of "len c"], of b] Some fits show ?thesis
        by (simp add: write_chunk_def chunk_wire_def push_width_def fits_chunk_def)
    next
      case 4 with push[OF writes_UInt32LE[of "len c"], of b] Some fits show ?thesis
        by (simp add: write_chunk_def chunk_wire_def push_width_def fits_chunk_def)
    next
      case 5 with writes_single[OF op] Some show ?thesis
        by (simp add: write_chunk_def chunk_wire_def)
    qed
  qed
qed

lemma wf_chunk_fits: "wf_chunk c \<Longrightarrow> fits_chunk c"
  by (auto simp: wf_chunk_def fits_chunk_def push_width_def split: option.splits)

lemma parses_push: "l = int (length b) \<Longrightarrow> parses (read_push n l) b (data_chunk n b l)"
  unfolding read_push_def using parses_bind_return[OF parses_read[of b], of "\<lambda>b. data_chunk n b l"] by simp

lemma parses_op:
  "0 \<le> n \<Longrightarrow> n < 256 \<Longrightarrow> parses (f n) bs x \<Longrightarrow> parses (bind br_readUInt8 f) (word_of_int n # bs) x"
  by (rule parses_first) (simp add: uint_byte)

lemma parses_sized_push:
  assumes "parses rd (le_bytes k l) l" and "l = int (length b)"
  shows "parses (bind rd (read_push n)) (le_bytes k l @ b) (data_chunk n b l)"
  by (rule parses_bind[OF assms(1)], rule parses_push[OF assms(2)])

lemma parses_le_bytes1: "0 \<le> n \<Longrightarrow> n < 2 ^ 8 \<Longrightarrow> parses br_readUInt8 (le_bytes 1 n) n"
  using parses_readUInt8[of "le_bytes 1 n"] by (simp add: uint_byte)

lemma parses_le_bytes2: "0 \<le> n \<Longrightarrow> n < 2 ^ 16 \<Longrightarrow> parses br_readUInt16LE (le_bytes 2 n) n"
  using parses_readUInt16LE[of "le_bytes 2 n"] by (simp add: le_val_le_bytes)

lemma parses_direct_push:
  "0 < n \<Longrightarrow> n < 76 \<Longrightarrow> n = int (length b) \<Longrightarrow> parses read_chunk (word_of_int n # b) (data_chunk n b n)"
  unfolding read_chunk_def by (rule parses_op) (simp_all add: parses_push)

lemma parses_pushdata:
  assumes l: "l = int (length b)"
  shows "l < 2 ^ 8 \<Longrightarrow> parses read_chunk (word_of_int 76 # le_bytes 1 l @ b) (data_chunk 76 b l)"
    and "l < 2 ^ 16 \<Longrightarrow> parses read_chunk (word_of_int 77 # le_bytes 2 l @ b) (data_chunk 77 b l)"
    and "l < 2 ^ 31 \<Longrightarrow> parses read_chunk (word_of_int 78 # le_bytes 4 l @ b) (data_chunk 78 b l)"
  unfolding read_chunk_def
  by (rule parses_op; use parses_sized_push[OF parses_le_bytes1 l] parses_sized_push[OF parses_le_bytes2 l]
        parses_sized_push[OF uint32.parses_wire l] l in simp)+

lemma parses_chunk: "wf_chunk c \<Longrightarrow> parses read_chunk (chunk_wire c) c"
proof -
  assume wf: "wf_chunk c"
  show ?thesis
  proof (cases "buf c")
    case None
    with wf have "c = op_chunk (opcodenum c)" "opcodenum c = 0 \<or> 78 < opcodenum c \<and> opcodenum c < 256"
      by (auto simp: wf_chunk_def)
    with None show ?thesis unfolding chunk_wire_def read_chunk_def
      by (auto intro!: parses_op simp: parses_return)
  next
    case (Some b)
    with wf have c: "c = data_chunk (opcodenum c) b (int (length b))" and l: "len c = int (length b)"
      by (simp_all add: wf_chunk_def)
    consider "0 < opcodenum c" "opcodenum c < 76" "opcodenum c = len c" | "opcodenum c = 76" "len c < 2 ^ 8"
      | "opcodenum c = 77" "len c < 2 ^ 16" | "opcodenum c = 78" "len c < 2 ^ 31"
      using wf Some by (auto simp: wf_chunk_def)
    then show ?thesis
    proof cases
      case 1
      have "chunk_wire c = word_of_int (opcodenum c) # b" using 1 Some by (simp add: chunk_wire_def push_width_def)
      with parses_direct_push[of "opcodenum c" b] 1 c l show ?thesis by simp
    next
      case 2
      have "chunk_wire c = word_of_int 76 # le_bytes 1 (len c) @ b"
        using 2 Some by (simp add: chunk_wire_def push_width_def)
      with parses_pushdata(1)[OF l] 2 c l show ?thesis by simp
    next
      case 3
      have "chunk_wire c = word_of_int 77 # le_bytes 2 (len c) @ b"
        using 3 Some by (simp add: chunk_wire_def push_width_def)
      with parses_pushdata(2)[OF l] 3 c l show ?thesis by simp
    next
      case 4
      have "chunk_wire c = word_of_int 78 # le_bytes 4 (len c) @ b"
        using 4 Some by (simp add: chunk_wire_def push_width_def)
      with parses_pushdata(3)[OF l] 4 c l show ?thesis by simp
    qed
  qed
qed

interpretation chunk: codec write_chunk read_chunk chunk_wire wf_chunk
  by unfold_locales (auto intro: writes_chunk wf_chunk_fits parses_chunk)

section \<open>Scripts on the wire\<close>

lemma Script_chunks_wire:
  assumes "list_all wf_chunk s" and "length pre + length (concat (map chunk_wire s)) < 2 ^ 31"
  shows "Script_chunks \<lparr> br_buf = pre @ concat (map chunk_wire s), br_pos = int (length pre) \<rparr> = Inr s"
  using assms
proof (induction s arbitrary: pre)
  case Nil
  then show ?case by (simp add: Script_chunks.simps br_finished_def)
next
  case (Cons c s)
  let ?b = "pre @ concat (map chunk_wire (c # s))"
  have "read_chunk \<lparr> br_buf = ?b, br_pos = int (length pre) \<rparr>
      = (Inr c, \<lparr> br_buf = ?b, br_pos = int (length pre + length (chunk_wire c)) \<rparr>)"
    using chunk.parses_wire[of c] Cons.prems unfolding parses_def by simp
  moreover have "Script_chunks \<lparr> br_buf = ?b, br_pos = int (length pre + length (chunk_wire c)) \<rparr> = Inr s"
    using Cons.IH[of "pre @ chunk_wire c"] Cons.prems by simp
  moreover have "\<not> br_finished \<lparr> br_buf = ?b, br_pos = int (length pre) \<rparr>"
    by (auto simp: br_finished_def chunk_wire_def)
  ultimately show ?case by (subst Script_chunks.simps) simp
qed

lemma fits_toBuffer: "list_all fits_chunk s \<Longrightarrow> Script_toBuffer s = Inr (concat (map chunk_wire s))"
proof -
  assume "list_all fits_chunk s"
  then have "writes (block (map write_chunk s)) (concat (map chunk_wire s))"
  proof (induction s)
    case (Cons c s)
    then show ?case using writes_Cons[OF writes_chunk, of c "map write_chunk s"] by simp
  qed (simp add: writes_Nil)
  then show ?thesis unfolding Script_toBuffer_def by (rule writesD)
qed

lemma wf_toBuffer: "list_all wf_chunk s \<Longrightarrow> Script_toBuffer s = Inr (concat (map chunk_wire s))"
  by (rule fits_toBuffer) (auto simp: list_all_iff wf_chunk_fits)

lemma wf_fromBuffer:
  "list_all wf_chunk s \<Longrightarrow> length (concat (map chunk_wire s)) < 2 ^ 31 \<Longrightarrow>
   Script_fromBuffer (concat (map chunk_wire s)) = Inr s"
  using Script_chunks_wire[of s "[]"] by (simp add: Script_fromBuffer_def BufferReader_def)

subsection \<open>Parsing loses nothing\<close>

lemma buf_slice_read:
  assumes "0 \<le> i" "i \<le> int (length b)" "0 \<le> l" "int (length b) < 2 ^ 30" "l < 2 ^ 30"
  shows "buf_slice b i (i + l) = take (nat l) (drop (nat i) b)"
proof -
  have "int32 i = i" "int32 (i + l) = i + l" using assms by (intro int32_small; simp)+
  moreover have "take (nat (int (length b) - i)) (drop (nat i) b) = drop (nat i) b"
    using assms by (simp add: nat_diff_distrib)
  moreover have "i + l > int (length b) \<Longrightarrow> take (nat l) (drop (nat i) b) = drop (nat i) b"
    using assms by (simp add: nat_le_iff)
  ultimately show ?thesis using assms unfolding buf_slice_def Let_def by (cases "i + l > int (length b)") simp_all
qed

lemma readUInt8_bytes:
  assumes "readUInt8 b p = Inr v"
  shows "0 \<le> p \<and> p + 1 \<le> int (length b) \<and> v < 256 \<and> drop (nat p) b = le_bytes 1 v @ drop (nat (p + 1)) b"
proof -
  have p: "0 \<le> p" "p + 1 \<le> int (length b)" and v: "v = byte_at b p"
    using assms by (auto simp: readUInt8_def checkOffset_def split: if_splits)
  then have "drop (nat p) b = b ! nat p # drop (nat (p + 1)) b"
    using Cons_nth_drop_Suc[of "nat p" b] by (simp add: nat_add_distrib)
  then show ?thesis using p v by simp
qed

lemma le_val_take: "le_val bs = v \<Longrightarrow> length bs = k \<Longrightarrow> bs = le_bytes k v"
  using le_bytes_le_val[of bs k] by simp

lemma readUInt16LE_bytes:
  assumes "readUInt16LE b p = Inr v"
  shows "0 \<le> p \<and> p + 2 \<le> int (length b) \<and> v < 2 ^ 16 \<and> drop (nat p) b = le_bytes 2 v @ drop (nat (p + 2)) b"
proof -
  let ?w = "[b ! nat p, b ! nat (p + 1)]"
  have p: "0 \<le> p" "p + 2 \<le> int (length b)" and v: "v = le_val ?w"
    using assms by (auto simp: readUInt16LE_def checkOffset_def or_shift split: if_splits)
  then have "drop (nat p) b = ?w @ drop (nat (p + 2)) b"
    by (simp add: nat_add_distrib Cons_nth_drop_Suc numeral_2_eq_2)
  moreover have "v < 2 ^ 16" using le_val_bounds(2)[of ?w] v by simp
  moreover have "?w = le_bytes 2 v" using v by (intro le_val_take) simp_all
  ultimately show ?thesis using p by simp
qed

lemma readUInt32LE_bytes:
  assumes "readUInt32LE b p = Inr v"
  shows "0 \<le> p \<and> p + 4 \<le> int (length b) \<and> drop (nat p) b = le_bytes 4 v @ drop (nat (p + 4)) b"
proof -
  let ?w = "[b ! nat p, b ! nat (p + 1), b ! nat (p + 2), b ! nat (p + 3)]"
  have p: "0 \<le> p" "p + 4 \<le> int (length b)" and v: "v = le_val ?w"
    using assms by (auto simp: readUInt32LE_def checkOffset_def or_bytes3 split: if_splits)
  then have "drop (nat p) b = ?w @ drop (nat (p + 4)) b"
    by (simp add: nat_add_distrib Cons_nth_drop_Suc numeral_eq_Suc)
  moreover have "?w = le_bytes 4 v" using v by (intro le_val_take) simp_all
  ultimately show ?thesis using p by simp
qed

lemma read_push_bytes:
  assumes "read_push n l r = (Inr c, r')" and "0 \<le> br_pos r" "br_pos r \<le> int (length (br_buf r))"
    and "0 \<le> l" "int (length (br_buf r)) < 2 ^ 30" "l < 2 ^ 30"
  shows "\<exists>d. c = data_chunk n d l \<and> r' = r\<lparr> br_pos := br_pos r + l \<rparr> \<and>
    drop (nat (br_pos r)) (br_buf r) = d @ drop (nat (br_pos r')) (br_buf r')"
  using assms buf_slice_read[of "br_pos r" "br_buf r" l] append_take_drop_id[of "nat l" "drop (nat (br_pos r)) (br_buf r)"]
  by (auto simp: read_push_run nat_add_distrib add.commute)

lemma read_sized_push_bytes:
  assumes "bind (br_num rd (int k)) (read_push n) r = (Inr c, r')"
    and rd: "\<And>v. rd (br_buf r) (br_pos r) = Inr v \<Longrightarrow> 0 \<le> v \<and> 0 \<le> br_pos r \<and> br_pos r + int k \<le> int (length (br_buf r))
        \<and> drop (nat (br_pos r)) (br_buf r) = le_bytes k v @ drop (nat (br_pos r + int k)) (br_buf r)"
    and small: "int (length (br_buf r)) < 2 ^ 30" "len c < 2 ^ 30"
  shows "\<exists>d l. c = data_chunk n d l \<and> rd (br_buf r) (br_pos r) = Inr l \<and> br_pos r < br_pos r' + 1 \<and>
    drop (nat (br_pos r)) (br_buf r) = le_bytes k l @ d @ drop (nat (br_pos r')) (br_buf r')"
proof -
  from assms(1) obtain l r1 where l: "br_num rd (int k) r = (Inr l, r1)" and c: "read_push n l r1 = (Inr c, r')"
    by (elim bind_InrE)
  from br_num_ok[OF l] have v: "rd (br_buf r) (br_pos r) = Inr l" and r1: "r1 = r\<lparr> br_pos := br_pos r + int k \<rparr>" by auto
  moreover have "len c = l" using c by (auto simp: read_push_run)
  ultimately show ?thesis
    using rd[OF v] read_push_bytes[OF c] small by auto
qed

lemma read_chunk_bytes:
  assumes run: "read_chunk r = (Inr c, r')" and small: "int (length (br_buf r)) < 2 ^ 30" "len c < 2 ^ 30"
  shows "fits_chunk c \<and> drop (nat (br_pos r)) (br_buf r) = chunk_wire c @ drop (nat (br_pos r')) (br_buf r')"
proof -
  from run obtain n r1 where n: "br_readUInt8 r = (Inr n, r1)"
    and rest: "(if n > 0 \<and> n < OP_PUSHDATA1 then read_push n n
     else if n = OP_PUSHDATA1 then bind br_readUInt8 (read_push n)
     else if n = OP_PUSHDATA2 then bind br_readUInt16LE (read_push n)
     else if n = OP_PUSHDATA4 then bind br_readUInt32LE (read_push n)
     else return (op_chunk n)) r1 = (Inr c, r')"
    unfolding read_chunk_def by (elim bind_InrE) auto
  from br_num_ok[OF n[unfolded br_readUInt8_def]]
  have n8: "readUInt8 (br_buf r) (br_pos r) = Inr n" and r1: "r1 = r\<lparr> br_pos := br_pos r + 1 \<rparr>" by auto
  note b = readUInt8_bytes[OF n8] rd_nonneg(1)[OF n8]
  consider "0 < n" "n < 76" | "n = 76" | "n = 77" | "n = 78" | "n = 0 \<or> 78 < n" using b(2) by linarith
  then show ?thesis
  proof cases
    case 1
    then have "read_push n n r1 = (Inr c, r')" using rest by simp
    from read_push_bytes[OF this] obtain d where "c = data_chunk n d n"
      "drop (nat (br_pos r + 1)) (br_buf r) = d @ drop (nat (br_pos r')) (br_buf r')"
      using b 1 small r1 by auto
    then show ?thesis using b 1 by (simp add: fits_chunk_def chunk_wire_def push_width_def)
  next
    case 2
    then have "bind (br_num readUInt8 (int 1)) (read_push 76) r1 = (Inr c, r')" using rest by (simp add: br_readUInt8_def)
    from read_sized_push_bytes[OF this] obtain d l where "c = data_chunk 76 d l" "l < 256" "0 \<le> l"
      "drop (nat (br_pos r1)) (br_buf r1) = le_bytes 1 l @ d @ drop (nat (br_pos r')) (br_buf r')"
      using small r1 readUInt8_bytes rd_nonneg(1) by fastforce
    then show ?thesis using b 2 r1 by (simp add: fits_chunk_def chunk_wire_def push_width_def)
  next
    case 3
    then have "bind (br_num readUInt16LE (int 2)) (read_push 77) r1 = (Inr c, r')" using rest by (simp add: br_readUInt16LE_def)
    from read_sized_push_bytes[OF this] obtain d l where "c = data_chunk 77 d l" "l < 2 ^ 16" "0 \<le> l"
      "drop (nat (br_pos r1)) (br_buf r1) = le_bytes 2 l @ d @ drop (nat (br_pos r')) (br_buf r')"
      using small r1 readUInt16LE_bytes rd_nonneg(2) by fastforce
    then show ?thesis using b 3 r1 by (simp add: fits_chunk_def chunk_wire_def push_width_def)
  next
    case 4
    then have "bind (br_num readUInt32LE (int 4)) (read_push 78) r1 = (Inr c, r')" using rest by (simp add: br_readUInt32LE_def)
    from read_sized_push_bytes[OF this] obtain d l where "c = data_chunk 78 d l" "0 \<le> l"
      "drop (nat (br_pos r1)) (br_buf r1) = le_bytes 4 l @ d @ drop (nat (br_pos r')) (br_buf r')"
      using small r1 readUInt32LE_bytes rd_nonneg(3) by fastforce
    then show ?thesis using b 4 r1 small(2) by (simp add: fits_chunk_def chunk_wire_def push_width_def)
  next
    case 5
    then show ?thesis using rest b r1
      by (auto simp: return_def fits_chunk_def chunk_wire_def push_width_def)
  qed
qed

lemma Script_chunks_bytes:
  "Script_chunks r = Inr s \<Longrightarrow> int (length (br_buf r)) < 2 ^ 30 \<Longrightarrow> list_all (\<lambda>c. len c < 2 ^ 30) s \<Longrightarrow>
   list_all fits_chunk s \<and> concat (map chunk_wire s) = drop (nat (br_pos r)) (br_buf r)"
proof (induction r arbitrary: s rule: Script_chunks.induct)
  case (1 r)
  show ?case
  proof (cases "br_finished r")
    case True with 1(2) show ?thesis by (auto simp: Script_chunks.simps br_finished_def)
  next
    case False
    with 1(2) obtain d r' cs where step: "read_chunk r = (Inr d, r')" and cs: "Script_chunks r' = Inr cs" "s = d # cs"
      by (subst (asm) Script_chunks.simps) (auto split: prod.splits sum.splits)
    show ?thesis
      using 1(1)[OF False step[symmetric] refl cs(1)] read_chunk_bytes[OF step] read_chunk_advance[OF step] 1(3,4) cs(2)
      by simp
  qed
qed

section \<open>The standard scripts\<close>

definition p2pkh :: "bytes \<Rightarrow> script" where
  "p2pkh h = [op_chunk OP_DUP, op_chunk OP_HASH160, data_chunk 20 h 20, op_chunk OP_EQUALVERIFY, op_chunk OP_CHECKSIG]"

definition p2sh :: "bytes \<Rightarrow> script" where
  "p2sh h = [op_chunk OP_HASH160, data_chunk 20 h 20, op_chunk OP_EQUAL]"

lemmas add_defs = addBuffer_def addOpcode_def insertAtPosition_def buffer_chunk_def Let_def

lemma buildPublicKeyHashOut_p2pkh:
  "length (hashBuffer a) = 20 \<Longrightarrow> buildPublicKeyHashOut a = Inr (p2pkh (hashBuffer a))"
  by (simp add: buildPublicKeyHashOut_def p2pkh_def add_defs)

lemma p2sh_script_p2sh: "length h = 20 \<Longrightarrow> p2sh_script h = Inr (p2sh h)"
  by (simp add: p2sh_script_def p2sh_def add_defs)

lemma wf_p2pkh: "length h = 20 \<Longrightarrow> list_all wf_chunk (p2pkh h)"
  by (simp add: p2pkh_def wf_chunk_def)

lemma wf_p2sh: "length h = 20 \<Longrightarrow> list_all wf_chunk (p2sh h)"
  by (simp add: p2sh_def wf_chunk_def)

lemma toBuffer_p2pkh: "length h = 20 \<Longrightarrow> Script_toBuffer (p2pkh h) = Inr ([118, 169, 20] @ h @ [136, 172])"
  by (simp add: wf_toBuffer[OF wf_p2pkh]) (simp add: p2pkh_def chunk_wire_def push_width_def)

lemma toBuffer_p2sh: "length h = 20 \<Longrightarrow> Script_toBuffer (p2sh h) = Inr ([169, 20] @ h @ [135])"
  by (simp add: wf_toBuffer[OF wf_p2sh]) (simp add: p2sh_def chunk_wire_def push_width_def)

lemma p2pkh_out [simp]: "length h = 20 \<Longrightarrow> isPublicKeyHashOut (p2pkh h)"
  by (simp add: isPublicKeyHashOut_def p2pkh_def buf_len_is_def)

lemma p2pkh_not_p2sh [simp]: "length h = 20 \<Longrightarrow> isScriptHashOut (p2pkh h) = Inr False"
  by (simp add: isScriptHashOut_def toBuffer_p2pkh)

lemma p2sh_out [simp]: "length h = 20 \<Longrightarrow> isScriptHashOut (p2sh h) = Inr True"
  by (simp add: isScriptHashOut_def toBuffer_p2sh nth_append)

lemma getAddressInfo_p2pkh:
  "length h = 20 \<Longrightarrow> getAddressInfo C (p2pkh h) = Inr (Some \<lparr> hashBuffer = h, addr_type = PayToPublicKeyHash \<rparr>)"
  by (simp add: getAddressInfo_def getData_def) (simp add: p2pkh_def isDataOut_def buf_or_throw_def)

lemma getAddressInfo_p2sh:
  "length h = 20 \<Longrightarrow> getAddressInfo C (p2sh h) = Inr (Some \<lparr> hashBuffer = h, addr_type = PayToScriptHash \<rparr>)"
  by (simp add: getAddressInfo_def getData_def) (simp add: p2sh_def isDataOut_def buf_or_throw_def)

definition key_chunk :: "bytes \<Rightarrow> chunk" where
  "key_chunk b = data_chunk (int (length b)) b (int (length b))"

lemma addBuffers_keys: "list_all (\<lambda>k. length k < 76) ks \<Longrightarrow> addBuffers ks s = Inr (s @ map key_chunk ks)"
  by (induction ks arbitrary: s) (simp_all add: add_defs key_chunk_def)

lemma smallInt_ok: "0 \<le> n \<Longrightarrow> n \<le> 16 \<Longrightarrow> \<exists>m. smallInt n = Inr m \<and> isSmallIntOp m \<and> wf_chunk (op_chunk m)"
  by (auto simp: smallInt_def isSmallIntOp_def wf_chunk_def)

lemma buildMultisigOut_keys:
  assumes "list_all (\<lambda>k. length k < 76) ks" "0 \<le> m" "m \<le> int (length ks)" "length ks \<le> 16"
  obtains a b where "isSmallIntOp a" "isSmallIntOp b" "wf_chunk (op_chunk a)" "wf_chunk (op_chunk b)"
    "buildMultisigOut ks m noSorting = Inr (op_chunk a #
       map key_chunk (if noSorting then ks else sort_key hex ks) @ [op_chunk b, op_chunk OP_CHECKMULTISIG])"
proof -
  obtain a where a: "smallInt m = Inr a" "isSmallIntOp a" "wf_chunk (op_chunk a)" using smallInt_ok[of m] assms by auto
  obtain b where b: "smallInt (int (length ks)) = Inr b" "isSmallIntOp b" "wf_chunk (op_chunk b)"
    using smallInt_ok[of "int (length ks)"] assms by auto
  have "list_all (\<lambda>k. length k < 76) (if noSorting then ks else sort_key hex ks)" using assms(1) by (simp add: list_all_iff)
  from addBuffers_keys[OF this] a b assms have
    "buildMultisigOut ks m noSorting = Inr (op_chunk a #
       map key_chunk (if noSorting then ks else sort_key hex ks) @ [op_chunk b, op_chunk OP_CHECKMULTISIG])"
    by (simp add: buildMultisigOut_def Let_def addOpcode_def insertAtPosition_def)
  with a b that show thesis by blast
qed

lemma multisig_out:
  "isSmallIntOp a \<Longrightarrow> isSmallIntOp b \<Longrightarrow> cs \<noteq> [] \<Longrightarrow> list_all (\<lambda>c. buf c \<noteq> None) cs \<Longrightarrow>
   isMultisigOut (op_chunk a # cs @ [op_chunk b, op_chunk OP_CHECKMULTISIG])"
  by (cases cs) (simp_all add: isMultisigOut_def nth_append nth_Cons split: nat.split)

lemma classify_multisig:
  assumes "isSmallIntOp a" "isSmallIntOp b" "cs \<noteq> []" "list_all (\<lambda>c. buf c \<noteq> None) cs"
  shows "classify C (op_chunk a # cs @ [op_chunk b, op_chunk OP_CHECKMULTISIG]) = Inr MULTISIG_OUT"
proof -
  let ?s = "op_chunk a # cs @ [op_chunk b, op_chunk OP_CHECKMULTISIG]"
  have len: "3 < length ?s" using assms(3) by simp
  have "a \<noteq> OP_DUP" using assms(1) by (auto simp: isSmallIntOp_def)
  then show ?thesis using multisig_out[OF assms] len
    by (subst classify.simps)
       (simp add: isPublicKeyOut_def isPublicKeyIn_def isPublicKeyHashOut_def isPublicKeyHashIn_def)
qed

section \<open>Parsing and classifying always end in an answer\<close>

lemma br_num_range:
  "br_readUInt8 r = (Inr v, r') \<Longrightarrow> 0 \<le> v \<and> v < 2 ^ 8"
  "br_readUInt16LE r = (Inr v, r') \<Longrightarrow> 0 \<le> v \<and> v < 2 ^ 16"
  "br_readUInt32LE r = (Inr v, r') \<Longrightarrow> 0 \<le> v \<and> v < 2 ^ 32"
proof -
  show "br_readUInt8 r = (Inr v, r') \<Longrightarrow> 0 \<le> v \<and> v < 2 ^ 8"
    using readUInt8_bytes rd_nonneg(1) by (fastforce simp: br_readUInt8_def dest!: br_num_ok)
  show "br_readUInt16LE r = (Inr v, r') \<Longrightarrow> 0 \<le> v \<and> v < 2 ^ 16"
    using readUInt16LE_bytes rd_nonneg(2) by (fastforce simp: br_readUInt16LE_def dest!: br_num_ok)
  assume "br_readUInt32LE r = (Inr v, r')"
  then have v: "readUInt32LE (br_buf r) (br_pos r) = Inr v" by (auto simp: br_readUInt32LE_def dest!: br_num_ok)
  then have "v = le_val [br_buf r ! nat (br_pos r), br_buf r ! nat (br_pos r + 1), br_buf r ! nat (br_pos r + 2),
      br_buf r ! nat (br_pos r + 3)]"
    by (auto simp: readUInt32LE_def or_bytes3 split: sum.splits)
  then show "0 \<le> v \<and> v < 2 ^ 32"
    using le_val_bounds[of "[br_buf r ! nat (br_pos r), br_buf r ! nat (br_pos r + 1), br_buf r ! nat (br_pos r + 2),
      br_buf r ! nat (br_pos r + 3)]"] by simp
qed

lemma read_chunk_fits: "read_chunk r = (Inr c, r') \<Longrightarrow> fits_chunk c"
  unfolding read_chunk_def
  by (elim bind_InrE, drule br_num_range(1))
     (auto split: if_splits elim!: bind_InrE simp: read_push_run return_def fits_chunk_def push_width_def dest!: br_num_range)

lemma Script_chunks_fits: "Script_chunks r = Inr s \<Longrightarrow> list_all fits_chunk s"
proof (induction r arbitrary: s rule: Script_chunks.induct)
  case (1 r)
  show ?case
  proof (cases "br_finished r")
    case True with 1(2) show ?thesis by (simp add: Script_chunks.simps)
  next
    case False
    with 1(2) obtain d r' cs where "read_chunk r = (Inr d, r')" "Script_chunks r' = Inr cs" "s = d # cs"
      by (subst (asm) Script_chunks.simps) (auto split: prod.splits sum.splits)
    then show ?thesis using 1(1)[OF False] read_chunk_fits by auto
  qed
qed

lemma br_num_error:
  "br_readUInt8 r = (Inl e, r') \<Longrightarrow> e = RangeError"
  "br_readUInt16LE r = (Inl e, r') \<Longrightarrow> e = RangeError"
  "br_readUInt32LE r = (Inl e, r') \<Longrightarrow> e = RangeError"
  by (auto simp: br_readUInt8_def br_readUInt16LE_def br_readUInt32LE_def br_num_def br_advance_def action_defs readUInt8_def
      readUInt16LE_def readUInt32LE_def checkOffset_def split: sum.splits if_splits)

lemma bind_InlE:
  assumes "bind m f s = (Inl e, s'')"
  obtains "m s = (Inl e, s'')" | x s' where "m s = (Inr x, s')" "f x s' = (Inl e, s'')"
  using assms by (auto simp: bind_def split: prod.splits sum.splits)

lemma read_chunk_error: "read_chunk r = (Inl e, r') \<Longrightarrow> e = RangeError"
  unfolding read_chunk_def
  by (auto elim!: bind_InlE split: if_splits dest: br_num_error simp: read_push_run return_def)

lemma Script_chunks_error: "Script_chunks r = Inl e \<Longrightarrow> e = InvalidBuffer"
proof (induction r rule: Script_chunks.induct)
  case (1 r)
  show ?case
  proof (cases "br_finished r")
    case True with 1(2) show ?thesis by (simp add: Script_chunks.simps)
  next
    case False
    with 1 show ?thesis
      by (subst (asm) (2) Script_chunks.simps) (auto split: prod.splits sum.splits dest: read_chunk_error)
  qed
qed

lemma classify_fits: "list_all fits_chunk s \<Longrightarrow> \<exists>t. classify C s = Inr t"
proof (induction C s rule: classify.induct)
  case (1 C s)
  obtain p where p: "isScriptHashOut s = Inr p" using 1(2) by (simp add: isScriptHashOut_def fits_toBuffer)
  have "\<exists>r. redeem_script s = Inr r \<and> (\<forall>q. r = Some q \<longrightarrow> list_all fits_chunk q)"
    by (auto simp: redeem_script_def Script_fromBuffer_def split: option.splits sum.splits
        dest: Script_chunks_error Script_chunks_fits)
  then obtain r where r: "redeem_script s = Inr r" "\<And>q. r = Some q \<Longrightarrow> list_all fits_chunk q" by blast
  note eq = classify.simps[of C s]
  consider "isPublicKeyOut C s \<or> isPublicKeyIn s \<or> isPublicKeyHashOut s \<or> isPublicKeyHashIn C s \<or> isMultisigOut s
      \<or> isMultisigIn s \<or> p \<or> r = None"
    | q where "\<not> isPublicKeyOut C s" "\<not> isPublicKeyIn s" "\<not> isPublicKeyHashOut s" "\<not> isPublicKeyHashIn C s"
      "\<not> isMultisigOut s" "\<not> isMultisigIn s" "\<not> p" "r = Some q" by blast
  then show ?case
  proof cases
    case 1
    then show ?thesis using p r(1) by (auto simp: eq)
  next
    case 2
    then obtain t where "classify C q = Inr t" using 1(1) p r by blast
    then show ?thesis using 2 p r(1) by (simp add: eq)
  qed
qed

text \<open>A concrete instance of the parameter, for examples: padded prefixes for hashes, one fixed signature.\<close>

definition sample_der :: bytes where
  "sample_der = [0x30, 69, 2, 33, 0, 0x80] @ replicate 31 0 @ [2, 32, 0x40] @ replicate 31 0"

definition sample_crypto :: crypto where
  "sample_crypto = \<lparr> sha1 = (\<lambda>b. take 20 (b @ replicate 20 0)), sha256 = (\<lambda>b. take 32 (b @ replicate 32 0)),
     ripemd160 = (\<lambda>b. take 20 (b @ replicate 20 0)), pk_valid = (\<lambda>b. length b = 33),
     pk_fromBuffer = (\<lambda>b. if length b = 33 then Some b else None), privToPub = (\<lambda>k. take 33 (2 # k @ replicate 32 0)),
     ecdsa_sign = (\<lambda>k h. sample_der), ecdsa_verify = (\<lambda>k g h. g = sample_der) \<rparr>"

lemma sample_hash_length [simp]:
  "length (sha256ripemd160 sample_crypto b) = 20" "length (sha256sha256 sample_crypto b) = 32"
  by (auto simp: sha256ripemd160_def sha256sha256_def sample_crypto_def min_def)

lemma delete_chunks_filter:
  assumes "list_all fits_chunk s" "successively (\<lambda>x y. \<not> (chunk_wire x = b \<and> chunk_wire y = b)) s"
  shows "delete_chunks b s = Inr (filter (\<lambda>x. chunk_wire x \<noteq> b) s)"
  using assms
proof (induction b s rule: delete_chunks.induct)
  case (2 b c cs)
  have c: "Script_toBuffer [c] = Inr (chunk_wire c)" using 2(3) by (simp add: fits_toBuffer)
  show ?case
  proof (cases "chunk_wire c = b")
    case True
    with 2(1)[OF c, of "hd cs" "tl cs"] 2(3,4) c show ?thesis
      by (cases cs) (auto simp: successively_Cons)
  next
    case False
    with 2(2)[OF c] 2(3,4) c show ?thesis by (auto simp: successively_Cons)
  qed
qed simp

section \<open>Properties\<close>

text \<open>
  C24: a script whose chunks are well formed is serialized without error, and parsing the
  bytes gives the script back.
\<close>

theorem script_roundtrip:
  assumes "list_all wf_chunk s" "length (concat (map chunk_wire s)) < 2 ^ 31"
  shows "\<exists>b. Script_toBuffer s = Inr b \<and> Script_fromBuffer b = Inr s"
  using wf_toBuffer[OF assms(1)] wf_fromBuffer[OF assms] by blast

theorem script_roundtrip_witness:
  "\<exists>b. Script_toBuffer (p2pkh (replicate 20 9)) = Inr b \<and> Script_fromBuffer b = Inr (p2pkh (replicate 20 9))"
  by (rule script_roundtrip) (simp_all add: wf_p2pkh, simp add: p2pkh_def chunk_wire_def push_width_def)



text \<open>
  C25: parsing ends with a script or with \<^verbatim>\<open>InvalidBuffer\<close>, and every parsed script is classified:
  following redeem scripts inside redeem scripts always comes to an end.
\<close>

theorem script_answers:
  "case Script_fromBuffer b of Inl e \<Rightarrow> e = InvalidBuffer | Inr s \<Rightarrow> \<exists>t. classify C s = Inr t"
  by (auto simp: Script_fromBuffer_def split: sum.split dest: Script_chunks_error intro: classify_fits Script_chunks_fits)

text \<open>
  C33: the script of an address is recognised as paying to that address, for both kinds of
  address.
\<close>

theorem address_roundtrip:
  assumes "length (hashBuffer a) = 20"
  shows "\<exists>s. Script_fromAddress a = Inr s \<and> getAddressInfo C s = Inr (Some a)"
proof (cases "addr_type a")
  case PayToPublicKeyHash
  then have "\<lparr> hashBuffer = hashBuffer a, addr_type = PayToPublicKeyHash \<rparr> = a" by simp
  with PayToPublicKeyHash assms show ?thesis
    by (simp add: Script_fromAddress_def buildPublicKeyHashOut_p2pkh getAddressInfo_p2pkh)
next
  case PayToScriptHash
  then have "\<lparr> hashBuffer = hashBuffer a, addr_type = PayToScriptHash \<rparr> = a" by simp
  with PayToScriptHash assms show ?thesis
    by (simp add: Script_fromAddress_def buildScriptHashOut_address_def p2sh_script_p2sh getAddressInfo_p2sh)
qed

theorem address_roundtrip_witness:
  "\<exists>s. Script_fromAddress \<lparr> hashBuffer = replicate 20 7, addr_type = PayToScriptHash \<rparr> = Inr s
     \<and> getAddressInfo sample_crypto s = Inr (Some \<lparr> hashBuffer = replicate 20 7, addr_type = PayToScriptHash \<rparr>)"
  by (rule address_roundtrip) simp

text \<open>
  For up to sixteen keys and a threshold that they can reach, \<^verbatim>\<open>buildMultisigOut\<close> builds a script
  that \<^verbatim>\<open>classify\<close> recognises as a multisignature output, sorted keys or not.
\<close>

theorem multisig_recognised:
  assumes "list_all (\<lambda>k. length k < 76) ks" "ks \<noteq> []" "0 \<le> m" "m \<le> int (length ks)" "length ks \<le> 16"
  shows "\<exists>s. buildMultisigOut ks m noSorting = Inr s \<and> classify C s = Inr MULTISIG_OUT"
proof -
  let ?ks = "if noSorting then ks else sort_key hex ks"
  obtain a b where ab: "isSmallIntOp a" "isSmallIntOp b"
    "buildMultisigOut ks m noSorting = Inr (op_chunk a # map key_chunk ?ks @ [op_chunk b, op_chunk OP_CHECKMULTISIG])"
    using assms by (metis buildMultisigOut_keys)
  have "?ks \<noteq> []" using assms(2) by (auto dest: arg_cong[of _ _ length])
  then have "classify C (op_chunk a # map key_chunk ?ks @ [op_chunk b, op_chunk OP_CHECKMULTISIG]) = Inr MULTISIG_OUT"
    using ab by (intro classify_multisig) (simp_all add: list_all_iff key_chunk_def)
  with ab show ?thesis by blast
qed

theorem multisig_recognised_witness:
  "\<exists>s. buildMultisigOut [[2, 1], [2, 3], [3, 5]] 2 False = Inr s \<and> classify sample_crypto s = Inr MULTISIG_OUT"
  by (rule multisig_recognised) simp_all



text \<open>
  C34: where no two occurrences follow each other, \<^verbatim>\<open>findAndDelete\<close> removes exactly the chunks that
  serialize to the given bytes.
\<close>


theorem findAndDelete_filter:
  assumes "list_all fits_chunk s" "fits_chunk c"
    "successively (\<lambda>x y. \<not> (chunk_wire x = chunk_wire c \<and> chunk_wire y = chunk_wire c)) s"
  shows "findAndDelete s [c] = Inr (filter (\<lambda>x. chunk_wire x \<noteq> chunk_wire c) s)"
  using delete_chunks_filter[OF assms(1,3)] assms(2) by (simp add: findAndDelete_def fits_toBuffer)

theorem findAndDelete_filter_witness:
  "findAndDelete [op_chunk 171, op_chunk 118, op_chunk 171] [op_chunk 171] = Inr [op_chunk 118]"
proof -
  have "findAndDelete [op_chunk 171, op_chunk 118, op_chunk 171] [op_chunk 171]
      = Inr (filter (\<lambda>x. chunk_wire x \<noteq> chunk_wire (op_chunk 171)) [op_chunk 171, op_chunk 118, op_chunk 171])"
    by (rule findAndDelete_filter) (simp_all add: fits_chunk_def chunk_wire_def)
  then show ?thesis by (simp add: chunk_wire_def)
qed

end
