(* ===== verification/DER.thy ===== *)
theory DER
  imports Scripts
begin

unbundle bit_operations_syntax

text \<open>
  The encodings of the \<^verbatim>\<open>Signature\<close> class of \<^verbatim>\<open>bitcore.js\<close>: DER, the transaction format that appends the
  hash type, and the compact form. A signature object is the pair of its numbers.
\<close>

section \<open>Encoding\<close>

record ecdsa_sig =
  r_num :: int
  s_num :: int

text \<open>\<^verbatim>\<open>toDER\<close>: a number whose top bit is set gets a zero byte in front.\<close>

definition der_pad :: "bytes \<Rightarrow> bytes" where
  "der_pad b = (if b ! 0 AND 0x80 \<noteq> 0 then 0 # b else b)"

definition toDER :: "ecdsa_sig \<Rightarrow> exn + bytes" where
  "toDER g = (case bn_toBuffer 0 (r_num g) of Inl e \<Rightarrow> Inl e | Inr rn \<Rightarrow>
     case bn_toBuffer 0 (s_num g) of Inl e \<Rightarrow> Inl e | Inr sn \<Rightarrow>
     let rbuf = der_pad rn;
         sbuf = der_pad sn;
         rlength = length rbuf;
         slength = length sbuf
     in Inr ([0x30, of_nat (2 + rlength + 2 + slength), 0x02, of_nat rlength] @ rbuf @ [0x02, of_nat slength] @ sbuf))"

definition toCompact :: "int \<Rightarrow> bool \<Rightarrow> ecdsa_sig \<Rightarrow> exn + bytes" where
  "toCompact i compressed g =
    (if \<not> (i = 0 \<or> i = 1 \<or> i = 2 \<or> i = 3) then Inl (GenericError ''i must be equal to 0, 1, 2, or 3'')
     else let val = i + 27 + 4; val = (if \<not> compressed then val - 4 else val) in
       case bn_toBuffer 32 (r_num g) of Inl e \<Rightarrow> Inl e | Inr b2 \<Rightarrow>
       case bn_toBuffer 32 (s_num g) of Inl e \<Rightarrow> Inl e | Inr b3 \<Rightarrow> Inr (word_of_int val # b2 @ b3))"

section \<open>Decoding\<close>

text \<open>An element of a buffer; past the end it is \<^verbatim>\<open>undefined\<close>, which is equal to no number.\<close>

definition el :: "bytes \<Rightarrow> int \<Rightarrow> int option" where
  "el b i = (if 0 \<le> i \<and> i < int (length b) then Some (byte_at b i) else None)"

record der_parts =
  der_length :: int
  der_rneg :: bool
  der_rbuf :: bytes
  der_sneg :: bool
  der_sbuf :: bytes

definition parseDER :: "bytes \<Rightarrow> bool \<Rightarrow> exn + der_parts" where
  "parseDER b strict =
    (if el b 0 \<noteq> Some 0x30 then Inl (InvalidArgument ''Header byte should be 0x30'')
     else let buflength = int (length (drop 2 b)) in
     if strict \<and> el b 1 \<noteq> Some buflength then Inl (InvalidArgument ''Length byte should length of what follows'')
     else let l = (case el b 1 of Some n \<Rightarrow> if n < buflength then n else buflength | None \<Rightarrow> buflength) in
     if el b 2 \<noteq> Some 0x02 then Inl (InvalidArgument ''Integer byte for r should be 0x02'')
     else case el b 3 of None \<Rightarrow> Inl (InvalidArgument ''Length of r incorrect'')
     | Some rlength \<Rightarrow> let rbuf = buf_slice b 4 (4 + rlength) in
     if rlength \<noteq> int (length rbuf) then Inl (InvalidArgument ''Length of r incorrect'')
     else if el b (4 + rlength) \<noteq> Some 0x02 then Inl (InvalidArgument ''Integer byte for s should be 0x02'')
     else case el b (4 + rlength + 1) of None \<Rightarrow> Inl (InvalidArgument ''Length of s incorrect'')
     | Some slength \<Rightarrow> let sbuf = buf_slice b (4 + rlength + 2) (4 + rlength + 2 + slength) in
     if slength \<noteq> int (length sbuf) then Inl (InvalidArgument ''Length of s incorrect'')
     else if l \<noteq> (2 + 2 + rlength + 2 + slength) - 2 then Inl (InvalidArgument ''Length of signature incorrect'')
     else Inr \<lparr> der_length = l, der_rneg = (el b 4 = Some 0), der_rbuf = rbuf,
                der_sneg = (el b (4 + rlength + 2 + 2) = Some 0), der_sbuf = sbuf \<rparr>)"

definition fromDER :: "bytes \<Rightarrow> bool \<Rightarrow> exn + ecdsa_sig" where
  "fromDER b strict = map_sum id
     (\<lambda>p. \<lparr> r_num = bn_fromBuffer (der_rbuf p), s_num = bn_fromBuffer (der_sbuf p) \<rparr>) (parseDER b strict)"

definition fromTxFormat :: "bytes \<Rightarrow> exn + ecdsa_sig \<times> int" where
  "fromTxFormat b = (case readUInt8 b (int (length b) - 1) of Inl e \<Rightarrow> Inl e
     | Inr nhashtype \<Rightarrow> map_sum id (\<lambda>g. (g, nhashtype)) (fromDER (buf_slice b 0 (int (length b) - 1)) False))"

definition fromCompact :: "bytes \<Rightarrow> exn + ecdsa_sig \<times> int" where
  "fromCompact b = (case el b 0 of None \<Rightarrow> Inl (InvalidArgument ''i must be 0, 1, 2, or 3'')
     | Some first \<Rightarrow>
       let i = first - 27 - 4; b2 = buf_slice b 1 33; b3 = buf_slice b 33 65 in
       if \<not> (i = 0 \<or> i = 1 \<or> i = 2 \<or> i = 3) then Inl (InvalidArgument ''i must be 0, 1, 2, or 3'')
       else if length b2 \<noteq> 32 then Inl (InvalidArgument ''r must be 32 bytes'')
       else if length b3 \<noteq> 32 then Inl (InvalidArgument ''s must be 32 bytes'')
       else Inr (\<lparr> r_num = bn_fromBuffer b2, s_num = bn_fromBuffer b3 \<rparr>, i))"

section \<open>Numbers as big-endian bytes\<close>

definition be_bytes :: "int \<Rightarrow> bytes" where
  "be_bytes n = rev (le_bytes (bn_natlen n) n)"

lemma toBuffer_be: "0 \<le> n \<Longrightarrow> bn_toBuffer 0 n = Inr (be_bytes n)"
  by (simp add: bn_toBuffer_def be_bytes_def)

lemma natlen_bound: "0 \<le> n \<Longrightarrow> n < 256 ^ bn_natlen n"
proof -
  assume n: "0 \<le> n"
  have "n < 2 ^ nat (bitlen n)"
    using n bitlen_bounds[of n] by (cases "n = 0") (auto simp: bitlen_def)
  also have "\<dots> \<le> 2 ^ (8 * bn_natlen n)" by (rule power_increasing) (simp_all add: bn_natlen_def)
  finally show ?thesis by (simp add: power_mult)
qed

lemma natlen_least: "0 < n \<Longrightarrow> 256 ^ (bn_natlen n - 1) \<le> n"
proof -
  assume n: "0 < n"
  have b: "2 ^ nat (bitlen n - 1) \<le> n" using bitlen_bounds[OF n] by simp
  have "0 < bitlen n" using n bitlen_eq_zero_iff[of n] bitlen_nonneg[of n] by linarith
  then have "8 * (bn_natlen n - 1) \<le> nat (bitlen n - 1)" by (simp add: bn_natlen_def)
  then have "(2 :: int) ^ (8 * (bn_natlen n - 1)) \<le> 2 ^ nat (bitlen n - 1)" by (rule power_increasing) simp
  then show ?thesis using b by (simp add: power_mult)
qed

lemma from_be: "0 \<le> n \<Longrightarrow> bn_fromBuffer (be_bytes n) = n"
  using natlen_bound[of n] by (simp add: bn_fromBuffer_def be_bytes_def le_val_le_bytes)

lemma from_pad: "bn_fromBuffer (der_pad b) = bn_fromBuffer b"
proof -
  have "le_val (b @ [0]) = le_val b" for b by (induction b) simp_all
  then show ?thesis by (simp add: der_pad_def bn_fromBuffer_def)
qed

lemma natlen_ge: "1 \<le> bn_natlen n"
  by (simp add: bn_natlen_def)

lemma length_be: "1 \<le> length (be_bytes n)" "0 \<le> n \<Longrightarrow> n < 256 ^ 32 \<Longrightarrow> length (be_bytes n) \<le> 32"
  using natlen_ge[of n] bn_natlen_le[of n 32] by (simp_all add: be_bytes_def)

lemma length_pad: "1 \<le> length (der_pad (be_bytes n))" "0 \<le> n \<Longrightarrow> n < 256 ^ 32 \<Longrightarrow> length (der_pad (be_bytes n)) \<le> 33"
  using length_be[of n] by (auto simp: der_pad_def)

lemma le_bytes_last: "le_bytes (Suc k) n = le_bytes k n @ [word_of_int (n div 256 ^ k)]"
  using le_bytes_append[of k 1 n] by simp

lemma zdiv_less: "n < c * d \<Longrightarrow> 0 < d \<Longrightarrow> n div d < (c :: int)"
proof (rule ccontr)
  assume n: "n < c * d" "0 < d" and "\<not> n div d < c"
  then have "c * d \<le> n div d * d" by (intro mult_right_mono) simp_all
  moreover have "n div d * d + n mod d = n" "0 \<le> n mod d" using n by simp_all
  ultimately show False using n by linarith
qed

text \<open>The first byte is not zero unless the number is.\<close>

lemma be_first: "0 < n \<Longrightarrow> be_bytes n ! 0 \<noteq> 0"
proof -
  assume n: "0 < n"
  obtain k where k: "bn_natlen n = Suc k" using natlen_ge[of n] by (cases "bn_natlen n") auto
  have "256 ^ k \<le> n" "n < 256 ^ Suc k" using natlen_least[OF n] natlen_bound[of n] n k by simp_all
  then have "0 < n div 256 ^ k" "n div 256 ^ k < 256"
    by (simp_all add: pos_imp_zdiv_pos_iff zdiv_less)
  then have "(word_of_int (n div 256 ^ k) :: byte) \<noteq> 0"
    using uint_byte[of "n div 256 ^ k"] by (auto dest: arg_cong[of _ _ uint])
  then show ?thesis by (simp add: be_bytes_def k le_bytes_last del: le_bytes.simps)
qed

section \<open>Encoded signatures\<close>

definition der_wire :: "bytes \<Rightarrow> bytes \<Rightarrow> bytes" where
  "der_wire rb sb = [0x30, of_nat (2 + length rb + 2 + length sb), 0x02, of_nat (length rb)] @ rb
     @ [0x02, of_nat (length sb)] @ sb"

lemma uint_length: "n < 256 \<Longrightarrow> uint (of_nat n :: byte) = int n"
  using uint_byte[of "int n"] by simp

lemma slice_at:
  "length pre + length bs + length post < 2 ^ 31 \<Longrightarrow> i = int (length pre) \<Longrightarrow> j = int (length pre) + int (length bs) \<Longrightarrow>
   buf_slice (pre @ bs @ post) i j = bs"
  using buf_slice_mid[of pre bs post] by simp

lemma parseDER_wire:
  assumes "length rb \<le> 33" "length sb \<le> 33"
  shows "\<exists>p. parseDER (der_wire rb sb) strict = Inr p \<and> der_rbuf p = rb \<and> der_sbuf p = sb"
proof -
  let ?b = "der_wire rb sb" and ?rl = "int (length rb)" and ?sl = "int (length sb)"
  have u: "uint (of_nat (length rb) :: byte) = ?rl" "uint (of_nat (length sb) :: byte) = ?sl"
    "uint (of_nat (2 + length rb + 2 + length sb) :: byte) = 4 + ?rl + ?sl"
    using assms uint_length[of "length rb"] uint_length[of "length sb"] uint_length[of "2 + length rb + 2 + length sb"]
    by simp_all
  have e: "el ?b 0 = Some 0x30" "el ?b 1 = Some (4 + ?rl + ?sl)" "el ?b 2 = Some 0x02" "el ?b 3 = Some ?rl"
    "el ?b (4 + ?rl) = Some 0x02" "el ?b (4 + ?rl + 1) = Some ?sl"
    using u by (auto simp: el_def der_wire_def nth_append nat_add_distrib simp del: of_nat_add)
  have r: "buf_slice ?b 4 (4 + ?rl) = rb"
    unfolding der_wire_def
    by (rule slice_at[of "[0x30, of_nat (2 + length rb + 2 + length sb), 0x02, of_nat (length rb)]"]) (use assms in simp_all)
  have s: "buf_slice ?b (4 + ?rl + 2) (4 + ?rl + 2 + ?sl) = sb"
    using slice_at[of "[0x30, of_nat (2 + length rb + 2 + length sb), 0x02, of_nat (length rb)] @ rb @ [0x02, of_nat (length sb)]"
        sb "[]" "4 + ?rl + 2" "4 + ?rl + 2 + ?sl"] assms by (simp add: der_wire_def)
  have l: "int (length (drop 2 ?b)) = 4 + ?rl + ?sl" by (simp add: der_wire_def)
  show ?thesis unfolding parseDER_def Let_def by (simp only: e r s l option.case option.inject) simp
qed

definition sig_ok :: "ecdsa_sig \<Rightarrow> bool" where
  "sig_ok g \<longleftrightarrow> 0 \<le> r_num g \<and> r_num g < 256 ^ 32 \<and> 0 \<le> s_num g \<and> s_num g < 256 ^ 32"

lemma toDER_wire: "sig_ok g \<Longrightarrow> toDER g = Inr (der_wire (der_pad (be_bytes (r_num g))) (der_pad (be_bytes (s_num g))))"
  by (simp add: toDER_def sig_ok_def toBuffer_be der_wire_def Let_def)

lemma fromDER_wire:
  assumes "sig_ok g"
  shows "fromDER (der_wire (der_pad (be_bytes (r_num g))) (der_pad (be_bytes (s_num g)))) strict = Inr g"
proof -
  have "length (der_pad (be_bytes (r_num g))) \<le> 33" "length (der_pad (be_bytes (s_num g))) \<le> 33"
    using assms by (auto simp: sig_ok_def intro!: length_pad)
  from parseDER_wire[OF this, of strict] show ?thesis
    using assms by (auto simp: fromDER_def from_pad from_be sig_ok_def)
qed

text \<open>The encodings of signatures of at most 256 bits.\<close>

definition is_der :: "bytes \<Rightarrow> bool" where
  "is_der b \<longleftrightarrow> (\<exists>g. sig_ok g \<and> toDER g = Inr b)"

lemma sample_is_der: "is_der sample_der"
proof -
  have "toDER \<lparr> r_num = 2 ^ 255, s_num = 2 ^ 254 \<rparr> = Inr sample_der"
    by code_simp
  then show ?thesis unfolding is_der_def by (intro exI[of _ "\<lparr> r_num = 2 ^ 255, s_num = 2 ^ 254 \<rparr>"]) (simp add: sig_ok_def)
qed

text \<open>What \<^verbatim>\<open>isTxDER\<close> asks of each of the two numbers.\<close>

lemma pad_canonical:
  assumes "0 \<le> n"
  shows "der_pad (be_bytes n) ! 0 AND 0x80 = 0"
    "\<not> (1 < length (der_pad (be_bytes n)) \<and> der_pad (be_bytes n) ! 0 = 0 \<and> der_pad (be_bytes n) ! 1 AND 0x80 = 0)"
proof -
  show "der_pad (be_bytes n) ! 0 AND 0x80 = 0" by (simp add: der_pad_def)
  have "be_bytes n ! 0 = 0 \<Longrightarrow> length (be_bytes n) = 1"
    using be_first[of n] assms by (cases "n = 0") (auto simp: be_bytes_def bn_natlen_def bitlen_def floorlog_def)
  then show "\<not> (1 < length (der_pad (be_bytes n)) \<and> der_pad (be_bytes n) ! 0 = 0 \<and> der_pad (be_bytes n) ! 1 AND 0x80 = 0)"
    by (auto simp: der_pad_def)
qed

lemma isTxDER_wire:
  assumes r: "1 \<le> length rb" "length rb \<le> 33" "rb ! 0 AND 0x80 = 0" "\<not> (1 < length rb \<and> rb ! 0 = 0 \<and> rb ! 1 AND 0x80 = 0)"
    and s: "1 \<le> length sb" "length sb \<le> 33" "sb ! 0 AND 0x80 = 0" "\<not> (1 < length sb \<and> sb ! 0 = 0 \<and> sb ! 1 AND 0x80 = 0)"
  shows "isTxDER (der_wire rb sb @ [h])"
proof -
  let ?b = "der_wire rb sb @ [h]" and ?n = "length rb" and ?m = "length sb"
  have u: "unat (of_nat ?n :: byte) = ?n" "unat (of_nat ?m :: byte) = ?m" "unat (of_nat (2 + ?n + 2 + ?m) :: byte) = 4 + ?n + ?m"
    using r(2) s(2) uint_length[of ?n] uint_length[of ?m] uint_length[of "2 + ?n + 2 + ?m"]
    by (simp_all add: unat_eq_nat_uint del: of_nat_add)
  have len: "length ?b = ?n + ?m + 7" by (simp add: der_wire_def)
  have e: "?b ! 0 = 0x30" "unat (?b ! 1) = length ?b - 3" "?b ! 2 = 0x02" "unat (?b ! 3) = ?n" "unat (?b ! (5 + ?n)) = ?m"
    "?b ! (6 + ?n - 2) = 0x02"
    using u unfolding len by (simp_all add: der_wire_def nth_append numeral_eq_Suc del: of_nat_add)
  have d: "drop 4 ?b = rb @ [0x02, of_nat ?m] @ sb @ [h]" "drop (6 + ?n) ?b = sb @ [h]"
    by (simp_all add: der_wire_def numeral_eq_Suc)
  have hd: "(rb @ [0x02, of_nat ?m] @ sb @ [h]) ! 0 = rb ! 0" "(sb @ [h]) ! 0 = sb ! 0"
    "1 < ?n \<Longrightarrow> (rb @ [0x02, of_nat ?m] @ sb @ [h]) ! 1 = rb ! 1" "1 < ?m \<Longrightarrow> (sb @ [h]) ! 1 = sb ! 1"
    using r(1) s(1) by (auto simp: nth_append)
  have c: "(1 < ?n \<and> rb ! 0 = 0 \<and> (rb @ [0x02, of_nat ?m] @ sb @ [h]) ! 1 AND 0x80 = 0) = False"
    "(1 < ?m \<and> sb ! 0 = 0 \<and> (sb @ [h]) ! 1 AND 0x80 = 0) = False"
    using r(4) s(4) hd by auto
  have g: "(length ?b < 9) = False" "(73 < length ?b) = False" "(length ?b \<le> 5 + ?n) = False" "(?n + ?m + 7 \<noteq> length ?b) = False"
    "(?n = 0) = False" "(?m = 0) = False"
    unfolding len using r(1,2) s(1,2) by auto
  show ?thesis unfolding isTxDER_def Let_def e d c g hd(1,2) r(3) s(3) by simp
qed

text \<open>An encoded signature with its hash type, as a script carries it.\<close>

lemma tx_format:
  assumes "sig_ok g" "toDER g = Inr der" "0 \<le> h" "h < 256"
  shows "toTxFormat der h = Inr (der @ [word_of_int h])" "isTxDER (der @ [word_of_int h])"
    "fromTxFormat (der @ [word_of_int h]) = Inr (g, h)"
proof -
  let ?r = "der_pad (be_bytes (r_num g))" and ?s = "der_pad (be_bytes (s_num g))"
  let ?h = "word_of_int h :: byte"
  have der: "der = der_wire ?r ?s" using toDER_wire[OF assms(1)] assms(2) by simp
  show "toTxFormat der h = Inr (der @ [word_of_int h])"
    using assms by (simp add: toTxFormat_def writeUInt8_def checkInt_def)
  have l: "length ?r \<le> 33" "length ?s \<le> 33" using assms(1) by (auto simp: sig_ok_def intro!: length_pad)
  have n: "0 \<le> r_num g" "0 \<le> s_num g" using assms(1) by (auto simp: sig_ok_def)
  show "isTxDER (der @ [word_of_int h])" unfolding der
    by (rule isTxDER_wire) (use l n in \<open>simp_all only: pad_canonical length_pad not_False_eq_True\<close>)
  have "length der < 2 ^ 31 - 1" using l by (simp add: der der_wire_def)
  then have sl: "buf_slice (der @ [?h]) 0 (int (length (der @ [?h])) - 1) = der"
    using slice_at[of "[]" der "[?h]" 0 "int (length der)"] by simp
  have rd: "readUInt8 (der @ [?h]) (int (length (der @ [?h])) - 1) = Inr h"
    using assms(3,4) uint_byte[of h] by (simp add: readUInt8_def checkOffset_def nth_append)
  show "fromTxFormat (der @ [word_of_int h]) = Inr (g, h)"
    unfolding fromTxFormat_def rd sl using fromDER_wire[OF assms(1)] by (simp add: der)
qed

text \<open>
  C30: a signature whose two numbers have at most 256 bits is encoded by \<^verbatim>\<open>toDER\<close>, \<^verbatim>\<open>fromDER\<close>
  gives the same two numbers back in strict mode and in lenient mode, and the transaction format made of the
  encoding and a hash type byte is canonical for \<^verbatim>\<open>isTxDER\<close> and is read back by \<^verbatim>\<open>fromTxFormat\<close> with that hash type.
\<close>

theorem signature_roundtrip:
  assumes "0 \<le> r_num g" "r_num g < 2 ^ 256" "0 \<le> s_num g" "s_num g < 2 ^ 256" "0 \<le> h" "h < 256"
  shows "\<exists>der wire. toDER g = Inr der \<and> fromDER der True = Inr g \<and> fromDER der False = Inr g
    \<and> toTxFormat der h = Inr wire \<and> isTxDER wire \<and> fromTxFormat wire = Inr (g, h)"
proof -
  have ok: "sig_ok g" using assms by (simp add: sig_ok_def)
  from tx_format[OF ok toDER_wire[OF ok] assms(5,6)] show ?thesis using ok by (auto simp: toDER_wire fromDER_wire)
qed

theorem signature_roundtrip_witness:
  "\<exists>der wire. toDER \<lparr> r_num = 0x1234, s_num = 0xff00 \<rparr> = Inr der \<and> fromDER der True = Inr \<lparr> r_num = 0x1234, s_num = 0xff00 \<rparr>
    \<and> fromDER der False = Inr \<lparr> r_num = 0x1234, s_num = 0xff00 \<rparr> \<and> toTxFormat der 0x83 = Inr wire \<and> isTxDER wire
    \<and> fromTxFormat wire = Inr (\<lparr> r_num = 0x1234, s_num = 0xff00 \<rparr>, 0x83)"
  using signature_roundtrip[of "\<lparr> r_num = 0x1234, s_num = 0xff00 \<rparr>" "0x83"] by simp

text \<open>
  C31: the compact form of a signature of a compressed key is read back by \<^verbatim>\<open>fromCompact\<close> with its
  recovery number, but \<^verbatim>\<open>fromCompact\<close> always subtracts the four that mark a compressed key, so it rejects
  the compact form that \<^verbatim>\<open>toCompact\<close> writes for an uncompressed one.
\<close>

theorem compact_roundtrip:
  assumes "0 \<le> r_num g" "r_num g < 2 ^ 256" "0 \<le> s_num g" "s_num g < 2 ^ 256" "0 \<le> i" "i < 4"
  shows "\<exists>b b'. toCompact i True g = Inr b \<and> length b = 65 \<and> fromCompact b = Inr (g, i)
    \<and> toCompact i False g = Inr b' \<and> fromCompact b' = Inl (InvalidArgument ''i must be 0, 1, 2, or 3'')"
proof -
  let ?r = "rev (le_bytes 32 (r_num g))" and ?s = "rev (le_bytes 32 (s_num g))"
  have b: "bn_toBuffer 32 (r_num g) = Inr ?r" "bn_toBuffer 32 (s_num g) = Inr ?s"
    using assms bn_natlen_le[of "r_num g" 32] bn_natlen_le[of "s_num g" 32] by (simp_all add: bn_toBuffer_def)
  have v: "bn_fromBuffer ?r = r_num g" "bn_fromBuffer ?s = s_num g"
    using assms by (simp_all add: bn_fromBuffer_def le_val_le_bytes)
  have sl: "buf_slice (w # ?r @ ?s) 1 33 = ?r" "buf_slice (w # ?r @ ?s) 33 65 = ?s" for w
    using slice_at[of "[w]" ?r ?s 1 33] slice_at[of "w # ?r" ?s "[]" 33 65] by simp_all
  have i: "i = 0 \<or> i = 1 \<or> i = 2 \<or> i = 3" using assms(5,6) by arith
  have e: "el (w # ?r @ ?s) 0 = Some (uint w)" for w by (simp add: el_def)
  have u: "uint (word_of_int (i + 31) :: byte) = i + 31" "uint (word_of_int (i + 27) :: byte) = i + 27"
    using assms(5,6) uint_byte[of "i + 31"] uint_byte[of "i + 27"] by simp_all
  show ?thesis using i by (auto simp: toCompact_def b fromCompact_def e u sl v)
qed

theorem compact_roundtrip_witness:
  "\<exists>b b'. toCompact 2 True \<lparr> r_num = 77, s_num = 2 ^ 255 \<rparr> = Inr b \<and> length b = 65
    \<and> fromCompact b = Inr (\<lparr> r_num = 77, s_num = 2 ^ 255 \<rparr>, 2)
    \<and> toCompact 2 False \<lparr> r_num = 77, s_num = 2 ^ 255 \<rparr> = Inr b'
    \<and> fromCompact b' = Inl (InvalidArgument ''i must be 0, 1, 2, or 3'')"
  using compact_roundtrip[of "\<lparr> r_num = 77, s_num = 2 ^ 255 \<rparr>" 2] by simp

end
