(* ===== verification/Transactions.thy ===== *)
theory Transactions
  imports Scripts
begin

text \<open>
  The \<^verbatim>\<open>Output\<close>, \<^verbatim>\<open>Input\<close>, \<^verbatim>\<open>UnspentOutput\<close> and \<^verbatim>\<open>Transaction\<close> classes of \<^verbatim>\<open>bitcore.js\<close>, except signing:
  serialization, the cached totals, the change output and the fee estimate. A method of
  \<^verbatim>\<open>Transaction\<close> is an action on the record \<open>transaction\<close>. Input and output objects are values: no
  two list positions share an object in the code that uses these classes, so \<^verbatim>\<open>_.without\<close> removes
  one position.
\<close>

section \<open>Outputs\<close>

text \<open>
  \<open>out_script\<close> is the cached \<^verbatim>\<open>_script\<close>; where it is \<open>None\<close> the getter parses \<^verbatim>\<open>_scriptBuffer\<close>.
\<close>

record tx_output =
  satoshis :: jsnum
  satoshisBN :: int
  out_scriptBuffer :: bytes
  out_script :: "script option"

definition script_getter :: "script option \<Rightarrow> bytes \<Rightarrow> exn + script" where
  "script_getter s b = (case s of Some s \<Rightarrow> Inr s | None \<Rightarrow> Script_fromBuffer b)"

definition output_script :: "tx_output \<Rightarrow> exn + script" where
  "output_script out = script_getter (out_script out) (out_scriptBuffer out)"

text \<open>\<^verbatim>\<open>new Output({script, satoshis})\<close> with a script object and a Number.\<close>

definition new_Output :: "script \<Rightarrow> jsnum \<Rightarrow> exn + tx_output" where
  "new_Output s n = map_sum id
     (\<lambda>b. \<lparr> satoshis = n, satoshisBN = bn_fromNumber n, out_scriptBuffer = b, out_script = Some s \<rparr>)
     (Script_toBuffer s)"

definition Output_fromBufferReader :: "(BufferReader, tx_output) action" where
  "Output_fromBufferReader = bind br_readUInt64LEBN (\<lambda>bn. bind br_readVarintNum (\<lambda>sz.
     bind (if sz \<noteq> 0 then br_read sz else return [])
       (\<lambda>b. return \<lparr> satoshis = bn_toNumber bn, satoshisBN = bn, out_scriptBuffer = b, out_script = None \<rparr>)))"

definition Output_toBufferWriter :: "tx_output \<Rightarrow> writer" where
  "Output_toBufferWriter out = block [
     bw_writeUInt64LEBN (satoshisBN out),
     bw_writeVarintNum (int (length (out_scriptBuffer out))),
     bw_write (out_scriptBuffer out)]"

section \<open>Inputs\<close>

record tx_signature =
  sig_publicKey :: bytes
  sig_prevTxId :: bytes
  sig_outputIndex :: int
  sig_inputIndex :: nat
  sig_der :: bytes
  sigtype :: int

record multisig =
  publicKeys :: "bytes list"
  redeemScript :: script
  threshold :: int
  signatures :: "tx_signature option list"

text \<open>The classes \<^verbatim>\<open>Input\<close>, \<^verbatim>\<open>PublicKeyHashInput\<close> and \<^verbatim>\<open>MultiSigScriptHashInput\<close>.\<close>

datatype input_class = PlainInput | PublicKeyHashInput | MultiSigScriptHashInput multisig

record tx_input =
  prevTxId :: bytes
  outputIndex :: int
  sequenceNumber :: int
  in_scriptBuffer :: bytes
  in_script :: "script option"
  in_output :: "tx_output option"
  in_class :: input_class

abbreviation (input) DEFAULT_SEQNUMBER :: int where "DEFAULT_SEQNUMBER \<equiv> 0xFFFFFFFF"

definition input_script :: "tx_input \<Rightarrow> exn + script" where
  "input_script i = script_getter (in_script i) (in_scriptBuffer i)"

definition Input_fromBufferReader :: "(BufferReader, tx_input) action" where
  "Input_fromBufferReader = bind (br_readReverse 32) (\<lambda>h. bind br_readUInt32LE (\<lambda>n.
     bind br_readVarLengthBuffer (\<lambda>b. bind br_readUInt32LE (\<lambda>q.
       return \<lparr> prevTxId = h, outputIndex = n, sequenceNumber = q, in_scriptBuffer = b, in_script = None,
                in_output = None, in_class = PlainInput \<rparr>))))"

definition Input_toBufferWriter :: "tx_input \<Rightarrow> writer" where
  "Input_toBufferWriter i = block [
     bw_writeReverse (prevTxId i),
     bw_writeUInt32LE (outputIndex i),
     bw_writeVarintNum (int (length (in_scriptBuffer i))),
     bw_write (in_scriptBuffer i),
     bw_writeUInt32LE (sequenceNumber i)]"

definition Input_setScript :: "script \<Rightarrow> (tx_input, unit) action" where
  "Input_setScript s = block [
     modify (\<lambda>i. i\<lparr> in_script := Some s \<rparr>),
     bind (lift (Script_toBuffer s)) (\<lambda>b. modify (\<lambda>i. i\<lparr> in_scriptBuffer := b \<rparr>))]"

text \<open>\<^verbatim>\<open>new Input({output, prevTxId, outputIndex, script: Script.empty()})\<close>.\<close>

definition new_Input :: "tx_output option \<Rightarrow> bytes \<Rightarrow> int \<Rightarrow> input_class \<Rightarrow> tx_input" where
  "new_Input out txid n k =
    \<lparr> prevTxId = txid, outputIndex = n, sequenceNumber = DEFAULT_SEQNUMBER, in_scriptBuffer = [],
      in_script = Some [], in_output = out, in_class = k \<rparr>"

definition isNull :: "tx_input \<Rightarrow> bool" where
  "isNull i \<longleftrightarrow> hex (prevTxId i) = replicate 64 (CHR ''0'') \<and> outputIndex i = 0xffffffff"

definition new_MultiSigScriptHashInput ::
    "crypto \<Rightarrow> tx_output \<Rightarrow> bytes \<Rightarrow> int \<Rightarrow> bytes list \<Rightarrow> int \<Rightarrow> exn + tx_input" where
  "new_MultiSigScriptHashInput C out txid n pubkeys m =
    (case buildMultisigOut pubkeys m True of Inl e \<Rightarrow> Inl e | Inr redeem \<Rightarrow>
     case buildScriptHashOut C redeem of Inl e \<Rightarrow> Inl e | Inr ps \<Rightarrow>
     case output_script out of Inl e \<Rightarrow> Inl e | Inr s \<Rightarrow>
     if Script_equals ps s then
       Inr (new_Input (Some out) txid n (MultiSigScriptHashInput
         \<lparr> publicKeys = pubkeys, redeemScript = redeem, threshold = m,
           signatures = replicate (length pubkeys) None \<rparr>))
     else Inl (InvalidState (''Provided public keys don'' @ CHR 0x27 # ''t hash to the provided output'')))"

definition createSignatures :: "tx_signature option list \<Rightarrow> bytes list" where
  "createSignatures sigs = map (\<lambda>g. sig_der g @ [word_of_int (sigtype g)]) (map the (filter (\<lambda>g. g \<noteq> None) sigs))"

definition updateScript :: "(tx_input, unit) action" where
  "updateScript = here (\<lambda>i. case in_class i of
     MultiSigScriptHashInput ms \<Rightarrow>
       bind (lift (buildP2SHMultisigIn (publicKeys ms) (threshold ms) (createSignatures (signatures ms))
                     (Some (redeemScript ms)) True))
            Input_setScript
   | _ \<Rightarrow> return ())"

definition set_signatures :: "(tx_signature option list \<Rightarrow> tx_signature option list) \<Rightarrow> tx_input \<Rightarrow> tx_input" where
  "set_signatures f i = (case in_class i of
     MultiSigScriptHashInput ms \<Rightarrow>
       i\<lparr> in_class := MultiSigScriptHashInput (ms\<lparr> signatures := f (signatures ms) \<rparr>) \<rparr>
   | _ \<Rightarrow> i)"

definition clearSignatures :: "(tx_input, unit) action" where
  "clearSignatures = here (\<lambda>i. case in_class i of
     PlainInput \<Rightarrow> throw (AbstractMethodInvoked ''Input#clearSignatures'')
   | PublicKeyHashInput \<Rightarrow> Input_setScript []
   | MultiSigScriptHashInput ms \<Rightarrow> block [
       modify (set_signatures (\<lambda>_. replicate (length (publicKeys ms)) None)),
       updateScript])"

definition countSignatures :: "multisig \<Rightarrow> int" where
  "countSignatures ms = int (length (filter (\<lambda>g. g \<noteq> None) (signatures ms)))"

definition countMissingSignatures :: "multisig \<Rightarrow> int" where
  "countMissingSignatures ms = threshold ms - countSignatures ms"

definition Input_isFullySigned :: "crypto \<Rightarrow> tx_input \<Rightarrow> exn + bool" where
  "Input_isFullySigned C i = (case in_class i of
     PlainInput \<Rightarrow> Inl (AbstractMethodInvoked ''Input#isFullySigned'')
   | PublicKeyHashInput \<Rightarrow> map_sum id (isPublicKeyHashIn C) (input_script i)
   | MultiSigScriptHashInput ms \<Rightarrow> Inr (countSignatures ms = threshold ms))"

definition Input_estimateSize :: "tx_input \<Rightarrow> exn + int" where
  "Input_estimateSize i = (case in_class i of
     PlainInput \<Rightarrow> map_sum id (\<lambda>b. int (length b)) (bw_concat (Input_toBufferWriter i))
   | PublicKeyHashInput \<Rightarrow> Inr (73 + 34)
   | MultiSigScriptHashInput ms \<Rightarrow> Inr (7 + threshold ms * 74 + int (length (publicKeys ms)) * 34))"

section \<open>Unspent outputs\<close>

record utxo =
  txId :: bytes
  utxo_outputIndex :: int
  utxo_script :: script
  utxo_satoshis :: jsnum

text \<open>\<^verbatim>\<open>new UnspentOutput(utxo)\<close>: the identifier is a non-empty hex string of at most 64 digits, and
  the script is copied by serializing and parsing it.\<close>

definition UnspentOutput :: "utxo \<Rightarrow> exn + utxo" where
  "UnspentOutput u =
    (if txId u = [] \<or> length (txId u) > 32 then Inl (GenericError ''Invalid TXID in object'')
     else case Script_toBuffer (utxo_script u) of Inl e \<Rightarrow> Inl e | Inr b \<Rightarrow>
       map_sum id (\<lambda>s. u\<lparr> utxo_script := s \<rparr>) (Script_fromBuffer b))"

section \<open>Transactions\<close>

record transaction =
  version :: int
  inputs :: "tx_input list"
  outputs :: "tx_output list"
  nLockTime :: int
  inputAmount_cache :: "jsnum option"
  outputAmount_cache :: "jsnum option"
  changeScript :: "script option"
  changeIndex :: "nat option"
  fee_option :: "jsnum option"

type_synonym 'a txm = "(transaction, 'a) action"

definition new_Transaction :: transaction where
  "new_Transaction = \<lparr> version = 1, inputs = [], outputs = [], nLockTime = 0, inputAmount_cache = None,
     outputAmount_cache = None, changeScript = None, changeIndex = None, fee_option = None \<rparr>"

abbreviation (input) DUST_AMOUNT :: jsnum where "DUST_AMOUNT \<equiv> Fin 546"
abbreviation (input) FEE_SECURITY_MARGIN :: jsnum where "FEE_SECURITY_MARGIN \<equiv> Fin 15"
abbreviation (input) FEE_PER_KB :: jsnum where "FEE_PER_KB \<equiv> Fin 1000"
abbreviation (input) CHANGE_OUTPUT_MAX_SIZE :: int where "CHANGE_OUTPUT_MAX_SIZE \<equiv> 20 + 4 + 34 + 4"
abbreviation (input) MAXIMUM_EXTRA_SIZE :: int where "MAXIMUM_EXTRA_SIZE \<equiv> 4 + 9 + 9 + 4"
abbreviation (input) NLOCKTIME_BLOCKHEIGHT_LIMIT :: int where "NLOCKTIME_BLOCKHEIGHT_LIMIT \<equiv> 500000000"

subsection \<open>Serialization\<close>

definition Transaction_toBufferWriter :: "transaction \<Rightarrow> writer" where
  "Transaction_toBufferWriter tx = block (
     [bw_writeUInt32LE (version tx), bw_writeVarintNum (int (length (inputs tx)))]
     @ map Input_toBufferWriter (inputs tx)
     @ [bw_writeVarintNum (int (length (outputs tx)))]
     @ map Output_toBufferWriter (outputs tx)
     @ [bw_writeUInt32LE (nLockTime tx)])"

definition Transaction_toBuffer :: "transaction \<Rightarrow> exn + bytes" where
  "Transaction_toBuffer tx = bw_concat (Transaction_toBufferWriter tx)"

definition Transaction_fromBufferReader :: "(BufferReader, transaction) action" where
  "Transaction_fromBufferReader = here (\<lambda>r. bind (checkArgument (\<not> br_finished r) ''No transaction data received'') (\<lambda>_.
     bind br_readUInt32LE (\<lambda>v. bind br_readVarintNum (\<lambda>ni. bind (br_times (nat ni) Input_fromBufferReader) (\<lambda>is.
     bind br_readVarintNum (\<lambda>no. bind (br_times (nat no) Output_fromBufferReader) (\<lambda>os.
     bind br_readUInt32LE (\<lambda>t.
       return (new_Transaction\<lparr> version := v, inputs := is, outputs := os, nLockTime := t \<rparr>)))))))))"

definition Transaction_fromBuffer :: "bytes \<Rightarrow> exn + transaction" where
  "Transaction_fromBuffer b = fst (Transaction_fromBufferReader (BufferReader b))"

definition shallowCopy :: "transaction \<Rightarrow> exn + transaction" where
  "shallowCopy tx = (case Transaction_toBuffer tx of Inl e \<Rightarrow> Inl e | Inr b \<Rightarrow> Transaction_fromBuffer b)"

definition Transaction_hash :: "crypto \<Rightarrow> transaction \<Rightarrow> exn + bytes" where
  "Transaction_hash C tx = map_sum id (\<lambda>b. rev (sha256sha256 C b)) (Transaction_toBuffer tx)"

subsection \<open>Totals\<close>

definition getOutputAmount :: "jsnum txm" where
  "getOutputAmount = here (\<lambda>tx. case outputAmount_cache tx of Some a \<Rightarrow> return a
     | None \<Rightarrow> (let a = foldl (+) 0 (map satoshis (outputs tx))
                in bind (modify (\<lambda>tx. tx\<lparr> outputAmount_cache := Some a \<rparr>)) (\<lambda>_. return a)))"

text \<open>The loop over the inputs; the partial sum it has reached is stored even when it throws.\<close>

fun sum_inputs :: "jsnum \<Rightarrow> tx_input list \<Rightarrow> (exn + unit) \<times> jsnum" where
  "sum_inputs a [] = (Inr (), a)"
| "sum_inputs a (i # is) = (case in_output i of
     None \<Rightarrow> (Inl MissingPreviousOutput, a)
   | Some out \<Rightarrow> sum_inputs (a + satoshis out) is)"

definition getInputAmount :: "jsnum txm" where
  "getInputAmount = here (\<lambda>tx. case inputAmount_cache tx of Some a \<Rightarrow> return a
     | None \<Rightarrow> (case sum_inputs 0 (inputs tx) of (r, a) \<Rightarrow>
         bind (modify (\<lambda>tx. tx\<lparr> inputAmount_cache := Some a \<rparr>)) (\<lambda>_.
           bind (lift r) (\<lambda>_. return a))))"

definition getUnspentValue :: "jsnum txm" where
  "getUnspentValue = bind getInputAmount (\<lambda>i. bind getOutputAmount (\<lambda>out. return (i - out)))"

subsection \<open>Fees\<close>

fun sum_sizes :: "int \<Rightarrow> (exn + int) list \<Rightarrow> exn + int" where
  "sum_sizes n [] = Inr n"
| "sum_sizes n (x # xs) = (case x of Inl e \<Rightarrow> Inl e | Inr k \<Rightarrow> sum_sizes (n + k) xs)"

definition Output_estimateSize :: "tx_output \<Rightarrow> exn + int" where
  "Output_estimateSize out = (case output_script out of Inl e \<Rightarrow> Inl e
     | Inr s \<Rightarrow> map_sum id (\<lambda>b. int (length b) + 9) (Script_toBuffer s))"

definition estimateSize :: "transaction \<Rightarrow> exn + int" where
  "estimateSize tx = sum_sizes MAXIMUM_EXTRA_SIZE
     (map Input_estimateSize (inputs tx) @ map Output_estimateSize (outputs tx))"

definition estimateFee_of :: "int \<Rightarrow> jsnum \<Rightarrow> jsnum" where
  "estimateFee_of size0 amountAvailable =
    (let fee = js_ceil (IntN size0 / FEE_PER_KB);
         size1 = (if amountAvailable > fee then size0 + CHANGE_OUTPUT_MAX_SIZE else size0)
     in js_ceil (IntN size1 / Fin 1000) * FEE_PER_KB)"

definition estimateFee :: "jsnum txm" where
  "estimateFee = bind (here (\<lambda>tx. lift (estimateSize tx))) (\<lambda>n.
     bind getUnspentValue (\<lambda>a. return (estimateFee_of n a)))"

definition getFee :: "jsnum txm" where
  "getFee = here (\<lambda>tx. if changeScript tx = None then getUnspentValue
     else case fee_option tx of None \<Rightarrow> estimateFee | Some f \<Rightarrow> return f)"

subsection \<open>Outputs and change\<close>

definition Transaction_clearSignatures :: "unit txm" where
  "Transaction_clearSignatures = zoom inputs (\<lambda>is tx. tx\<lparr> inputs := is \<rparr>) (each clearSignatures)"

definition removeOutput_raw :: "nat \<Rightarrow> transaction \<Rightarrow> transaction" where
  "removeOutput_raw n tx =
    tx\<lparr> outputs := take n (outputs tx) @ drop (Suc n) (outputs tx), outputAmount_cache := None \<rparr>"

definition addOutput_raw :: "tx_output \<Rightarrow> transaction \<Rightarrow> transaction" where
  "addOutput_raw out tx = tx\<lparr> outputs := outputs tx @ [out], outputAmount_cache := None \<rparr>"

definition drop_change :: "transaction \<Rightarrow> transaction" where
  "drop_change tx = (case changeIndex tx of None \<Rightarrow> tx | Some n \<Rightarrow> removeOutput_raw n tx)"

definition place_change :: "script \<Rightarrow> unit txm" where
  "place_change cs = bind getUnspentValue (\<lambda>available. bind getFee (\<lambda>fee.
     let changeAmount = available - fee in
     if changeAmount > 0 then block [
       modify (\<lambda>tx. tx\<lparr> changeIndex := Some (length (outputs tx)) \<rparr>),
       bind (lift (new_Output cs changeAmount)) (\<lambda>out. modify (addOutput_raw out))]
     else modify (\<lambda>tx. tx\<lparr> changeIndex := None \<rparr>)))"

definition updateChangeOutput :: "unit txm" where
  "updateChangeOutput = here (\<lambda>tx. case changeScript tx of None \<Rightarrow> return ()
     | Some cs \<Rightarrow> block [Transaction_clearSignatures, modify drop_change, place_change cs])"

definition addOutput :: "tx_output \<Rightarrow> unit txm" where
  "addOutput out = block [modify (addOutput_raw out), updateChangeOutput]"

definition removeOutput :: "nat \<Rightarrow> unit txm" where
  "removeOutput n = block [modify (removeOutput_raw n), updateChangeOutput]"

definition tx_to :: "address \<Rightarrow> jsnum \<Rightarrow> unit txm" where
  "tx_to a amount = bind (lift (Script_fromAddress a)) (\<lambda>s. bind (lift (new_Output s amount)) addOutput)"

definition tx_addData :: "bytes option \<Rightarrow> unit txm" where
  "tx_addData d = bind (lift (buildDataOut d)) (\<lambda>s. bind (lift (new_Output s 0)) addOutput)"

definition tx_change :: "address \<Rightarrow> unit txm" where
  "tx_change a = bind (lift (Script_fromAddress a)) (\<lambda>s. block [
     modify (\<lambda>tx. tx\<lparr> changeScript := Some s \<rparr>), updateChangeOutput])"

definition tx_fee :: "jsnum \<Rightarrow> unit txm" where
  "tx_fee amount = block [modify (\<lambda>tx. tx\<lparr> fee_option := Some amount \<rparr>), updateChangeOutput]"

definition getChangeOutput :: "transaction \<Rightarrow> tx_output option" where
  "getChangeOutput tx = (case changeIndex tx of None \<Rightarrow> None
     | Some n \<Rightarrow> if n < length (outputs tx) then Some (outputs tx ! n) else None)"

text \<open>\<^verbatim>\<open>_newOutputOrder\<close>: the new order is given by the old positions of the outputs.\<close>

definition newOutputOrder :: "nat list \<Rightarrow> unit txm" where
  "newOutputOrder order = here (\<lambda>tx.
     let k = length (takeWhile (\<lambda>j. changeIndex tx \<noteq> Some j) (take (length (outputs tx)) order)) in
     if k = length (outputs tx) then throw InvalidSorting
     else modify (\<lambda>tx. tx\<lparr> outputs := map ((!) (outputs tx)) order, changeIndex := Some k \<rparr>))"

subsection \<open>Inputs\<close>

definition uncheckedAddInput :: "tx_input \<Rightarrow> unit txm" where
  "uncheckedAddInput i = block [
     modify (\<lambda>tx. tx\<lparr> inputs := inputs tx @ [i], inputAmount_cache := None \<rparr>), updateChangeOutput]"

text \<open>\<^verbatim>\<open>addInput\<close> with an input alone; its two optional arguments are never passed.\<close>

definition addInput :: "tx_input \<Rightarrow> unit txm" where
  "addInput i = (if in_output i = None
     then throw (GenericError ''Need information about the UTXO script and satoshis'')
     else uncheckedAddInput i)"

definition fromNonP2SH :: "utxo \<Rightarrow> unit txm" where
  "fromNonP2SH u = bind (lift (UnspentOutput u)) (\<lambda>u.
     bind (lift (new_Output (utxo_script u) (utxo_satoshis u))) (\<lambda>out.
       addInput (new_Input (Some out) (txId u) (utxo_outputIndex u)
         (if isPublicKeyHashOut (utxo_script u) then PublicKeyHashInput else PlainInput))))"

definition fromMultisigUtxo :: "crypto \<Rightarrow> utxo \<Rightarrow> bytes list \<Rightarrow> int \<Rightarrow> unit txm" where
  "fromMultisigUtxo C u pubkeys m =
    bind (checkArgument (m \<le> int (length pubkeys))
            ''Number of required signatures must be greater than the number of public keys'') (\<lambda>_.
    bind (lift (UnspentOutput u)) (\<lambda>u.
    bind (lift (new_Output (utxo_script u) (utxo_satoshis u))) (\<lambda>out.
    bind (lift (new_MultiSigScriptHashInput C out (txId u) (utxo_outputIndex u) pubkeys m)) addInput)))"

definition spends :: "tx_input \<Rightarrow> utxo \<Rightarrow> bool" where
  "spends i u \<longleftrightarrow> prevTxId i = txId u \<and> outputIndex i = utxo_outputIndex u"

text \<open>\<^verbatim>\<open>from\<close>; the optional keys and threshold are passed together, the threshold not zero.\<close>

definition tx_from :: "crypto \<Rightarrow> utxo \<Rightarrow> (bytes list \<times> int) option \<Rightarrow> unit txm" where
  "tx_from C u ks = here (\<lambda>tx. if list_ex (\<lambda>i. spends i u) (inputs tx) then return ()
     else case ks of
       Some (pubkeys, m) \<Rightarrow> if m \<noteq> 0 then fromMultisigUtxo C u pubkeys m else fromNonP2SH u
     | None \<Rightarrow> fromNonP2SH u)"

definition hasAllUtxoInfo :: "transaction \<Rightarrow> bool" where
  "hasAllUtxoInfo tx = list_all (\<lambda>i. in_output i \<noteq> None) (inputs tx)"

definition removeInput :: "nat \<Rightarrow> unit txm" where
  "removeInput n = here (\<lambda>tx. if n \<ge> length (inputs tx) then throw InvalidIndex
     else block [
       modify (\<lambda>tx. tx\<lparr> inputs := take n (inputs tx) @ drop (Suc n) (inputs tx), inputAmount_cache := None \<rparr>),
       updateChangeOutput])"

text \<open>\<^verbatim>\<open>removeInput(txId, outputIndex)\<close>: the first input that spends that output, found by \<^verbatim>\<open>_.findIndex\<close>.\<close>

definition removeInput_ref :: "bytes \<Rightarrow> int \<Rightarrow> unit txm" where
  "removeInput_ref txid n = here (\<lambda>tx.
     removeInput (length (takeWhile (\<lambda>i. \<not> (prevTxId i = txid \<and> outputIndex i = n)) (inputs tx))))"

definition isCoinbase :: "transaction \<Rightarrow> bool" where
  "isCoinbase tx \<longleftrightarrow> length (inputs tx) = 1 \<and> isNull (inputs tx ! 0)"

subsection \<open>Lock times\<close>

text \<open>\<^verbatim>\<open>lockUntilDate\<close> with a Number and \<^verbatim>\<open>lockUntilBlockHeight\<close>.\<close>

definition lockUntilDate :: "int \<Rightarrow> unit txm" where
  "lockUntilDate t = bind (checkArgument (t \<noteq> 0) []) (\<lambda>_.
     if t < NLOCKTIME_BLOCKHEIGHT_LIMIT then throw (GenericError ''LockTimeTooEarly'')
     else modify (\<lambda>tx. tx\<lparr> nLockTime := t \<rparr>))"

definition lockUntilBlockHeight :: "int \<Rightarrow> unit txm" where
  "lockUntilBlockHeight h =
    (if h \<ge> NLOCKTIME_BLOCKHEIGHT_LIMIT then throw (GenericError ''BlockHeightTooHigh'')
     else if h < 0 then throw (GenericError ''NLockTimeOutOfRange'')
     else modify (\<lambda>tx. tx\<lparr> nLockTime := h \<rparr>))"

datatype lock_time = NoLock | LockHeight int | LockDate int

definition getLockTime :: "transaction \<Rightarrow> lock_time" where
  "getLockTime tx = (if nLockTime tx = 0 then NoLock
     else if nLockTime tx < NLOCKTIME_BLOCKHEIGHT_LIMIT then LockHeight (nLockTime tx)
     else LockDate (1000 * nLockTime tx))"

section \<open>Serialization round trip\<close>

text \<open>What parsing keeps of an output, an input and a transaction.\<close>

definition strip_output :: "tx_output \<Rightarrow> tx_output" where
  "strip_output out = out\<lparr> satoshis := bn_toNumber (satoshisBN out), out_script := None \<rparr>"

definition strip_input :: "tx_input \<Rightarrow> tx_input" where
  "strip_input i = i\<lparr> in_script := None, in_output := None, in_class := PlainInput \<rparr>"

definition strip :: "transaction \<Rightarrow> transaction" where
  "strip tx = new_Transaction\<lparr> version := version tx, inputs := map strip_input (inputs tx),
     outputs := map strip_output (outputs tx), nLockTime := nLockTime tx \<rparr>"

abbreviation u32 :: "int \<Rightarrow> bool" where
  "u32 n \<equiv> 0 \<le> n \<and> n < 2 ^ 32"

definition output_ok :: "tx_output \<Rightarrow> bool" where
  "output_ok out \<longleftrightarrow> 0 \<le> satoshisBN out \<and> satoshisBN out < 2 ^ 64 \<and> length (out_scriptBuffer out) < 2 ^ 31"

definition input_ok :: "tx_input \<Rightarrow> bool" where
  "input_ok i \<longleftrightarrow> length (prevTxId i) = 32 \<and> u32 (outputIndex i) \<and> u32 (sequenceNumber i)
     \<and> length (in_scriptBuffer i) < 2 ^ 31"

definition tx_ok :: "transaction \<Rightarrow> bool" where
  "tx_ok tx \<longleftrightarrow> u32 (version tx) \<and> u32 (nLockTime tx) \<and> list_all input_ok (inputs tx) \<and> list_all output_ok (outputs tx)
     \<and> length (inputs tx) < 2 ^ 31 \<and> length (outputs tx) < 2 ^ 31"

definition output_wire :: "tx_output \<Rightarrow> bytes" where
  "output_wire out = le_bytes 8 (satoshisBN out) @ varbuf_wire (out_scriptBuffer out)"

definition input_wire :: "tx_input \<Rightarrow> bytes" where
  "input_wire i = rev (prevTxId i) @ le_bytes 4 (outputIndex i) @ varbuf_wire (in_scriptBuffer i)
     @ le_bytes 4 (sequenceNumber i)"

definition tx_wire :: "transaction \<Rightarrow> bytes" where
  "tx_wire tx = le_bytes 4 (version tx) @ varint_wire (int (length (inputs tx))) @ concat (map input_wire (inputs tx))
     @ varint_wire (int (length (outputs tx))) @ concat (map output_wire (outputs tx)) @ le_bytes 4 (nLockTime tx)"

lemma len_varint_ok: "length xs < 2 ^ 31 \<Longrightarrow> varint_ok (int (length xs))"
  by simp

lemma writes_output: "output_ok out \<Longrightarrow> writes (Output_toBufferWriter out) (output_wire out)"
  unfolding Output_toBufferWriter_def output_wire_def varbuf_wire_def output_ok_def
  by (intro writes_three uint64.writes_wire varint.writes_wire writes_write) simp_all

lemma parses_output: "output_ok out \<Longrightarrow> parses Output_fromBufferReader (output_wire out) (strip_output out)"
proof -
  assume ok: "output_ok out"
  let ?b = "out_scriptBuffer out"
  have n: "varint_ok (int (length ?b))" using ok by (simp add: output_ok_def)
  have rd: "parses (if int (length ?b) \<noteq> 0 then br_read (int (length ?b)) else return []) ?b ?b"
    by (cases "?b = []") (simp_all add: parses_return parses_read)
  have bn: "parses br_readUInt64LEBN (le_bytes 8 (satoshisBN out)) (satoshisBN out)"
    using ok by (intro uint64.parses_wire) (simp add: output_ok_def)
  show ?thesis
    unfolding Output_fromBufferReader_def output_wire_def varbuf_wire_def
    by (rule parses_bind[OF bn], rule parses_bind[OF varint.parses_wire[OF n]], rule parses_bind_return[OF rd, THEN back_subst[of "parses _ _"]])
       (simp add: strip_output_def)
qed

lemma writes_input: "input_ok i \<Longrightarrow> writes (Input_toBufferWriter i) (input_wire i)"
proof -
  assume ok: "input_ok i"
  let ?b = "in_scriptBuffer i"
  have n: "varint_ok (int (length ?b))" using ok by (simp add: input_ok_def)
  have "writes (Input_toBufferWriter i) (rev (prevTxId i) @ le_bytes 4 (outputIndex i) @ varint_wire (int (length ?b))
      @ ?b @ le_bytes 4 (sequenceNumber i) @ [])"
    unfolding Input_toBufferWriter_def using ok
    by (intro writes_Cons writes_Nil writes_writeReverse uint32.writes_wire varint.writes_wire[OF n] writes_write)
       (simp_all add: input_ok_def)
  then show ?thesis by (simp add: input_wire_def varbuf_wire_def)
qed

lemma parses_input: "input_ok i \<Longrightarrow> parses Input_fromBufferReader (input_wire i) (strip_input i)"
proof -
  assume ok: "input_ok i"
  have h: "parses (br_readReverse 32) (rev (prevTxId i)) (prevTxId i)"
    using ok by (intro parses_readReverse) (simp add: input_ok_def)
  have n: "parses br_readUInt32LE (le_bytes 4 (outputIndex i)) (outputIndex i)"
    and q: "parses br_readUInt32LE (le_bytes 4 (sequenceNumber i)) (sequenceNumber i)"
    using ok by (auto intro!: uint32.parses_wire simp: input_ok_def)
  have b: "parses br_readVarLengthBuffer (varbuf_wire (in_scriptBuffer i)) (in_scriptBuffer i)"
    using ok by (intro varbuf.parses_wire) (simp add: input_ok_def)
  show ?thesis
    unfolding Input_fromBufferReader_def input_wire_def
    by (rule parses_bind[OF h], rule parses_bind[OF n], rule parses_bind[OF b],
        rule parses_bind_return[OF q, THEN back_subst[of "parses _ _"]]) (simp add: strip_input_def)
qed

interpretation output_codec: codec Output_toBufferWriter Output_fromBufferReader output_wire
  "\<lambda>out. output_ok out \<and> strip_output out = out"
  by unfold_locales (auto intro: writes_output dest: parses_output)

interpretation input_codec: codec Input_toBufferWriter Input_fromBufferReader input_wire
  "\<lambda>i. input_ok i \<and> strip_input i = i"
  by unfold_locales (auto intro: writes_input dest: parses_input)

lemma writes_map: "\<forall>x \<in> set xs. writes (f x) (w x) \<Longrightarrow> writes (block (map f xs)) (concat (map w xs))"
proof (induction xs)
  case (Cons x xs)
  then show ?case using writes_Cons[of "f x" "w x" "map f xs"] by simp
qed (simp add: writes_Nil)

lemma writes_tx: "tx_ok tx \<Longrightarrow> writes (Transaction_toBufferWriter tx) (tx_wire tx)"
proof -
  assume ok: "tx_ok tx"
  have ni: "varint_ok (int (length (inputs tx)))" and no: "varint_ok (int (length (outputs tx)))"
    using ok by (simp_all add: tx_ok_def)
  have v: "writes (bw_writeUInt32LE (version tx)) (le_bytes 4 (version tx))"
    and t: "writes (bw_writeUInt32LE (nLockTime tx)) (le_bytes 4 (nLockTime tx))"
    using ok by (auto intro!: uint32.writes_wire simp: tx_ok_def)
  have i: "writes (block (map Input_toBufferWriter (inputs tx))) (concat (map input_wire (inputs tx)))"
    and out: "writes (block (map Output_toBufferWriter (outputs tx))) (concat (map output_wire (outputs tx)))"
    using ok by (auto intro!: writes_map writes_input writes_output simp: tx_ok_def list_all_iff)
  from writes_append[OF writes_two[OF v varint.writes_wire[OF ni]] writes_append[OF i
        writes_append[OF writes_single[OF varint.writes_wire[OF no]] writes_append[OF out writes_single[OF t]]]]]
  show ?thesis by (simp add: Transaction_toBufferWriter_def tx_wire_def)
qed

lemma parses_here_check:
  assumes "parses p bs x" and "bs \<noteq> []"
  shows "parses (here (\<lambda>r. bind (checkArgument (\<not> br_finished r) msg) (\<lambda>_. p))) bs x"
  using assms by (cases bs) (auto simp: parses_def here_def bind_def checkArgument_def br_finished_def)

lemma parses_tx: "tx_ok tx \<Longrightarrow> parses Transaction_fromBufferReader (tx_wire tx) (strip tx)"
proof -
  assume ok: "tx_ok tx"
  have ni: "varint_ok (int (length (inputs tx)))" and no: "varint_ok (int (length (outputs tx)))"
    using ok by (simp_all add: tx_ok_def)
  have v: "parses br_readUInt32LE (le_bytes 4 (version tx)) (version tx)"
    and t: "parses br_readUInt32LE (le_bytes 4 (nLockTime tx)) (nLockTime tx)"
    using ok by (auto intro!: uint32.parses_wire simp: tx_ok_def)
  have i: "parses (br_times (nat (int (length (inputs tx)))) Input_fromBufferReader)
      (concat (map input_wire (inputs tx))) (map strip_input (inputs tx))"
    using ok by (simp only: nat_int) (intro parses_times, auto intro!: parses_input simp: tx_ok_def list_all_iff)
  have out: "parses (br_times (nat (int (length (outputs tx)))) Output_fromBufferReader)
      (concat (map output_wire (outputs tx))) (map strip_output (outputs tx))"
    using ok by (simp only: nat_int) (intro parses_times, auto intro!: parses_output simp: tx_ok_def list_all_iff)
  show ?thesis unfolding Transaction_fromBufferReader_def
  proof (rule parses_here_check)
    show "tx_wire tx \<noteq> []" by (simp add: tx_wire_def varint_wire_def)
    show "parses (bind br_readUInt32LE (\<lambda>v. bind br_readVarintNum (\<lambda>ni. bind (br_times (nat ni) Input_fromBufferReader) (\<lambda>is.
     bind br_readVarintNum (\<lambda>no. bind (br_times (nat no) Output_fromBufferReader) (\<lambda>os.
     bind br_readUInt32LE (\<lambda>t.
       return (new_Transaction\<lparr> version := v, inputs := is, outputs := os, nLockTime := t \<rparr>)))))))) (tx_wire tx) (strip tx)"
      unfolding tx_wire_def strip_def
      by (rule parses_bind[OF v], rule parses_bind[OF varint.parses_wire[OF ni]], rule parses_bind[OF i],
          rule parses_bind[OF varint.parses_wire[OF no]], rule parses_bind[OF out], rule parses_bind_return[OF t])
  qed
qed

lemma toBuffer_wire: "tx_ok tx \<Longrightarrow> Transaction_toBuffer tx = Inr (tx_wire tx)"
  unfolding Transaction_toBuffer_def by (intro writesD writes_tx)

lemma fromBuffer_wire:
  "tx_ok tx \<Longrightarrow> length (tx_wire tx) < 2 ^ 31 \<Longrightarrow> Transaction_fromBuffer (tx_wire tx) = Inr (strip tx)"
  using parsesD[OF parses_tx, of tx "[]"] by (simp add: Transaction_fromBuffer_def)

lemma strip_ok [simp]: "tx_ok (strip tx) = tx_ok tx" "tx_wire (strip tx) = tx_wire tx"
  by (auto simp: strip_def tx_ok_def tx_wire_def list_all_iff strip_input_def strip_output_def input_ok_def
      output_ok_def input_wire_def output_wire_def o_def new_Transaction_def cong: map_cong)

section \<open>Totals, fees and change on whole amounts\<close>

definition int_sats :: "tx_output \<Rightarrow> int" where
  "int_sats out = (case satoshis out of Fin a \<Rightarrow> trunc a | _ \<Rightarrow> 0)"

definition funded :: "tx_input \<Rightarrow> bool" where
  "funded i \<longleftrightarrow> (case in_output i of None \<Rightarrow> False
     | Some out \<Rightarrow> satoshis out = IntN (int_sats out) \<and> 0 \<le> int_sats out)"

definition in_total :: "tx_input list \<Rightarrow> int" where
  "in_total is = sum_list (map (\<lambda>i. int_sats (the (in_output i))) is)"

lemma in_total_nonneg: "list_all funded is \<Longrightarrow> 0 \<le> in_total is"
  by (induction "is") (auto simp: in_total_def funded_def split: option.splits)

lemma sum_inputs_append:
  "list_all funded is \<Longrightarrow> 0 \<le> a \<Longrightarrow> a + in_total is \<le> 2 ^ 53 \<Longrightarrow>
   sum_inputs (IntN a) (is @ js) = sum_inputs (IntN (a + in_total is)) js"
proof (induction "is" arbitrary: a)
  case (Cons i "is")
  then obtain out where out: "in_output i = Some out" "satoshis out = IntN (int_sats out)" "0 \<le> int_sats out"
    by (auto simp: funded_def split: option.splits)
  have t: "in_total (i # is) = int_sats out + in_total is" using out by (simp add: in_total_def)
  have "0 \<le> in_total is" using Cons.prems by (intro in_total_nonneg) simp
  then have "IntN a + satoshis out = IntN (a + int_sats out)"
    using Cons.prems out(2,3) t by (simp only: out(2)) (rule Int_plus, simp)
  then show ?case using Cons.IH[of "a + int_sats out"] Cons.prems out t by (simp add: add.assoc)
qed (simp add: in_total_def)

lemma sum_inputs_exact:
  "list_all funded is \<Longrightarrow> 0 \<le> a \<Longrightarrow> a + in_total is \<le> 2 ^ 53 \<Longrightarrow>
   sum_inputs (IntN a) is = (Inr (), IntN (a + in_total is))"
  using sum_inputs_append[of "is" a "[]"] by simp

text \<open>Inputs as \<^verbatim>\<open>clearSignatures\<close> leaves them.\<close>

definition cleared :: "tx_input \<Rightarrow> tx_input" where
  "cleared i = i\<lparr> in_script := Some [], in_scriptBuffer := [] \<rparr>"

definition pkh :: "tx_input \<Rightarrow> bool" where
  "pkh i \<longleftrightarrow> in_class i = PublicKeyHashInput"

lemma toBuffer_Nil [simp]: "Script_toBuffer [] = Inr []"
  by (simp add: Script_toBuffer_def bw_concat_def)

lemma clearSignatures_pkh: "pkh i \<Longrightarrow> clearSignatures i = (Inr (), cleared i)"
  by (simp add: clearSignatures_def here_def pkh_def Input_setScript_def block_Cons modify_def bind_def lift_def cleared_def)

lemma each_pure: "(\<And>x. x \<in> set xs \<Longrightarrow> m x = (Inr (), f x)) \<Longrightarrow> each m xs = (Inr (), map f xs)"
  by (induction xs) simp_all

lemma tx_clearSignatures_pkh:
  "list_all pkh (inputs tx) \<Longrightarrow> Transaction_clearSignatures tx = (Inr (), tx\<lparr> inputs := map cleared (inputs tx) \<rparr>)"
  by (simp add: Transaction_clearSignatures_def zoom_def each_pure[of _ clearSignatures cleared]
      clearSignatures_pkh list_all_iff)

lemma cleared_simps [simp]:
  "funded (cleared i) = funded i" "pkh (cleared i) = pkh i" "in_total (map cleared is) = in_total is"
  "cleared (cleared i) = cleared i"
  "in_output (cleared i) = in_output i" "prevTxId (cleared i) = prevTxId i" "outputIndex (cleared i) = outputIndex i"
  by (simp_all add: funded_def pkh_def cleared_def in_total_def o_def)

lemma sum_sizes_pkh:
  "list_all pkh is \<Longrightarrow> sum_sizes n (map Input_estimateSize is @ xs) = sum_sizes (n + 107 * int (length is)) xs"
  by (induction "is" arbitrary: n) (simp_all add: pkh_def Input_estimateSize_def algebra_simps)

text \<open>Bytes rounded up to kilobytes, at 1000 satoshis each.\<close>

definition kb_fee :: "int \<Rightarrow> int" where
  "kb_fee n = 1000 * ((n + 999) div 1000)"

lemma kb_fee_bounds: "0 \<le> n \<Longrightarrow> 0 \<le> kb_fee n" "kb_fee n \<le> n + 999" "n \<le> kb_fee n"
proof -
  have *: "(n + 999) div 1000 * 1000 + (n + 999) mod 1000 = n + 999" by (rule div_mult_mod_eq)
  have "0 \<le> (n + 999) mod 1000" "(n + 999) mod 1000 < 1000" by simp_all
  then show "kb_fee n \<le> n + 999" and ge: "n \<le> kb_fee n" using * by (auto simp: kb_fee_def)
  show "0 \<le> kb_fee n" if "0 \<le> n" using ge that by linarith
qed

lemma estimateFee_of_exact:
  assumes "0 \<le> n" "n < 2 ^ 39" "(n + 999) div 1000 < a"
  shows "estimateFee_of n (IntN a) = IntN (kb_fee (n + 62))"
proof -
  have c0: "js_ceil (IntN n / Fin 1000) = IntN ((n + 999) div 1000)" using assms by (intro js_ceil_div) simp_all
  have c1: "js_ceil (IntN (n + 62) / Fin 1000) = IntN ((n + 62 + 999) div 1000)" using assms by (intro js_ceil_div) simp_all
  have "\<bar>(n + 62 + 999) div 1000 * 1000\<bar> \<le> 2 ^ 53"
    using kb_fee_bounds[of "n + 62"] assms by (simp add: kb_fee_def)
  from Int_times[OF this] have "IntN ((n + 62 + 999) div 1000) * Fin 1000 = IntN (kb_fee (n + 62))"
    by (simp add: kb_fee_def mult.commute)
  moreover have "IntN ((n + 999) div 1000) < IntN a" using assms(3) by simp
  ultimately show ?thesis unfolding estimateFee_of_def Let_def using c0 c1 by (simp only: if_True) simp
qed

text \<open>
  A transaction that pays only its change output, the state in which the commitment transaction of
  a channel is kept: the inputs are signed with one key each and carry whole amounts.
\<close>

definition change_only :: "transaction \<Rightarrow> bool" where
  "change_only tx \<longleftrightarrow> fee_option tx = None \<and> list_all pkh (inputs tx) \<and> list_all funded (inputs tx)
     \<and> in_total (inputs tx) \<le> 2 ^ 53 \<and> length (inputs tx) < 2 ^ 31
     \<and> inputAmount_cache tx \<in> {None, Some (IntN (in_total (inputs tx)))}
     \<and> (case changeIndex tx of None \<Rightarrow> outputs tx = [] \<and> outputAmount_cache tx \<in> {None, Some 0}
        | Some n \<Rightarrow> n = 0 \<and> length (outputs tx) = 1)"

definition pkh_size :: "nat \<Rightarrow> int" where
  "pkh_size n = 26 + 107 * int n"

definition change_fee :: "transaction \<Rightarrow> int" where
  "change_fee tx = kb_fee (pkh_size (length (inputs tx)) + 62)"

definition change_output :: "script \<Rightarrow> int \<Rightarrow> tx_output" where
  "change_output s v = \<lparr> satoshis = IntN v, satoshisBN = bn_fromNumber (IntN v),
     out_scriptBuffer = concat (map chunk_wire s), out_script = Some s \<rparr>"

lemma new_Output_change: "list_all fits_chunk s \<Longrightarrow> new_Output s (IntN v) = Inr (change_output s v)"
  by (simp add: new_Output_def fits_toBuffer change_output_def)

lemma getInputAmount_run:
  assumes "list_all funded (inputs tx)" "in_total (inputs tx) \<le> 2 ^ 53"
    "inputAmount_cache tx \<in> {None, Some (IntN (in_total (inputs tx)))}"
  shows "getInputAmount tx
    = (Inr (IntN (in_total (inputs tx))), tx\<lparr> inputAmount_cache := Some (IntN (in_total (inputs tx))) \<rparr>)"
proof (cases "inputAmount_cache tx")
  case None
  with sum_inputs_exact[of "inputs tx" 0] assms show ?thesis
    by (simp add: getInputAmount_def here_def bind_def modify_def lift_def return_def zero_jsnum_def)
next
  case (Some a)
  then have "tx\<lparr> inputAmount_cache := Some a \<rparr> = tx" by simp
  with Some assms(3) show ?thesis by (auto simp: getInputAmount_def here_def return_def)
qed

lemma getOutputAmount_run_Nil:
  assumes "outputs tx = []" "outputAmount_cache tx \<in> {None, Some 0}"
  shows "getOutputAmount tx = (Inr 0, tx\<lparr> outputAmount_cache := Some 0 \<rparr>)"
proof (cases "outputAmount_cache tx")
  case None
  with assms show ?thesis
    by (simp add: getOutputAmount_def here_def bind_def modify_def return_def Let_def)
next
  case (Some a)
  then have "tx\<lparr> outputAmount_cache := Some a \<rparr> = tx" by simp
  with Some assms show ?thesis by (auto simp: getOutputAmount_def here_def return_def)
qed

abbreviation counted :: "transaction \<Rightarrow> transaction" where
  "counted tx \<equiv> tx\<lparr> inputAmount_cache := Some (IntN (in_total (inputs tx))), outputAmount_cache := Some 0 \<rparr>"

lemma Int_minus_0: "\<bar>n\<bar> \<le> 2 ^ 53 \<Longrightarrow> IntN n - 0 = IntN n"
  using Int_minus[of n 0] by (simp add: zero_jsnum_def)

lemma getUnspentValue_run_Nil:
  assumes "outputs tx = []" "outputAmount_cache tx \<in> {None, Some 0}" "list_all funded (inputs tx)"
    "in_total (inputs tx) \<le> 2 ^ 53" "inputAmount_cache tx \<in> {None, Some (IntN (in_total (inputs tx)))}"
  shows "getUnspentValue tx = (Inr (IntN (in_total (inputs tx))), counted tx)"
proof -
  have "IntN (in_total (inputs tx)) - 0 = IntN (in_total (inputs tx))"
    using assms(4) in_total_nonneg[OF assms(3)] by (intro Int_minus_0) simp
  then show ?thesis unfolding getUnspentValue_def bind_def getInputAmount_run[OF assms(3,4,5)]
    using getOutputAmount_run_Nil[of "tx\<lparr> inputAmount_cache := Some (IntN (in_total (inputs tx))) \<rparr>"] assms(1,2)
    by (simp add: return_def)
qed

lemma estimateSize_pkh: "list_all pkh (inputs tx) \<Longrightarrow> outputs tx = [] \<Longrightarrow> estimateSize tx = Inr (pkh_size (length (inputs tx)))"
  using sum_sizes_pkh[of "inputs tx" 26 "[]"] by (simp add: estimateSize_def pkh_size_def)

lemma getFee_run_Nil:
  assumes "outputs tx = []" "outputAmount_cache tx \<in> {None, Some 0}" "change_only (tx\<lparr> changeIndex := None \<rparr>)"
    "changeScript tx = Some cs" "change_fee tx < in_total (inputs tx)"
  shows "getFee tx = (Inr (IntN (change_fee tx)), counted tx)"
proof -
  let ?n = "pkh_size (length (inputs tx))"
  have co: "list_all pkh (inputs tx)" "list_all funded (inputs tx)" "in_total (inputs tx) \<le> 2 ^ 53"
    "inputAmount_cache tx \<in> {None, Some (IntN (in_total (inputs tx)))}" "length (inputs tx) < 2 ^ 31" "fee_option tx = None"
    using assms(3) by (auto simp: change_only_def)
  have n: "0 \<le> ?n" "?n < 2 ^ 39" using co(5) by (simp_all add: pkh_size_def)
  have "(?n + 999) div 1000 \<le> kb_fee (?n + 62)"
  proof -
    have "(?n + 999) div 1000 \<le> (?n + 62 + 999) div 1000" by (intro zdiv_mono1) simp_all
    also have "\<dots> \<le> kb_fee (?n + 62)" using n by (simp add: kb_fee_def)
    finally show ?thesis .
  qed
  then have "(?n + 999) div 1000 < in_total (inputs tx)" using assms(5) by (simp add: change_fee_def)
  from estimateFee_of_exact[OF n this] show ?thesis
    using getUnspentValue_run_Nil[OF assms(1,2) co(2,3,4)] estimateSize_pkh[OF co(1) assms(1)] assms(4) co(6)
    by (simp add: getFee_def estimateFee_def here_def bind_def lift_def return_def change_fee_def)
qed

lemma place_change_run:
  assumes nil: "outputs tx = []" "outputAmount_cache tx \<in> {None, Some 0}"
    and co: "change_only (tx\<lparr> changeIndex := None \<rparr>)" and cs: "changeScript tx = Some cs" "list_all fits_chunk cs"
    and enough: "change_fee tx < in_total (inputs tx)"
  shows "place_change cs tx = (Inr (), tx\<lparr> outputs := [change_output cs (in_total (inputs tx) - change_fee tx)],
     inputAmount_cache := Some (IntN (in_total (inputs tx))), outputAmount_cache := None, changeIndex := Some 0 \<rparr>)"
proof -
  let ?A = "in_total (inputs tx)" and ?F = "change_fee tx"
  have A: "0 \<le> ?A" "?A \<le> 2 ^ 53" using co in_total_nonneg[of "inputs tx"] by (auto simp: change_only_def)
  have F: "0 \<le> ?F" unfolding change_fee_def by (intro kb_fee_bounds) (simp add: pkh_size_def)
  have unspent: "getUnspentValue tx = (Inr (IntN ?A), counted tx)"
    using co nil by (intro getUnspentValue_run_Nil) (auto simp: change_only_def)
  have "change_only (counted tx\<lparr> changeIndex := None \<rparr>)" using co nil by (simp add: change_only_def)
  then have fee: "getFee (counted tx) = (Inr (IntN ?F), counted tx)"
    using getFee_run_Nil[of "counted tx" cs] nil cs enough by (simp add: change_fee_def)
  have diff: "IntN ?A - IntN ?F = IntN (?A - ?F)" using A F enough by (intro Int_minus) simp
  have pos: "0 < IntN (?A - ?F)" using enough by (simp add: zero_jsnum_def)
  show ?thesis
    unfolding place_change_def bind_def unspent
    by (simp only: prod.case sum.case fee diff Let_def pos if_True new_Output_change[OF cs(2)])
       (simp add: block_Cons modify_def lift_def addOutput_raw_def nil)
qed

lemma updateChangeOutput_change_only:
  assumes co: "change_only tx" and cs: "changeScript tx = Some cs" "list_all fits_chunk cs"
    and enough: "change_fee tx < in_total (inputs tx)"
  shows "updateChangeOutput tx = (Inr (), tx\<lparr> inputs := map cleared (inputs tx),
     outputs := [change_output cs (in_total (inputs tx) - change_fee tx)],
     inputAmount_cache := Some (IntN (in_total (inputs tx))), outputAmount_cache := None, changeIndex := Some 0 \<rparr>)"
proof -
  define t where "t = drop_change (tx\<lparr> inputs := map cleared (inputs tx) \<rparr>)"
  have pkh: "list_all pkh (inputs tx)" using co by (auto simp: change_only_def)
  have t: "outputs t = []" "outputAmount_cache t \<in> {None, Some 0}" "inputs t = map cleared (inputs tx)"
    "changeScript t = Some cs" "change_fee t = change_fee tx" "change_only (t\<lparr> changeIndex := None \<rparr>)"
    using co cs(1) unfolding t_def
    by (auto simp: change_only_def removeOutput_raw_def drop_change_def change_fee_def list_all_iff split: option.splits)
  have "updateChangeOutput tx = place_change cs t"
    using cs(1) by (simp add: updateChangeOutput_def here_def block_Cons tx_clearSignatures_pkh[OF pkh] modify_def t_def
        split: prod.split sum.split)
  also have "\<dots> = (Inr (), t\<lparr> outputs := [change_output cs (in_total (inputs tx) - change_fee tx)],
     inputAmount_cache := Some (IntN (in_total (inputs tx))), outputAmount_cache := None, changeIndex := Some 0 \<rparr>)"
    using place_change_run[OF t(1,2,6,4) cs(2)] t(3,5) enough by simp
  finally show ?thesis by (simp add: t_def drop_change_def removeOutput_raw_def split: option.split)
qed

section \<open>Theorems\<close>

text \<open>
  C21: a transaction whose fields fit their widths is serialized without error, and parsing the bytes gives back
  the version, the inputs, the outputs and the lock time; only what the wire does not carry is lost.
\<close>

theorem tx_roundtrip:
  assumes "tx_ok tx"
  shows "\<exists>b. Transaction_toBuffer tx = Inr b \<and> (length b < 2 ^ 31 \<longrightarrow> Transaction_fromBuffer b = Inr (strip tx)
    \<and> Transaction_toBuffer (strip tx) = Inr b \<and> Transaction_hash C (strip tx) = Transaction_hash C tx)"
  using assms by (simp add: toBuffer_wire fromBuffer_wire Transaction_hash_def)

definition sample_output :: tx_output where
  "sample_output = change_output (p2pkh (replicate 20 7)) 5000"

definition sample_input :: tx_input where
  "sample_input = new_Input (Some sample_output) (replicate 32 1) 0 PublicKeyHashInput"

definition sample_tx :: transaction where
  "sample_tx = new_Transaction\<lparr> inputs := [sample_input], changeScript := Some (p2pkh (replicate 20 9)) \<rparr>"

lemma sample_ok: "tx_ok sample_tx" "length (tx_wire sample_tx) < 2 ^ 31" "change_only sample_tx" "in_total (inputs sample_tx) = 5000"
  by (simp_all add: sample_tx_def sample_input_def sample_output_def tx_ok_def input_ok_def new_Input_def new_Transaction_def
      tx_wire_def input_wire_def varbuf_wire_def varint_wire_def change_only_def pkh_def funded_def int_sats_def change_output_def in_total_def
      trunc_of_int[of 5000, simplified])

theorem tx_roundtrip_witness:
  "\<exists>b. Transaction_toBuffer sample_tx = Inr b \<and> (length b < 2 ^ 31 \<longrightarrow> Transaction_fromBuffer b = Inr (strip sample_tx)
    \<and> Transaction_toBuffer (strip sample_tx) = Inr b \<and> Transaction_hash sample_crypto (strip sample_tx) = Transaction_hash sample_crypto sample_tx)"
  by (rule tx_roundtrip[OF sample_ok(1)])



text \<open>
  C39: when an input in the middle lacks its previous output, the first call of \<^verbatim>\<open>_getInputAmount\<close> throws
  \<^verbatim>\<open>MissingPreviousOutput\<close>, but it has stored the sum of the inputs before it, and the second call returns
  that partial sum as the amount.
\<close>

theorem getInputAmount_partial:
  assumes "inputs tx = is @ i # js" "list_all funded is" "in_total is \<le> 2 ^ 53" "in_output i = None" "inputAmount_cache tx = None"
  shows "fst (getInputAmount tx) = Inl MissingPreviousOutput
    \<and> fst (getInputAmount (snd (getInputAmount tx))) = Inr (IntN (in_total is))"
proof -
  have "sum_inputs (IntN 0) (is @ i # js) = (Inl MissingPreviousOutput, IntN (in_total is))"
    using sum_inputs_append[of "is" 0 "i # js"] assms by simp
  then show ?thesis
    using assms by (simp add: getInputAmount_def here_def bind_def modify_def lift_def return_def zero_jsnum_def)
qed

theorem getInputAmount_partial_witness:
  "fst (getInputAmount (snd (getInputAmount (sample_tx\<lparr> inputs := [sample_input, sample_input\<lparr> in_output := None \<rparr>] \<rparr>)))) = Inr (IntN 5000)"
proof -
  have "funded sample_input" "in_total [sample_input] = 5000"
    using sample_ok(3,4) by (simp_all add: change_only_def sample_tx_def)
  with getInputAmount_partial[of "sample_tx\<lparr> inputs := [sample_input, sample_input\<lparr> in_output := None \<rparr>] \<rparr>" "[sample_input]"
      "sample_input\<lparr> in_output := None \<rparr>" "[]"]
  show ?thesis by (simp add: sample_tx_def new_Transaction_def)
qed

end
