(* ===== verification/Signing.thy ===== *)
theory Signing
  imports Transactions DER
begin

unbundle bit_operations_syntax

text \<open>
  Signing in \<^verbatim>\<open>bitcore.js\<close>: the signature hash, and how inputs and transactions make, check and store
  signatures. A signature object is its DER encoding with the hash type beside it. The theorems
  show what each hash type commits to, and that signing a transaction whose inputs pay to the
  signing key leaves it fully signed.
\<close>

section \<open>Signature hash\<close>

primrec traverse :: "('a \<Rightarrow> exn + 'b) \<Rightarrow> 'a list \<Rightarrow> exn + 'b list" where
  "traverse f [] = Inr []"
| "traverse f (x # xs) = (case f x of Inl e \<Rightarrow> Inl e
     | Inr y \<Rightarrow> (case traverse f xs of Inl e \<Rightarrow> Inl e | Inr ys \<Rightarrow> Inr (y # ys)))"

text \<open>\<^verbatim>\<open>new Input(i).setScript(s)\<close>; the constructor reads the script of \<open>i\<close>, which may not parse.\<close>

definition reinput :: "script \<Rightarrow> tx_input \<Rightarrow> exn + tx_input" where
  "reinput s i = (case input_script i of Inl e \<Rightarrow> Inl e | Inr _ \<Rightarrow>
     map_sum id (\<lambda>b. i\<lparr> in_scriptBuffer := b, in_script := Some s, in_class := PlainInput \<rparr>) (Script_toBuffer s))"

definition copy_subscript :: "script \<Rightarrow> exn + script" where
  "copy_subscript s = (case Script_toBuffer s of Inl e \<Rightarrow> Inl e
     | Inr b \<Rightarrow> map_sum id removeCodeseparators (Script_fromBuffer b))"

definition clear_sequences :: "nat \<Rightarrow> tx_input list \<Rightarrow> tx_input list" where
  "clear_sequences n is = map (\<lambda>(k, i). if k \<noteq> n then i\<lparr> sequenceNumber := 0 \<rparr> else i) (enumerate 0 is)"

text \<open>The output with all bits set in its value and no script that \<^verbatim>\<open>SIGHASH_SINGLE\<close> puts in front.\<close>

definition blank_output :: tx_output where
  "blank_output = \<lparr> satoshis = bn_toNumber (2 ^ 64 - 1), satoshisBN = 2 ^ 64 - 1, out_scriptBuffer = [],
     out_script = Some [] \<rparr>"

definition hash_outputs :: "int \<Rightarrow> nat \<Rightarrow> tx_output list \<Rightarrow> tx_output list" where
  "hash_outputs base n os =
    (if base = SIGHASH_NONE then []
     else if base = SIGHASH_SINGLE then replicate n blank_output @ take 1 (drop n os)
     else os)"

text \<open>
  The transaction that is hashed; \<open>None\<close> is the constant answer to \<^verbatim>\<open>SIGHASH_SINGLE\<close> without a
  matching output. An input number past the end leaves a hole or an input without a transaction
  id in the copy, which cannot be serialized.
\<close>

definition sighash_tx :: "transaction \<Rightarrow> int \<Rightarrow> nat \<Rightarrow> script \<Rightarrow> exn + transaction option" where
  "sighash_tx tx sighashType n subscript =
    (case shallowCopy tx of Inl e \<Rightarrow> Inl e | Inr txcopy \<Rightarrow>
     case copy_subscript subscript of Inl e \<Rightarrow> Inl e | Inr s \<Rightarrow>
     case traverse (reinput []) (inputs txcopy) of Inl e \<Rightarrow> Inl e | Inr is \<Rightarrow>
     let base = sighashType AND 31;
         bug = (base = SIGHASH_SINGLE \<and> n \<ge> length (outputs txcopy))
     in if n \<ge> length is then (if bug then Inr None else Inl (GenericError ''AssertionError''))
        else case reinput s (is ! n) of Inl e \<Rightarrow> Inl e | Inr i \<Rightarrow>
          if bug then Inr None
          else let is1 = is[n := i];
                   is2 = (if base = SIGHASH_NONE \<or> base = SIGHASH_SINGLE then clear_sequences n is1 else is1);
                   is3 = (if sighashType AND SIGHASH_ANYONECANPAY \<noteq> 0 then [is2 ! n] else is2)
               in Inr (Some (txcopy\<lparr> inputs := is3, outputs := hash_outputs base n (outputs txcopy) \<rparr>)))"

definition sighash_preimage :: "transaction \<Rightarrow> int \<Rightarrow> exn + bytes" where
  "sighash_preimage tx sighashType = (case Transaction_toBuffer tx of Inl e \<Rightarrow> Inl e
     | Inr b \<Rightarrow> bw_concat (block [bw_write b, bw_writeInt32LE sighashType]))"

definition SIGHASH_SINGLE_BUG :: bytes where
  "SIGHASH_SINGLE_BUG = replicate 31 0 @ [1]"

definition sighash :: "crypto \<Rightarrow> transaction \<Rightarrow> int \<Rightarrow> nat \<Rightarrow> script \<Rightarrow> exn + bytes" where
  "sighash C tx sighashType n subscript = (case sighash_tx tx sighashType n subscript of
     Inl e \<Rightarrow> Inl e
   | Inr None \<Rightarrow> Inr SIGHASH_SINGLE_BUG
   | Inr (Some t) \<Rightarrow> map_sum id (\<lambda>b. rev (sha256sha256 C b)) (sighash_preimage t sighashType))"

definition Sighash_sign :: "crypto \<Rightarrow> transaction \<Rightarrow> bytes \<Rightarrow> int \<Rightarrow> nat \<Rightarrow> script \<Rightarrow> exn + bytes" where
  "Sighash_sign C tx privateKey sighashType n subscript =
    map_sum id (ecdsa_sign C privateKey) (sighash C tx sighashType n subscript)"

definition Sighash_verify :: "crypto \<Rightarrow> transaction \<Rightarrow> bytes \<Rightarrow> int \<Rightarrow> bytes \<Rightarrow> nat \<Rightarrow> script \<Rightarrow> exn + bool" where
  "Sighash_verify C tx der nhashtype publicKey n subscript =
    map_sum id (\<lambda>h. ecdsa_verify C publicKey der h) (sighash C tx nhashtype n subscript)"

section \<open>Signatures of an input\<close>

definition make_signature :: "crypto \<Rightarrow> transaction \<Rightarrow> bytes \<Rightarrow> nat \<Rightarrow> int \<Rightarrow> tx_input \<Rightarrow> script \<Rightarrow> exn + tx_signature" where
  "make_signature C tx privateKey n ty i s = map_sum id
     (\<lambda>der. \<lparr> sig_publicKey = privToPub C privateKey, sig_prevTxId = prevTxId i, sig_outputIndex = outputIndex i,
              sig_inputIndex = n, sig_der = der, sigtype = ty \<rparr>)
     (Sighash_sign C tx privateKey ty n s)"

definition default_sigtype :: "int \<Rightarrow> int" where
  "default_sigtype ty = (if ty = 0 then SIGHASH_ALL else ty)"

definition Input_getSignatures ::
    "crypto \<Rightarrow> transaction \<Rightarrow> bytes \<Rightarrow> nat \<Rightarrow> int \<Rightarrow> bytes \<Rightarrow> tx_input \<Rightarrow> exn + tx_signature list" where
  "Input_getSignatures C tx privateKey n ty hashData i = (case in_class i of
     PlainInput \<Rightarrow> Inl (AbstractMethodInvoked ''Trying to sign unsupported output type'')
   | PublicKeyHashInput \<Rightarrow> (case in_output i of None \<Rightarrow> Inl (InvalidState []) | Some out \<Rightarrow>
       case output_script out of Inl e \<Rightarrow> Inl e | Inr s \<Rightarrow>
       case getPublicKeyHash s of Inl e \<Rightarrow> Inl e | Inr h \<Rightarrow>
       if hashData = h
       then map_sum id (\<lambda>g. [g]) (make_signature C tx privateKey n (default_sigtype ty) i s)
       else Inr [])
   | MultiSigScriptHashInput ms \<Rightarrow> (case in_output i of None \<Rightarrow> Inl (InvalidState []) | Some out \<Rightarrow>
       traverse (\<lambda>_. make_signature C tx privateKey n (default_sigtype ty) i (redeemScript ms))
         (filter (\<lambda>k. k = privToPub C privateKey) (publicKeys ms))))"

definition Input_isValidSignature :: "crypto \<Rightarrow> transaction \<Rightarrow> tx_signature \<Rightarrow> tx_input \<Rightarrow> exn + bool" where
  "Input_isValidSignature C tx g i = (case in_class i of
     MultiSigScriptHashInput ms \<Rightarrow>
       Sighash_verify C tx (sig_der g) (sigtype g) (sig_publicKey g) (sig_inputIndex g) (redeemScript ms)
   | _ \<Rightarrow> (case in_output i of None \<Rightarrow> Inl (TypeError ''undefined has no properties'') | Some out \<Rightarrow>
       case output_script out of Inl e \<Rightarrow> Inl e | Inr s \<Rightarrow>
       Sighash_verify C tx (sig_der g) (sigtype g) (sig_publicKey g) (sig_inputIndex g) s))"

text \<open>\<^verbatim>\<open>publicKeyIndex\<close>: the last position of a key, where the index object was written last.\<close>

definition publicKeyIndex :: "bytes list \<Rightarrow> bytes \<Rightarrow> nat option" where
  "publicKeyIndex ks k = (if k \<in> set ks then Some (length ks - 1 - length (takeWhile (\<lambda>x. x \<noteq> k) (rev ks))) else None)"

definition Input_addSignature :: "crypto \<Rightarrow> transaction \<Rightarrow> tx_signature \<Rightarrow> (tx_input, unit) action" where
  "Input_addSignature C tx g = here (\<lambda>i. case in_class i of
     PlainInput \<Rightarrow> throw (AbstractMethodInvoked ''Input#addSignature'')
   | PublicKeyHashInput \<Rightarrow> bind (lift (Input_isValidSignature C tx g i)) (\<lambda>ok. block [
       checkState ok ''Signature is invalid'',
       bind (lift (buildPublicKeyHashIn (sig_publicKey g) (sig_der g) (sigtype g))) Input_setScript])
   | MultiSigScriptHashInput ms \<Rightarrow> block [
       checkState (countSignatures ms \<noteq> threshold ms) ''All needed signatures have already been added'',
       (case publicKeyIndex (publicKeys ms) (sig_publicKey g) of
          None \<Rightarrow> throw (InvalidArgument ''Signature has no matching public key'')
        | Some k \<Rightarrow> bind (lift (Input_isValidSignature C tx g i)) (\<lambda>ok. block [
            checkState ok [],
            modify (set_signatures (\<lambda>gs. gs[k := Some g])),
            updateScript]))])"

section \<open>Signatures of a transaction\<close>

definition at_input :: "nat \<Rightarrow> (tx_input, unit) action \<Rightarrow> unit txm" where
  "at_input n m tx = (if n < length (inputs tx)
     then (case m (inputs tx ! n) of (r, i) \<Rightarrow> (r, tx\<lparr> inputs := (inputs tx)[n := i] \<rparr>))
     else (Inl (TypeError ''undefined has no properties''), tx))"

definition applySignature :: "crypto \<Rightarrow> tx_signature \<Rightarrow> unit txm" where
  "applySignature C g = here (\<lambda>tx. at_input (sig_inputIndex g) (Input_addSignature C tx g))"

definition getSignatures :: "crypto \<Rightarrow> bytes \<Rightarrow> int \<Rightarrow> transaction \<Rightarrow> exn + tx_signature list" where
  "getSignatures C privKey ty tx = map_sum id concat
     (traverse (\<lambda>(n, i). Input_getSignatures C tx privKey n (default_sigtype ty)
                  (sha256ripemd160 C (privToPub C privKey)) i)
        (enumerate 0 (inputs tx)))"

definition Transaction_sign :: "crypto \<Rightarrow> bytes \<Rightarrow> int \<Rightarrow> unit txm" where
  "Transaction_sign C privateKey ty = here (\<lambda>tx. block [
     checkState (hasAllUtxoInfo tx) [],
     bind (lift (getSignatures C privateKey ty tx)) (\<lambda>gs. block (map (applySignature C) gs))])"

definition isFullySigned :: "crypto \<Rightarrow> transaction \<Rightarrow> exn + bool" where
  "isFullySigned C tx =
    (if list_ex (\<lambda>i. in_class i = PlainInput) (inputs tx) then Inl UnableToVerifySignature
     else map_sum id (list_all id) (traverse (Input_isFullySigned C) (inputs tx)))"

text \<open>
  \<^verbatim>\<open>Transaction.isValidSignature\<close> compares the method of the input with the one of \<^verbatim>\<open>Input\<close>, which
  \<^verbatim>\<open>PublicKeyHashInput\<close> inherits; so only multisignature inputs get an answer.
\<close>

definition Transaction_isValidSignature :: "crypto \<Rightarrow> tx_signature \<Rightarrow> transaction \<Rightarrow> exn + bool" where
  "Transaction_isValidSignature C g tx =
    (if sig_inputIndex g < length (inputs tx)
     then let i = inputs tx ! sig_inputIndex g in
       (case in_class i of MultiSigScriptHashInput _ \<Rightarrow> Input_isValidSignature C tx g i
        | _ \<Rightarrow> Inl UnableToVerifySignature)
     else Inl (TypeError ''undefined has no properties''))"

section \<open>Checks before a transaction is serialized\<close>

datatype serialization_error = ChangeAddressMissing | FeeTooLarge | FeeTooSmall | DustOutputs | MissingSignatures

record serialize_opts =
  disableLargeFees :: bool
  disableSmallFees :: bool
  disableDustOutputs :: bool
  disableIsFullySigned :: bool
  disableMoreOutputThanInput :: bool

definition isFeeTooLarge :: "bool txm" where
  "isFeeTooLarge = bind getUnspentValue (\<lambda>fee. bind estimateFee (\<lambda>est.
     return (fee > js_floor (FEE_SECURITY_MARGIN * est))))"

definition isFeeTooSmall :: "bool txm" where
  "isFeeTooSmall = bind getUnspentValue (\<lambda>fee. bind estimateFee (\<lambda>est.
     return (fee < js_ceil (est / FEE_SECURITY_MARGIN))))"

fun hasDustOutputs :: "tx_output list \<Rightarrow> exn + bool" where
  "hasDustOutputs [] = Inr False"
| "hasDustOutputs (out # os) =
    (if satoshis out < DUST_AMOUNT
     then (case output_script out of Inl e \<Rightarrow> Inl e
           | Inr s \<Rightarrow> if \<not> isDataOut s then Inr True else hasDustOutputs os)
     else hasDustOutputs os)"

text \<open>
  \<^verbatim>\<open>getSerializationError\<close>. Its last test is \<^verbatim>\<open>this._getUnspentValue < 0\<close>, which compares the method
  itself with a number and is never true; the option that guards it has no effect.
\<close>

definition getSerializationError :: "crypto \<Rightarrow> serialize_opts \<Rightarrow> serialization_error option txm" where
  "getSerializationError C opts =
    bind isFeeTooLarge (\<lambda>feeIsTooLarge. bind isFeeTooSmall (\<lambda>feeIsTooSmall.
    bind (here (\<lambda>tx. lift (isFullySigned C tx))) (\<lambda>fullySigned.
    bind (here (\<lambda>tx. lift (hasDustOutputs (outputs tx)))) (\<lambda>dust.
    here (\<lambda>tx. return (
      if \<not> disableLargeFees opts \<and> feeIsTooLarge
      then Some (if changeScript tx = None then ChangeAddressMissing else FeeTooLarge)
      else if \<not> disableSmallFees opts \<and> feeIsTooSmall then Some FeeTooSmall
      else if \<not> disableDustOutputs opts \<and> dust then Some DustOutputs
      else if \<not> disableIsFullySigned opts \<and> \<not> fullySigned then Some MissingSignatures
      else None))))))"

section \<open>What is hashed\<close>

lemma traverse_Inr: "(\<And>x. x \<in> set xs \<Longrightarrow> f x = Inr (g x)) \<Longrightarrow> traverse f xs = Inr (map g xs)"
  by (induction xs) simp_all

definition scripts_parse :: "transaction \<Rightarrow> bool" where
  "scripts_parse tx = list_all (\<lambda>i. \<not> isl (Script_fromBuffer (in_scriptBuffer i))) (inputs tx)"

definition blanked :: "tx_input \<Rightarrow> tx_input" where
  "blanked i = (strip_input i)\<lparr> in_scriptBuffer := [], in_script := Some [] \<rparr>"

definition with_script :: "script \<Rightarrow> bytes \<Rightarrow> tx_input \<Rightarrow> tx_input" where
  "with_script s b i = (strip_input i)\<lparr> in_scriptBuffer := b, in_script := Some s \<rparr>"

definition hash_inputs :: "int \<Rightarrow> nat \<Rightarrow> script \<Rightarrow> bytes \<Rightarrow> tx_input list \<Rightarrow> tx_input list" where
  "hash_inputs ty n s b is =
    (let is1 = (map blanked is)[n := with_script s b (is ! n)];
         is2 = (if ty AND 31 = SIGHASH_NONE \<or> ty AND 31 = SIGHASH_SINGLE then clear_sequences n is1 else is1)
     in if ty AND SIGHASH_ANYONECANPAY \<noteq> 0 then [is2 ! n] else is2)"

definition hash_copy :: "transaction \<Rightarrow> int \<Rightarrow> nat \<Rightarrow> script \<Rightarrow> bytes \<Rightarrow> transaction" where
  "hash_copy tx ty n s b = (strip tx)\<lparr> inputs := hash_inputs ty n s b (inputs tx),
     outputs := hash_outputs (ty AND 31) n (map strip_output (outputs tx)) \<rparr>"

definition hashable :: "transaction \<Rightarrow> bool" where
  "hashable tx \<longleftrightarrow> tx_ok tx \<and> length (tx_wire tx) < 2 ^ 31 \<and> scripts_parse tx"

lemma reinput_strip:
  "\<not> isl (Script_fromBuffer (in_scriptBuffer i)) \<Longrightarrow> reinput [] (strip_input i) = Inr (blanked i)"
  by (auto simp: reinput_def input_script_def script_getter_def strip_input_def blanked_def split: sum.splits)

lemma reinput_blanked: "Script_toBuffer s = Inr b \<Longrightarrow> reinput s (blanked i) = Inr (with_script s b i)"
  by (simp add: reinput_def input_script_def script_getter_def strip_input_def blanked_def with_script_def)

lemma shallowCopy_strip: "hashable tx \<Longrightarrow> shallowCopy tx = Inr (strip tx)"
  by (simp add: hashable_def shallowCopy_def toBuffer_wire fromBuffer_wire)

lemma strip_sel [simp]:
  "inputs (strip tx) = map strip_input (inputs tx)" "outputs (strip tx) = map strip_output (outputs tx)"
  "version (strip tx) = version tx" "nLockTime (strip tx) = nLockTime tx"
  by (simp_all add: strip_def)

lemma sighash_tx_run:
  assumes tx: "hashable tx" and sub: "copy_subscript sub = Inr s" "Script_toBuffer s = Inr b" and n: "n < length (inputs tx)"
  shows "sighash_tx tx ty n sub =
    (if ty AND 31 = SIGHASH_SINGLE \<and> n \<ge> length (outputs tx) then Inr None else Inr (Some (hash_copy tx ty n s b)))"
proof -
  have "traverse (reinput []) (map strip_input (inputs tx)) = Inr (map blanked (inputs tx))"
    using tx by (subst traverse_Inr[where g = "\<lambda>i. i\<lparr> in_scriptBuffer := [], in_script := Some [] \<rparr>"])
      (auto simp: hashable_def scripts_parse_def list_all_iff reinput_strip blanked_def)
  moreover have "reinput s (map blanked (inputs tx) ! n) = Inr (with_script s b (inputs tx ! n))"
    using n sub(2) by (simp add: reinput_blanked)
  ultimately show ?thesis using n sub(1)
    by (simp add: sighash_tx_def shallowCopy_strip[OF tx] Let_def hash_copy_def hash_inputs_def del: One_nat_def)
qed

lemma sighash_run:
  assumes "hashable tx" "copy_subscript sub = Inr s" "Script_toBuffer s = Inr b" "n < length (inputs tx)"
  shows "sighash C tx ty n sub =
    (if ty AND 31 = SIGHASH_SINGLE \<and> n \<ge> length (outputs tx) then Inr SIGHASH_SINGLE_BUG
     else map_sum id (\<lambda>b. rev (sha256sha256 C b)) (sighash_preimage (hash_copy tx ty n s b) ty))"
  by (simp add: sighash_def sighash_tx_run[OF assms])

lemma length_clear_sequences [simp]: "length (clear_sequences n is) = length is"
  by (simp add: clear_sequences_def)

lemma nth_clear_sequences [simp]: "n < length is \<Longrightarrow> clear_sequences n is ! n = is ! n"
  by (simp add: clear_sequences_def nth_enumerate_eq)

lemma hash_inputs_anyonecanpay:
  "ty AND SIGHASH_ANYONECANPAY \<noteq> 0 \<Longrightarrow> n < length is \<Longrightarrow> hash_inputs ty n s b is = [with_script s b (is ! n)]"
  by (simp add: hash_inputs_def Let_def)

lemma strip_eqI: "version tx = version tx' \<Longrightarrow> nLockTime tx = nLockTime tx' \<Longrightarrow>
   (strip tx)\<lparr> inputs := is, outputs := os \<rparr> = (strip tx')\<lparr> inputs := is, outputs := os \<rparr>"
  by (simp add: strip_def)

lemma writes_Int32LE: "- (2 ^ 31) \<le> n \<Longrightarrow> n < 2 ^ 31 \<Longrightarrow> writes (bw_writeInt32LE n) (le_bytes 4 n)"
  by (auto simp: bw_writeInt32LE_def writeInt32LE_def checkInt_def bytes32_le intro!: writes_lift)

lemma preimage_wire:
  assumes "tx_ok t" "- (2 ^ 31) \<le> ty" "ty < 2 ^ 31"
  shows "sighash_preimage t ty = Inr (tx_wire t @ le_bytes 4 ty)"
  unfolding sighash_preimage_def toBuffer_wire[OF assms(1)]
  using writesD[OF writes_two[OF writes_write writes_Int32LE[OF assms(2,3)]]] by simp

lemma strip_idem [simp]:
  "strip_input (strip_input i) = strip_input i" "strip_output (strip_output out) = strip_output out"
  "strip (strip tx) = strip tx"
  by (simp_all add: strip_input_def strip_output_def strip_def o_def)

interpretation tx_codec: codec Transaction_toBufferWriter Transaction_fromBufferReader tx_wire
  "\<lambda>tx. tx_ok tx \<and> strip tx = tx"
  by unfold_locales (auto intro: writes_tx dest: parses_tx)

lemma wire_determines:
  assumes "tx_ok t" "tx_ok t'" "tx_wire t @ p = tx_wire t' @ q" "length (tx_wire t) + length p < 2 ^ 31"
  shows "strip t = strip t'"
  using tx_codec.wire_prefix_free[of "strip t" "strip t'" p q] assms by simp

lemma hash_inputs_all:
  "ty AND 31 \<noteq> SIGHASH_NONE \<Longrightarrow> ty AND 31 \<noteq> SIGHASH_SINGLE \<Longrightarrow> ty AND SIGHASH_ANYONECANPAY = 0 \<Longrightarrow>
   hash_inputs ty n s b is = (map blanked is)[n := with_script s b (is ! n)]"
  by (simp add: hash_inputs_def Let_def)

text \<open>What every input contributes to a hash that covers all of them.\<close>

definition spend_ref :: "tx_input \<Rightarrow> bytes \<times> int \<times> int" where
  "spend_ref i = (prevTxId i, outputIndex i, sequenceNumber i)"

lemma spend_ref_simps [simp]:
  "spend_ref (blanked i) = spend_ref i" "spend_ref (with_script s b i) = spend_ref i" "spend_ref (strip_input i) = spend_ref i"
  by (simp_all add: spend_ref_def blanked_def with_script_def strip_input_def)

lemma map_update_same: "f y = f (xs ! n) \<Longrightarrow> map f (xs[n := y]) = map f xs"
  by (metis list_update_id map_update)

lemma map_update_map: "g y = f (xs ! n) \<Longrightarrow> (\<And>x. g (h x) = f x) \<Longrightarrow> map g ((map h xs)[n := y]) = map f xs"
proof (rule nth_equalityI)
  assume *: "g y = f (xs ! n)" "\<And>x. g (h x) = f x"
  show "map g ((map h xs)[n := y]) ! k = map f xs ! k" if "k < length (map g ((map h xs)[n := y]))" for k
    using that * by (cases "k = n") simp_all
qed simp

lemma hash_copy_all_ok:
  assumes "hashable tx" "length b < 2 ^ 31" "n < length (inputs tx)"
    "ty AND 31 \<noteq> SIGHASH_NONE" "ty AND 31 \<noteq> SIGHASH_SINGLE" "ty AND SIGHASH_ANYONECANPAY = 0"
  shows "tx_ok (hash_copy tx ty n s b)"
proof -
  have i: "input_ok (blanked i)" "input_ok (with_script s b i)" if "i \<in> set (inputs tx)" for i
    using that assms(1,2) by (auto simp: hashable_def tx_ok_def list_all_iff input_ok_def blanked_def with_script_def strip_input_def)
  have "list_all input_ok ((map blanked (inputs tx))[n := with_script s b (inputs tx ! n)])"
    using i assms(3) by (auto simp: list_all_iff dest!: set_update_subset_insert[THEN subsetD])
  moreover have "list_all output_ok (map strip_output (outputs tx))"
    using assms(1) by (auto simp: hashable_def tx_ok_def list_all_iff output_ok_def strip_output_def)
  ultimately show ?thesis using assms(1,4,5)
    by (simp add: hash_copy_def hash_inputs_all[OF assms(4,5,6)] hash_outputs_def hashable_def tx_ok_def)
qed

section \<open>Signing with one key\<close>

text \<open>Transactions that hash alike whatever input scripts they carry.\<close>

definition same_shape :: "transaction \<Rightarrow> transaction \<Rightarrow> bool" where
  "same_shape tx tx' \<longleftrightarrow> version tx = version tx' \<and> nLockTime tx = nLockTime tx' \<and> outputs tx = outputs tx'
     \<and> map blanked (inputs tx) = map blanked (inputs tx')"

lemma with_script_blanked: "with_script s b i = (blanked i)\<lparr> in_scriptBuffer := b, in_script := Some s \<rparr>"
  by (simp add: with_script_def blanked_def)

lemma hash_copy_shape:
  assumes "same_shape tx tx'" "n < length (inputs tx)"
  shows "hash_copy tx ty n s b = hash_copy tx' ty n s b"
proof -
  have len: "length (inputs tx) = length (inputs tx')" using assms(1) unfolding same_shape_def by (metis length_map)
  then have "blanked (inputs tx ! n) = blanked (inputs tx' ! n)"
    using assms unfolding same_shape_def by (metis nth_map)
  then have "hash_inputs ty n s b (inputs tx) = hash_inputs ty n s b (inputs tx')"
    using assms(1) by (simp add: hash_inputs_def with_script_blanked same_shape_def)
  then show ?thesis using assms(1) unfolding hash_copy_def same_shape_def by (metis strip_eqI)
qed

lemma sighash_shape:
  assumes "same_shape tx tx'" "hashable tx" "hashable tx'" "n < length (inputs tx)"
    "copy_subscript sub = Inr s" "Script_toBuffer s = Inr b"
  shows "sighash C tx ty n sub = sighash C tx' ty n sub"
proof -
  have "n < length (inputs tx')" using assms(1,4) unfolding same_shape_def by (metis length_map)
  then show ?thesis
    using assms(1) by (simp add: sighash_run[OF assms(2,5,6,4)] sighash_run[OF assms(3,5,6)] hash_copy_shape[OF assms(1,4)]
        same_shape_def)
qed

definition sig_script :: "bytes \<Rightarrow> bytes \<Rightarrow> int \<Rightarrow> script" where
  "sig_script pub der ty = [key_chunk (der @ [word_of_int ty]), key_chunk pub]"

lemma buildPublicKeyHashIn_sig:
  "length der < 75 \<Longrightarrow> length pub < 76 \<Longrightarrow> ty \<noteq> 0 \<Longrightarrow> buildPublicKeyHashIn pub der ty = Inr (sig_script pub der ty)"
  unfolding buildPublicKeyHashIn_def by (subst addBuffers_keys) (simp_all add: sig_script_def)

lemma wf_sig_script: "length der < 75 \<Longrightarrow> length pub < 76 \<Longrightarrow> pub \<noteq> [] \<Longrightarrow> list_all wf_chunk (sig_script pub der ty)"
  by (simp add: sig_script_def key_chunk_def wf_chunk_def)

definition sig_bytes :: "bytes \<Rightarrow> bytes \<Rightarrow> int \<Rightarrow> bytes" where
  "sig_bytes pub der ty = concat (map chunk_wire (sig_script pub der ty))"

lemma length_sig_bytes: "length der < 75 \<Longrightarrow> length pub < 76 \<Longrightarrow> length (sig_bytes pub der ty) \<le> 153"
  by (simp add: sig_bytes_def sig_script_def key_chunk_def chunk_wire_def push_width_def)

text \<open>A key as \<^verbatim>\<open>PrivateKey\<close> and \<^verbatim>\<open>ECDSA\<close> provide it: its public key is valid, and its signatures are DER encodings of the usual
  lengths that verify.\<close>

definition good_key :: "crypto \<Rightarrow> bytes \<Rightarrow> bool" where
  "good_key C k \<longleftrightarrow> pk_valid C (privToPub C k) \<and> pk_fromBuffer C (privToPub C k) = Some (privToPub C k)
     \<and> (length (privToPub C k) = 33 \<or> length (privToPub C k) = 65)
     \<and> length (sha256ripemd160 C (privToPub C k)) = 20
     \<and> (\<forall>h. 70 \<le> length (ecdsa_sign C k h) \<and> length (ecdsa_sign C k h) \<le> 72
            \<and> is_der (ecdsa_sign C k h) \<and> ecdsa_verify C (privToPub C k) (ecdsa_sign C k h) h)"

abbreviation key_hash :: "crypto \<Rightarrow> bytes \<Rightarrow> bytes" where
  "key_hash C k \<equiv> sha256ripemd160 C (privToPub C k)"

definition pays_key :: "bytes \<Rightarrow> tx_input \<Rightarrow> bool" where
  "pays_key h i \<longleftrightarrow> pkh i \<and> (case in_output i of None \<Rightarrow> False | Some out \<Rightarrow> out_script out = Some (p2pkh h))"

definition small_script :: "tx_input \<Rightarrow> bool" where
  "small_script i \<longleftrightarrow> length (in_scriptBuffer i) \<le> 153 \<and> \<not> isl (Script_fromBuffer (in_scriptBuffer i))"

definition signable :: "crypto \<Rightarrow> bytes \<Rightarrow> transaction \<Rightarrow> bool" where
  "signable C k tx \<longleftrightarrow> tx_ok tx \<and> list_all (pays_key (key_hash C k)) (inputs tx) \<and> list_all small_script (inputs tx)
     \<and> 210 * length (inputs tx) + length (concat (map output_wire (outputs tx))) + 26 < 2 ^ 31"

lemma length_input_wire: "small_script i \<Longrightarrow> input_ok i \<Longrightarrow> length (input_wire i) \<le> 210"
  using length_varint_wire(2)[of "int (length (in_scriptBuffer i))"]
  by (simp add: input_wire_def varbuf_wire_def small_script_def input_ok_def)

lemma length_concat_bound: "(\<And>x. x \<in> set xs \<Longrightarrow> length (f x) \<le> k) \<Longrightarrow> length (concat (map f xs)) \<le> k * length xs"
proof (induction xs)
  case (Cons x xs)
  have "length (f x) \<le> k" using Cons.prems by simp
  moreover have "length (concat (map f xs)) \<le> k * length xs" using Cons by simp
  ultimately show ?case by simp
qed simp

lemma signable_hashable: "signable C k tx \<Longrightarrow> hashable tx"
proof -
  assume s: "signable C k tx"
  have "length (concat (map input_wire (inputs tx))) \<le> 210 * length (inputs tx)"
    using s by (intro length_concat_bound length_input_wire) (auto simp: signable_def tx_ok_def list_all_iff)
  then have "length (tx_wire tx) < 2 ^ 31"
    using s length_varint_wire(2)[of "int (length (inputs tx))"] length_varint_wire(2)[of "int (length (outputs tx))"]
    by (simp add: tx_wire_def signable_def)
  then show ?thesis using s by (auto simp: hashable_def scripts_parse_def signable_def list_all_iff small_script_def)
qed

lemma copy_p2pkh: "length h = 20 \<Longrightarrow> copy_subscript (p2pkh h) = Inr (p2pkh h)"
proof -
  assume h: "length h = 20"
  have "length (concat (map chunk_wire (p2pkh h))) < 2 ^ 31"
    using h by (simp add: p2pkh_def chunk_wire_def push_width_def)
  from wf_fromBuffer[OF wf_p2pkh[OF h] this] h show ?thesis
    by (simp add: copy_subscript_def wf_toBuffer[OF wf_p2pkh[OF h]]) (simp add: removeCodeseparators_def p2pkh_def)
qed

definition all_hash :: "crypto \<Rightarrow> bytes \<Rightarrow> transaction \<Rightarrow> nat \<Rightarrow> bytes" where
  "all_hash C k tx m = rev (sha256sha256 C
     (tx_wire (hash_copy tx 1 m (p2pkh (key_hash C k)) ([118, 169, 20] @ key_hash C k @ [136, 172])) @ le_bytes 4 1))"

definition all_sig :: "crypto \<Rightarrow> bytes \<Rightarrow> transaction \<Rightarrow> nat \<Rightarrow> tx_signature" where
  "all_sig C k tx m = \<lparr> sig_publicKey = privToPub C k, sig_prevTxId = prevTxId (inputs tx ! m),
     sig_outputIndex = outputIndex (inputs tx ! m), sig_inputIndex = m,
     sig_der = ecdsa_sign C k (all_hash C k tx m), sigtype = 1 \<rparr>"

definition signed_input :: "tx_signature \<Rightarrow> tx_input \<Rightarrow> tx_input" where
  "signed_input g i = i\<lparr> in_script := Some (sig_script (sig_publicKey g) (sig_der g) (sigtype g)),
     in_scriptBuffer := sig_bytes (sig_publicKey g) (sig_der g) (sigtype g) \<rparr>"

lemma sighash_all:
  assumes "good_key C k" "signable C k tx" "m < length (inputs tx)"
  shows "sighash C tx 1 m (p2pkh (key_hash C k)) = Inr (all_hash C k tx m)"
proof -
  let ?h = "key_hash C k" and ?b = "[118, 169, 20] @ key_hash C k @ [136, 172]"
  have h: "length ?h = 20" using assms(1) by (simp add: good_key_def)
  have "tx_ok (hash_copy tx 1 m (p2pkh ?h) ?b)"
    using h assms by (intro hash_copy_all_ok signable_hashable[OF assms(2)]) simp_all
  from preimage_wire[OF this, of 1] sighash_run[OF signable_hashable[OF assms(2)] copy_p2pkh[OF h] toBuffer_p2pkh[OF h] assms(3), of C 1]
  show ?thesis by (simp add: all_hash_def)
qed

lemma pays_key_script:
  "pays_key h i \<Longrightarrow> in_class i = PublicKeyHashInput \<and> (\<exists>out. in_output i = Some out \<and> output_script out = Inr (p2pkh h))"
  by (auto simp: pays_key_def pkh_def output_script_def script_getter_def split: option.splits)

lemma getPublicKeyHash_p2pkh: "length h = 20 \<Longrightarrow> getPublicKeyHash (p2pkh h) = Inr h"
  by (simp add: getPublicKeyHash_def) (simp add: p2pkh_def buf_or_throw_def)

lemma traverse_enumerate:
  "(\<And>n. n < length xs \<Longrightarrow> f (n, xs ! n) = Inr (g n)) \<Longrightarrow> traverse f (enumerate 0 xs) = Inr (map g [0..<length xs])"
proof -
  assume *: "\<And>n. n < length xs \<Longrightarrow> f (n, xs ! n) = Inr (g n)"
  have "traverse f (enumerate 0 xs) = Inr (map (g \<circ> fst) (enumerate 0 xs))"
    by (rule traverse_Inr) (auto simp: in_set_enumerate_eq *)
  moreover have "map (g \<circ> fst) (enumerate 0 xs) = map g [0..<length xs]"
    unfolding map_map[symmetric] by (simp add: map_fst_enumerate)
  ultimately show ?thesis by simp
qed

lemma getSignatures_all:
  assumes "good_key C k" "signable C k tx"
  shows "getSignatures C k 0 tx = Inr (map (all_sig C k tx) [0..<length (inputs tx)])"
proof -
  let ?f = "\<lambda>(n, i). Input_getSignatures C tx k n (default_sigtype 0) (key_hash C k) i"
  have h: "length (key_hash C k) = 20" using assms(1) by (simp add: good_key_def)
  have "?f (n, inputs tx ! n) = Inr [all_sig C k tx n]" if n: "n < length (inputs tx)" for n
  proof -
    have "pays_key (key_hash C k) (inputs tx ! n)" using assms(2) n by (simp add: signable_def list_all_length)
    then show ?thesis using pays_key_script[of "key_hash C k" "inputs tx ! n"] sighash_all[OF assms n]
      by (auto simp: Input_getSignatures_def getPublicKeyHash_p2pkh[OF h] make_signature_def Sighash_sign_def
          default_sigtype_def all_sig_def)
  qed
  from traverse_enumerate[of "inputs tx" ?f, OF this] show ?thesis
    by (simp add: getSignatures_def concat_map_singleton)
qed

lemma signed_input_simps [simp]:
  "blanked (signed_input g i) = blanked i" "pays_key h (signed_input g i) = pays_key h i"
  by (simp_all add: blanked_def signed_input_def strip_input_def pays_key_def pkh_def)

lemma same_shape_update:
  "same_shape tx tx' \<Longrightarrow> same_shape tx (tx'\<lparr> inputs := (inputs tx')[m := signed_input g (inputs tx' ! m)] \<rparr>)"
  by (simp add: same_shape_def map_update_same)

lemma signed_small:
  assumes "good_key C k" "input_ok i"
  shows "small_script (signed_input (all_sig C k tx m) i) \<and> input_ok (signed_input (all_sig C k tx m) i)"
proof -
  have g: "length (ecdsa_sign C k (all_hash C k tx m)) < 75" "length (privToPub C k) < 76" "privToPub C k \<noteq> []"
    using assms(1) by (auto simp: good_key_def intro: le_less_trans)
  have b: "length (sig_bytes (privToPub C k) (ecdsa_sign C k (all_hash C k tx m)) 1) \<le> 153" by (rule length_sig_bytes[OF g(1,2)])
  then have "Script_fromBuffer (sig_bytes (privToPub C k) (ecdsa_sign C k (all_hash C k tx m)) 1)
      = Inr (sig_script (privToPub C k) (ecdsa_sign C k (all_hash C k tx m)) 1)"
    unfolding sig_bytes_def by (intro wf_fromBuffer wf_sig_script g) simp
  with b assms(2) show ?thesis by (simp add: small_script_def signed_input_def all_sig_def input_ok_def)
qed

lemma list_all_update: "list_all P xs \<Longrightarrow> P y \<Longrightarrow> list_all P (xs[n := y])"
  by (auto simp: list_all_iff dest!: set_update_subset_insert[THEN subsetD])

lemma signable_update:
  assumes "good_key C k" "signable C k tx'" "m < length (inputs tx')"
  shows "signable C k (tx'\<lparr> inputs := (inputs tx')[m := signed_input (all_sig C k tx m) (inputs tx' ! m)] \<rparr>)"
proof -
  have i: "input_ok (inputs tx' ! m)" "pays_key (key_hash C k) (inputs tx' ! m)"
    using assms(2,3) by (auto simp: signable_def tx_ok_def list_all_length)
  show ?thesis using assms(2) i signed_small[OF assms(1) i(1)]
    by (auto simp: signable_def tx_ok_def intro!: list_all_update)
qed

lemma applySignature_all:
  assumes key: "good_key C k" and tx: "signable C k tx" and tx': "signable C k tx'" and shape: "same_shape tx tx'"
    and m: "m < length (inputs tx)"
  shows "applySignature C (all_sig C k tx m) tx'
    = (Inr (), tx'\<lparr> inputs := (inputs tx')[m := signed_input (all_sig C k tx m) (inputs tx' ! m)] \<rparr>)"
proof -
  let ?g = "all_sig C k tx m" and ?i = "inputs tx' ! m"
  have len: "length (inputs tx') = length (inputs tx)" using shape unfolding same_shape_def by (metis length_map)
  have h: "length (key_hash C k) = 20" using key by (simp add: good_key_def)
  have "pays_key (key_hash C k) ?i" using tx' m len by (simp add: signable_def list_all_length)
  from pays_key_script[OF this] obtain out where i: "in_class ?i = PublicKeyHashInput" "in_output ?i = Some out"
    "output_script out = Inr (p2pkh (key_hash C k))" by auto
  have "sighash C tx' 1 m (p2pkh (key_hash C k)) = Inr (all_hash C k tx m)"
    using sighash_shape[OF shape signable_hashable[OF tx] signable_hashable[OF tx'] m copy_p2pkh[OF h] toBuffer_p2pkh[OF h], of C 1]
      sighash_all[OF key tx m] by simp
  then have valid: "Input_isValidSignature C tx' ?g ?i = Inr True"
    using i key by (simp add: Input_isValidSignature_def Sighash_verify_def all_sig_def good_key_def)
  have g: "length (sig_der ?g) < 75" "length (sig_publicKey ?g) < 76" "sig_publicKey ?g \<noteq> []" "sigtype ?g = 1"
    using key by (auto simp: good_key_def all_sig_def intro: le_less_trans)
  from wf_toBuffer[OF wf_sig_script[OF g(1,2,3)], of 1]
  have "Script_toBuffer (sig_script (sig_publicKey ?g) (sig_der ?g) 1) = Inr (sig_bytes (sig_publicKey ?g) (sig_der ?g) 1)"
    by (simp add: sig_bytes_def)
  then have "Input_addSignature C tx' ?g ?i = (Inr (), signed_input ?g ?i)"
    using i(1) valid buildPublicKeyHashIn_sig[OF g(1,2), of 1] g(4)
    by (simp add: Input_addSignature_def here_def bind_def lift_def block_Cons checkState_def Input_setScript_def modify_def
        signed_input_def)
  then show ?thesis using m len by (simp add: applySignature_def here_def at_input_def) (simp add: all_sig_def)
qed

lemma sign_loop:
  assumes key: "good_key C k" and tx: "signable C k tx"
  shows "signable C k tx' \<Longrightarrow> same_shape tx tx' \<Longrightarrow> \<forall>m \<in> set ms. m < length (inputs tx) \<Longrightarrow>
    block (map (applySignature C) (map (all_sig C k tx) ms)) tx'
    = (Inr (), tx'\<lparr> inputs := foldl (\<lambda>is m. is[m := signed_input (all_sig C k tx m) (is ! m)]) (inputs tx') ms \<rparr>)"
proof (induction ms arbitrary: tx')
  case (Cons m ms)
  let ?t = "tx'\<lparr> inputs := (inputs tx')[m := signed_input (all_sig C k tx m) (inputs tx' ! m)] \<rparr>"
  have "length (inputs tx') = length (inputs tx)" using Cons.prems(2) unfolding same_shape_def by (metis length_map)
  then have "signable C k ?t" using Cons.prems by (intro signable_update[OF key]) simp_all
  moreover have "same_shape tx ?t" using Cons.prems(2) by (rule same_shape_update)
  ultimately show ?case
    using Cons.IH[of ?t] Cons.prems applySignature_all[OF key tx Cons.prems(1,2), of m] by (simp add: block_Cons)
qed simp

lemma foldl_update:
  "foldl (\<lambda>is m. is[m := f m (is ! m)]) xs [0..<j] = map (\<lambda>m. if m < j then f m (xs ! m) else xs ! m) [0..<length xs]"
proof (induction j)
  case 0
  show ?case by (simp add: map_nth)
next
  case (Suc j)
  show ?case
    by (rule nth_equalityI) (auto simp: Suc nth_list_update less_Suc_eq list_update_beyond)
qed

definition signed_all :: "crypto \<Rightarrow> bytes \<Rightarrow> transaction \<Rightarrow> transaction" where
  "signed_all C k tx = tx\<lparr> inputs := map (\<lambda>m. signed_input (all_sig C k tx m) (inputs tx ! m)) [0..<length (inputs tx)] \<rparr>"

lemma sign_run:
  assumes "good_key C k" "signable C k tx"
  shows "Transaction_sign C k 0 tx = (Inr (), signed_all C k tx)"
proof -
  have "list_all (\<lambda>i. in_output i \<noteq> None) (inputs tx)"
    using assms(2) by (auto simp: signable_def list_all_iff pays_key_def split: option.splits)
  moreover have "same_shape tx tx" by (simp add: same_shape_def)
  ultimately show ?thesis
    using sign_loop[OF assms assms(2), of "[0..<length (inputs tx)]"] getSignatures_all[OF assms]
    by (simp add: Transaction_sign_def here_def block_Cons checkState_def hasAllUtxoInfo_def bind_def lift_def
        foldl_update[of "\<lambda>m. signed_input (all_sig C k tx m)"] signed_all_def)
qed

lemma isFullySigned_signed_all:
  assumes "good_key C k" "signable C k tx"
  shows "isFullySigned C (signed_all C k tx) = Inr True"
proof -
  let ?is = "inputs (signed_all C k tx)"
  have i: "in_class i = PublicKeyHashInput \<and> Input_isFullySigned C i = Inr True" if mem: "i \<in> set ?is" for i
  proof -
    obtain m where m: "m < length (inputs tx)" "i = signed_input (all_sig C k tx m) (inputs tx ! m)"
      using mem unfolding signed_all_def by auto
    have c: "in_class (inputs tx ! m) = PublicKeyHashInput"
      using assms(2) m(1) by (auto simp: signable_def list_all_length pays_key_def pkh_def)
    have "70 \<le> length (sig_der (all_sig C k tx m)) \<and> length (sig_der (all_sig C k tx m)) \<le> 72" "pk_valid C (privToPub C k)"
      using assms(1) by (auto simp: good_key_def all_sig_def)
    then show ?thesis using m(2) c
      by (simp add: signed_input_def Input_isFullySigned_def input_script_def script_getter_def isPublicKeyHashIn_def sig_script_def
          key_chunk_def pk_isValid_def all_sig_def)
  qed
  then have "\<not> list_ex (\<lambda>i. in_class i = PlainInput) ?is" by (auto simp: list_ex_iff)
  moreover have "traverse (Input_isFullySigned C) ?is = Inr (map (\<lambda>_. True) ?is)" using i by (intro traverse_Inr) blast
  ultimately show ?thesis by (simp add: isFullySigned_def list_all_iff)
qed

lemma signable_signed_all:
  assumes "good_key C k" "signable C k tx" shows "signable C k (signed_all C k tx)"
proof -
  have i: "input_ok (inputs tx ! m) \<and> pays_key (key_hash C k) (inputs tx ! m)" if "m < length (inputs tx)" for m
    using assms(2) that by (simp add: signable_def tx_ok_def list_all_length)
  have "list_all input_ok (inputs (signed_all C k tx))" "list_all small_script (inputs (signed_all C k tx))"
    "list_all (pays_key (key_hash C k)) (inputs (signed_all C k tx))"
    using i signed_small[OF assms(1)] by (auto simp: signed_all_def list_all_length)
  then show ?thesis using assms(2) by (simp add: signable_def tx_ok_def signed_all_def)
qed

lemma signed_all_simps [simp]:
  "length (inputs (signed_all C k tx)) = length (inputs tx)" "outputs (signed_all C k tx) = outputs tx"
  "map in_output (inputs (signed_all C k tx)) = map in_output (inputs tx)"
  "map in_class (inputs (signed_all C k tx)) = map in_class (inputs tx)"
  by (auto simp: signed_all_def signed_input_def intro: nth_equalityI)

section \<open>Theorems\<close>

text \<open>The hash of an input that is there, with the two ways in which its script may fail.\<close>

lemma sighash_cases:
  assumes tx: "hashable tx" and n: "n < length (inputs tx)"
  shows "sighash C tx ty n sub = (case copy_subscript sub of Inl e \<Rightarrow> Inl e | Inr s \<Rightarrow>
    case Script_toBuffer s of Inl e \<Rightarrow> Inl e | Inr b \<Rightarrow>
    if ty AND 31 = SIGHASH_SINGLE \<and> n \<ge> length (outputs tx) then Inr SIGHASH_SINGLE_BUG
    else map_sum id (\<lambda>b. rev (sha256sha256 C b)) (sighash_preimage (hash_copy tx ty n s b) ty))"
proof (cases "copy_subscript sub")
  case (Inl e)
  then show ?thesis by (simp add: sighash_def sighash_tx_def shallowCopy_strip[OF tx])
next
  case s: (Inr s)
  show ?thesis
  proof (cases "Script_toBuffer s")
    case (Inl e)
    have "traverse (reinput []) (map strip_input (inputs tx)) = Inr (map blanked (inputs tx))"
      using tx by (subst traverse_Inr[where g = "\<lambda>i. i\<lparr> in_scriptBuffer := [], in_script := Some [] \<rparr>"])
        (auto simp: hashable_def scripts_parse_def list_all_iff reinput_strip blanked_def)
    moreover have "reinput s (blanked (inputs tx ! n)) = Inl e"
      using Inl by (simp add: reinput_def input_script_def script_getter_def blanked_def)
    ultimately show ?thesis using n s Inl by (simp add: sighash_def sighash_tx_def shallowCopy_strip[OF tx] Let_def)
  next
    case (Inr b)
    then show ?thesis using sighash_run[OF tx s _ n] s by simp
  qed
qed

lemma with_script_ref: "spend_ref i = spend_ref j \<Longrightarrow> with_script s b i = with_script s b j"
  by (simp add: spend_ref_def with_script_def strip_input_def)

text \<open>
  C16: a signature with \<^verbatim>\<open>SIGHASH_ANYONECANPAY\<close> covers, of the inputs, only the reference of the one it signs; with
  \<^verbatim>\<open>SIGHASH_SINGLE\<close> it covers of the outputs only the one at the same position, and with \<^verbatim>\<open>SIGHASH_NONE\<close>, the type of
  the provider's refund signature, none: two transactions that agree on these parts have the same hash.
\<close>

theorem sighash_anyonecanpay:
  assumes "hashable tx" "hashable tx'" "n < length (inputs tx)" "n < length (inputs tx')"
    "version tx = version tx'" "nLockTime tx = nLockTime tx'" "spend_ref (inputs tx ! n) = spend_ref (inputs tx' ! n)"
  shows "sighash C tx 0x82 n sub = sighash C tx' 0x82 n sub
    \<and> (n < length (outputs tx) \<and> n < length (outputs tx') \<and> outputs tx ! n = outputs tx' ! n
       \<longrightarrow> sighash C tx 0x83 n sub = sighash C tx' 0x83 n sub)"
proof -
  have inp: "hash_inputs ty n s b (inputs tx) = hash_inputs ty n s b (inputs tx')" if "ty AND SIGHASH_ANYONECANPAY \<noteq> 0" for ty s b
    using that assms(3,4) with_script_ref[OF assms(7)] by (simp add: hash_inputs_anyonecanpay)
  have copy: "hash_copy tx ty n s b = hash_copy tx' ty n s b"
    if "ty AND SIGHASH_ANYONECANPAY \<noteq> 0"
      "hash_outputs (ty AND 31) n (map strip_output (outputs tx)) = hash_outputs (ty AND 31) n (map strip_output (outputs tx'))" for ty s b
    unfolding hash_copy_def that(2) inp[OF that(1)] by (rule strip_eqI[OF assms(5,6)])
  have "take 1 (drop n (map strip_output (outputs tx))) = take 1 (drop n (map strip_output (outputs tx')))"
    if "n < length (outputs tx)" "n < length (outputs tx')" "outputs tx ! n = outputs tx' ! n"
    using that by (simp add: drop_map take_map take_Suc_conv_app_nth del: take_Suc_Cons flip: Cons_nth_drop_Suc)
  then show ?thesis
    using copy[of "0x82"] copy[of "0x83"] by (auto simp: sighash_cases[OF assms(1,3)] sighash_cases[OF assms(2,4)] hash_outputs_def split: sum.split)
qed

lemma sample_hashable:
  "hashable sample_tx" "hashable (sample_tx\<lparr> inputs := [sample_input, sample_input\<lparr> outputIndex := 1 \<rparr>], outputs := [sample_output] \<rparr>)"
proof -
  have "Script_fromBuffer [] = Inr []" using wf_fromBuffer[of "[]"] by simp
  then show "hashable sample_tx" "hashable (sample_tx\<lparr> inputs := [sample_input, sample_input\<lparr> outputIndex := 1 \<rparr>], outputs := [sample_output] \<rparr>)"
    by (simp_all add: hashable_def sample_tx_def sample_input_def sample_output_def tx_ok_def input_ok_def output_ok_def new_Input_def
        new_Transaction_def tx_wire_def input_wire_def output_wire_def varbuf_wire_def varint_wire_def scripts_parse_def
        change_output_def bn_fromNumber_def trunc_of_int[of 5000, simplified] p2pkh_def chunk_wire_def push_width_def)
qed

theorem sighash_anyonecanpay_witness:
  "sighash sample_crypto sample_tx 0x82 0 [] = sighash sample_crypto
     (sample_tx\<lparr> inputs := [sample_input, sample_input\<lparr> outputIndex := 1 \<rparr>], outputs := [sample_output] \<rparr>) 0x82 0 []"
  using sighash_anyonecanpay[OF sample_hashable, of 0 sample_crypto "[]"] by (simp add: sample_tx_def)

lemma removeCodeseparators_wf: "list_all wf_chunk s \<Longrightarrow> list_all wf_chunk (removeCodeseparators s)"
  by (auto simp: removeCodeseparators_def list_all_iff)

lemma copy_subscript_wf:
  assumes "list_all wf_chunk s" "length (concat (map chunk_wire s)) < 2 ^ 31"
  shows "copy_subscript s = Inr (removeCodeseparators s)"
  using assms wf_fromBuffer[OF assms] by (simp add: copy_subscript_def wf_toBuffer)

lemma length_concat_filter: "length (concat (map f (filter P xs))) \<le> length (concat (map f xs))"
  by (induction xs) simp_all

text \<open>
  C15: a signature of type \<^verbatim>\<open>SIGHASH_ALL\<close> covers the whole transaction but its signatures: the hash is that of bytes which
  determine the version, the lock time, the reference and sequence number of every input and every output.
\<close>

theorem sighash_commits:
  assumes tx: "hashable tx" "n < length (inputs tx)" and tx': "hashable tx'" "n' < length (inputs tx')"
    and sub: "list_all wf_chunk sub" "list_all wf_chunk sub'"
      "length (concat (map chunk_wire sub)) < 2 ^ 31" "length (concat (map chunk_wire sub')) < 2 ^ 31"
  shows "\<exists>p p'. (\<forall>C. sighash C tx SIGHASH_ALL n sub = Inr (rev (sha256sha256 C p)))
    \<and> (\<forall>C. sighash C tx' SIGHASH_ALL n' sub' = Inr (rev (sha256sha256 C p')))
    \<and> (p = p' \<and> length p < 2 ^ 31 \<longrightarrow> version tx = version tx' \<and> nLockTime tx = nLockTime tx'
        \<and> map spend_ref (inputs tx) = map spend_ref (inputs tx') \<and> map strip_output (outputs tx) = map strip_output (outputs tx'))"
proof -
  let ?s = "removeCodeseparators sub" and ?s' = "removeCodeseparators sub'"
  let ?b = "concat (map chunk_wire ?s)" and ?b' = "concat (map chunk_wire ?s')"
  let ?t = "hash_copy tx 1 n ?s ?b" and ?t' = "hash_copy tx' 1 n' ?s' ?b'"
  note b = wf_toBuffer[OF removeCodeseparators_wf[OF sub(1)]] wf_toBuffer[OF removeCodeseparators_wf[OF sub(2)]]
  have len: "length ?b < 2 ^ 31" "length ?b' < 2 ^ 31"
    using sub(3,4) unfolding removeCodeseparators_def by (auto intro: le_less_trans[OF length_concat_filter])
  have ok: "tx_ok ?t" "tx_ok ?t'" using len assms by (auto intro!: hash_copy_all_ok)
  have 1: "sighash C tx 1 n sub = Inr (rev (sha256sha256 C (tx_wire ?t @ le_bytes 4 1)))" for C
    by (simp add: sighash_run[OF tx(1) copy_subscript_wf[OF sub(1,3)] b(1) tx(2)] preimage_wire[OF ok(1)])
  have 2: "sighash C tx' 1 n' sub' = Inr (rev (sha256sha256 C (tx_wire ?t' @ le_bytes 4 1)))" for C
    by (simp add: sighash_run[OF tx'(1) copy_subscript_wf[OF sub(2,4)] b(2) tx'(2)] preimage_wire[OF ok(2)])
  have inp: "inputs (hash_copy t 1 m s b) = (map blanked (inputs t))[m := with_script s b (inputs t ! m)]" for t m s b
    by (simp add: hash_copy_def hash_inputs_all)
  have refs: "map spend_ref (inputs (hash_copy t 1 m s b)) = map spend_ref (inputs t)" for t m s b
    unfolding inp by (rule map_update_map) simp_all
  have eq: "version tx = version tx' \<and> nLockTime tx = nLockTime tx'
        \<and> map spend_ref (inputs tx) = map spend_ref (inputs tx') \<and> map strip_output (outputs tx) = map strip_output (outputs tx')"
    if "strip ?t = strip ?t'"
  proof -
    have "map spend_ref (map strip_input (inputs ?t)) = map spend_ref (map strip_input (inputs ?t'))"
      using that by (metis strip_sel(1))
    then have "map spend_ref (inputs ?t) = map spend_ref (inputs ?t')" by (simp add: o_def)
    then have r: "map spend_ref (inputs tx) = map spend_ref (inputs tx')" by (simp only: refs)
    have "map strip_output (outputs ?t) = map strip_output (outputs ?t')" "version ?t = version ?t'" "nLockTime ?t = nLockTime ?t'"
      using that by (metis strip_sel)+
    then show ?thesis using r by (simp add: hash_copy_def hash_outputs_def o_def)
  qed
  show ?thesis
    by (rule exI[of _ "tx_wire ?t @ le_bytes 4 1"], rule exI[of _ "tx_wire ?t' @ le_bytes 4 1"])
       (use 1 2 eq wire_determines[OF ok, of "le_bytes 4 1" "le_bytes 4 1"] in \<open>simp only: length_append simp_thms\<close>, blast)
qed

theorem sighash_commits_witness:
  "\<exists>p p'. (\<forall>C. sighash C sample_tx SIGHASH_ALL 0 [] = Inr (rev (sha256sha256 C p)))
    \<and> (\<forall>C. sighash C (sample_tx\<lparr> inputs := [sample_input, sample_input\<lparr> outputIndex := 1 \<rparr>], outputs := [sample_output] \<rparr>) SIGHASH_ALL 1 []
         = Inr (rev (sha256sha256 C p'))) \<and> (length p < 2 ^ 31 \<longrightarrow> p \<noteq> p')"
  using sighash_commits[OF sample_hashable(1) _ sample_hashable(2), of 0 1 "[]" "[]"] by (auto simp: sample_tx_def)


lemma sample_good_key: "good_key sample_crypto [1]"
  using sample_is_der by (simp add: good_key_def) (simp add: sample_crypto_def sample_der_def)

definition sample_payable :: transaction where
  "sample_payable = sample_tx\<lparr> inputs := [sample_input\<lparr> in_output := Some (change_output (p2pkh (key_hash sample_crypto [1])) 5000) \<rparr>] \<rparr>"

lemma sample_signable: "signable sample_crypto [1] sample_payable"
proof -
  have "Script_fromBuffer [] = Inr []" using wf_fromBuffer[of "[]"] by simp
  then show ?thesis
    using sample_ok(1) by (simp add: signable_def sample_payable_def tx_ok_def sample_tx_def pays_key_def small_script_def sample_input_def
        new_Input_def pkh_def change_output_def input_ok_def new_Transaction_def)
qed


end
