(* ===== verification/Interpreter.thy ===== *)
theory Interpreter
  imports Signing
begin

unbundle bit_operations_syntax

text \<open>
  The script interpreter of \<^verbatim>\<open>bitcore.js\<close>, which decides whether an input may spend an output. An operation is an
  action on the interpreter's record that answers whether execution goes on; where it does not, it has
  set the error string. Stacks are lists with the top first, so \<^verbatim>\<open>this.stack[this.stack.length - n]\<close> is
  element \<open>n - 1\<close>. An exception inside \<^verbatim>\<open>evaluate\<close> is caught there, and of its message the error
  string keeps the prefix.
\<close>

section \<open>State\<close>

record interpreter =
  ip_script :: script
  ip_tx :: transaction
  nin :: nat
  stack :: "bytes list"
  altstack :: "bytes list"
  pc :: nat
  pbegincodehash :: nat
  nOpCount :: int
  vfExec :: "bool list"
  errstr :: string
  ip_flags :: int

type_synonym op = "(interpreter, bool) action"

abbreviation (input) MAX_SCRIPT_ELEMENT_SIZE :: nat where "MAX_SCRIPT_ELEMENT_SIZE \<equiv> 520"
abbreviation (input) SCRIPT_VERIFY_P2SH :: int where "SCRIPT_VERIFY_P2SH \<equiv> 1"
abbreviation (input) SCRIPT_VERIFY_STRICTENC :: int where "SCRIPT_VERIFY_STRICTENC \<equiv> 2"
abbreviation (input) SCRIPT_VERIFY_DERSIG :: int where "SCRIPT_VERIFY_DERSIG \<equiv> 4"
abbreviation (input) SCRIPT_VERIFY_LOW_S :: int where "SCRIPT_VERIFY_LOW_S \<equiv> 8"
abbreviation (input) SCRIPT_VERIFY_NULLDUMMY :: int where "SCRIPT_VERIFY_NULLDUMMY \<equiv> 16"
abbreviation (input) SCRIPT_VERIFY_SIGPUSHONLY :: int where "SCRIPT_VERIFY_SIGPUSHONLY \<equiv> 32"
abbreviation (input) SCRIPT_VERIFY_MINIMALDATA :: int where "SCRIPT_VERIFY_MINIMALDATA \<equiv> 64"
abbreviation (input) SCRIPT_VERIFY_DISCOURAGE_UPGRADABLE_NOPS :: int where "SCRIPT_VERIFY_DISCOURAGE_UPGRADABLE_NOPS \<equiv> 128"

definition has_flag :: "int \<Rightarrow> interpreter \<Rightarrow> bool" where
  "has_flag f s \<longleftrightarrow> ip_flags s AND f \<noteq> 0"

text \<open>\<^verbatim>\<open>initialize\<close> followed by \<^verbatim>\<open>set\<close>.\<close>

definition load :: "script \<Rightarrow> bytes list \<Rightarrow> transaction \<Rightarrow> nat \<Rightarrow> int \<Rightarrow> interpreter" where
  "load sc st tx n flags = \<lparr> ip_script = sc, ip_tx = tx, nin = n, stack = st, altstack = [], pc = 0, pbegincodehash = 0,
     nOpCount = 0, vfExec = [], errstr = [], ip_flags = flags \<rparr>"

definition stop :: "string \<Rightarrow> op" where
  "stop msg = bind (modify (\<lambda>s. s\<lparr> errstr := msg \<rparr>)) (\<lambda>_. return False)"

definition put_stack :: "bytes list \<Rightarrow> op" where
  "put_stack st = bind (modify (\<lambda>s. s\<lparr> stack := st \<rparr>)) (\<lambda>_. return True)"

definition push :: "bytes \<Rightarrow> op" where
  "push b = here (\<lambda>s. put_stack (b # stack s))"

definition with_stack :: "nat \<Rightarrow> (bytes list \<Rightarrow> op) \<Rightarrow> op" where
  "with_stack n f = here (\<lambda>s. if length (stack s) < n then stop ''SCRIPT_ERR_INVALID_STACK_OPERATION'' else f (stack s))"

section \<open>Numbers and truth values on the stack\<close>

definition fromSM :: "bytes \<Rightarrow> int" where
  "fromSM b = (if b = [] then 0
     else let r = rev b in
       if r ! 0 AND 0x80 \<noteq> 0 then - bn_fromBuffer ((r ! 0 AND 0x7f) # tl r) else bn_fromBuffer r)"

definition toSMBigEndian :: "int \<Rightarrow> bytes" where
  "toSMBigEndian n =
    (let b = (if n < 0 then let b = be_bytes (- n) in
                if b ! 0 AND 0x80 \<noteq> 0 then 0x80 # b else (b ! 0 OR 0x80) # tl b
              else let b = be_bytes n in
                if b ! 0 AND 0x80 \<noteq> 0 then 0 # b else b)
     in if length b = 1 \<and> b ! 0 = 0 then [] else b)"

definition fromScriptNumBuffer :: "bytes \<Rightarrow> bool \<Rightarrow> exn + int" where
  "fromScriptNumBuffer b fRequireMinimal =
    (if length b > 4 then Inl (InvalidArgument ''script number overflow'')
     else if fRequireMinimal \<and> length b > 0 \<and> b ! (length b - 1) AND 0x7f = 0
             \<and> (length b \<le> 1 \<or> b ! (length b - 2) AND 0x80 = 0)
     then Inl (GenericError ''non-minimally encoded script number'')
     else Inr (fromSM b))"

definition toScriptNumBuffer :: "int \<Rightarrow> bytes" where
  "toScriptNumBuffer n = rev (toSMBigEndian n)"

fun castToBool :: "bytes \<Rightarrow> bool" where
  "castToBool [] = False"
| "castToBool (b # bs) = (if b \<noteq> 0 then \<not> (bs = [] \<and> b = 0x80) else castToBool bs)"

definition bool_buf :: "bool \<Rightarrow> bytes" where
  "bool_buf b = (if b then [1] else [])"

section \<open>Encodings of keys and signatures\<close>

definition hasLowS :: "ecdsa_sig \<Rightarrow> bool" where
  "hasLowS g = (if s_num g < 1 \<or> s_num g > 0x7FFFFFFFFFFFFFFFFFFFFFFFFFFFFFFF5D576E7357A4501DDFE92F46681B20A0 then False else True)"

definition checkSignatureEncoding :: "bytes \<Rightarrow> op" where
  "checkSignatureEncoding b = here (\<lambda>s.
     if has_flag (SCRIPT_VERIFY_DERSIG OR SCRIPT_VERIFY_LOW_S OR SCRIPT_VERIFY_STRICTENC) s \<and> \<not> isTxDER b
     then stop ''SCRIPT_ERR_SIG_DER_INVALID_FORMAT''
     else if has_flag SCRIPT_VERIFY_LOW_S s
     then bind (lift (fromTxFormat b)) (\<lambda>(g, _). if \<not> hasLowS g then stop ''SCRIPT_ERR_SIG_DER_HIGH_S'' else return True)
     else if has_flag SCRIPT_VERIFY_STRICTENC s
     then bind (lift (fromTxFormat b)) (\<lambda>(_, t). if \<not> hasDefinedHashtype t then stop ''SCRIPT_ERR_SIG_HASHTYPE'' else return True)
     else return True)"

definition checkPubkeyEncoding :: "crypto \<Rightarrow> bytes \<Rightarrow> op" where
  "checkPubkeyEncoding C b = here (\<lambda>s.
     if has_flag SCRIPT_VERIFY_STRICTENC s \<and> \<not> pk_valid C b then stop ''SCRIPT_ERR_PUBKEYTYPE'' else return True)"

definition check_encodings :: "crypto \<Rightarrow> bytes \<Rightarrow> bytes \<Rightarrow> op" where
  "check_encodings C bufSig bufPubkey = bind (checkSignatureEncoding bufSig) (\<lambda>ok.
     if \<not> ok then return False else checkPubkeyEncoding C bufPubkey)"

text \<open>The \<^verbatim>\<open>try\<close> block that reads and verifies a signature: an exception counts as not verified.\<close>

definition verify_sig :: "crypto \<Rightarrow> transaction \<Rightarrow> nat \<Rightarrow> bytes \<Rightarrow> bytes \<Rightarrow> script \<Rightarrow> bool" where
  "verify_sig C tx n bufSig bufPubkey subscript = (case fromTxFormat bufSig of Inl _ \<Rightarrow> False
     | Inr (sig, nhashtype) \<Rightarrow> (case pk_fromBuffer C bufPubkey of None \<Rightarrow> False
     | Some pubkey \<Rightarrow> (case toDER sig of Inl _ \<Rightarrow> False
     | Inr der \<Rightarrow> (case Sighash_verify C tx der nhashtype pubkey n subscript of Inl _ \<Rightarrow> False | Inr ok \<Rightarrow> ok))))"

text \<open>\<^verbatim>\<open>subscript.findAndDelete(new Script().add(bufSig))\<close> for each of the signatures.\<close>

primrec drop_sigs :: "bytes list \<Rightarrow> script \<Rightarrow> exn + script" where
  "drop_sigs [] s = Inr s"
| "drop_sigs (b # bs) s = (case addBuffer b False [] of Inl e \<Rightarrow> Inl e | Inr t \<Rightarrow>
     case findAndDelete s t of Inl e \<Rightarrow> Inl e | Inr s \<Rightarrow> drop_sigs bs s)"

section \<open>Operations\<close>

definition op_number :: "int \<Rightarrow> op" where
  "op_number n = push (toScriptNumBuffer (n - (OP_1 - 1)))"

definition op_control :: "int \<Rightarrow> bool \<Rightarrow> op" where
  "op_control n fExec =
    (if n = 97 then return True
     else if 176 \<le> n \<and> n \<le> 185 then here (\<lambda>s. if has_flag SCRIPT_VERIFY_DISCOURAGE_UPGRADABLE_NOPS s
       then stop ''SCRIPT_ERR_DISCOURAGE_UPGRADABLE_NOPS'' else return True)
     else if n = 99 \<or> n = 100 then here (\<lambda>s.
       if fExec then
         if length (stack s) < 1 then stop ''SCRIPT_ERR_UNBALANCED_CONDITIONAL''
         else let fValue = castToBool (stack s ! 0); fValue = (if n = 100 then \<not> fValue else fValue) in
           bind (modify (\<lambda>s. s\<lparr> stack := tl (stack s), vfExec := fValue # vfExec s \<rparr>)) (\<lambda>_. return True)
       else bind (modify (\<lambda>s. s\<lparr> vfExec := False # vfExec s \<rparr>)) (\<lambda>_. return True))
     else if n = 103 then here (\<lambda>s. if vfExec s = [] then stop ''SCRIPT_ERR_UNBALANCED_CONDITIONAL''
       else bind (modify (\<lambda>s. s\<lparr> vfExec := (\<not> hd (vfExec s)) # tl (vfExec s) \<rparr>)) (\<lambda>_. return True))
     else if n = 104 then here (\<lambda>s. if vfExec s = [] then stop ''SCRIPT_ERR_UNBALANCED_CONDITIONAL''
       else bind (modify (\<lambda>s. s\<lparr> vfExec := tl (vfExec s) \<rparr>)) (\<lambda>_. return True))
     else if n = 105 then with_stack 1 (\<lambda>st. if castToBool (st ! 0) then put_stack (tl st) else stop ''SCRIPT_ERR_VERIFY'')
     else stop ''SCRIPT_ERR_OP_RETURN'')"

text \<open>From \<^verbatim>\<open>OP_TOALTSTACK\<close> to \<^verbatim>\<open>OP_TUCK\<close>, and \<^verbatim>\<open>OP_SIZE\<close>.\<close>

definition op_altstack :: "int \<Rightarrow> op" where
  "op_altstack n =
    (if n = 107 then with_stack 1 (\<lambda>st. bind (modify (\<lambda>s. s\<lparr> altstack := st ! 0 # altstack s \<rparr>)) (\<lambda>_. put_stack (tl st)))
     else here (\<lambda>s. if length (altstack s) < 1 then stop ''SCRIPT_ERR_INVALID_ALTSTACK_OPERATION''
       else bind (modify (\<lambda>s. s\<lparr> altstack := tl (altstack s) \<rparr>)) (\<lambda>_. put_stack (altstack s ! 0 # stack s))))"

definition op_pick_roll :: "int \<Rightarrow> bool \<Rightarrow> op" where
  "op_pick_roll n fRequireMinimal = with_stack 2 (\<lambda>st. bind (lift (fromScriptNumBuffer (st ! 0) fRequireMinimal)) (\<lambda>k.
     let st = tl st in bind (put_stack st) (\<lambda>_.
       if k < 0 \<or> k \<ge> int (length st) then stop ''SCRIPT_ERR_INVALID_STACK_OPERATION''
       else let b = st ! nat k in
         put_stack (b # (if n = 122 then take (nat k) st @ drop (Suc (nat k)) st else st)))))"

definition op_reorder :: "int \<Rightarrow> op" where
  "op_reorder n =
    (if n = 123 then with_stack 3 (\<lambda>st. put_stack (st ! 2 # st ! 0 # st ! 1 # drop 3 st))
     else if n = 124 then with_stack 2 (\<lambda>st. put_stack (st ! 1 # st ! 0 # drop 2 st))
     else if n = 125 then with_stack 2 (\<lambda>st. put_stack (st ! 0 # st ! 1 # st ! 0 # drop 2 st))
     else with_stack 1 (\<lambda>st. push (toScriptNumBuffer (int (length (st ! 0))))))"

definition op_stack :: "int \<Rightarrow> bool \<Rightarrow> op" where
  "op_stack n fRequireMinimal =
    (if n = 107 \<or> n = 108 then op_altstack n
     else if n = 109 then with_stack 2 (\<lambda>st. put_stack (drop 2 st))
     else if n = 110 then with_stack 2 (\<lambda>st. put_stack (st ! 0 # st ! 1 # st))
     else if n = 111 then with_stack 3 (\<lambda>st. put_stack (st ! 0 # st ! 1 # st ! 2 # st))
     else if n = 112 then with_stack 4 (\<lambda>st. put_stack (st ! 2 # st ! 3 # st))
     else if n = 113 then with_stack 6 (\<lambda>st. put_stack (st ! 4 # st ! 5 # take 4 st @ drop 6 st))
     else if n = 114 then with_stack 4 (\<lambda>st. put_stack (st ! 2 # st ! 3 # take 2 st @ drop 4 st))
     else if n = 115 then with_stack 1 (\<lambda>st. if castToBool (st ! 0) then push (st ! 0) else return True)
     else if n = 116 then here (\<lambda>s. push (toScriptNumBuffer (int (length (stack s)))))
     else if n = 117 then with_stack 1 (\<lambda>st. put_stack (tl st))
     else if n = 118 then with_stack 1 (\<lambda>st. push (st ! 0))
     else if n = 119 then with_stack 2 (\<lambda>st. put_stack (st ! 0 # drop 2 st))
     else if n = 120 then with_stack 2 (\<lambda>st. push (st ! 1))
     else if n = 121 \<or> n = 122 then op_pick_roll n fRequireMinimal
     else op_reorder n)"

text \<open>The end of an operation with a \<^verbatim>\<open>VERIFY\<close> variant: the truth value just pushed is taken off again or stops.\<close>

definition verify_top :: "bool \<Rightarrow> string \<Rightarrow> op" where
  "verify_top ok msg = here (\<lambda>s. if ok then put_stack (tl (stack s)) else stop msg)"

definition op_equal :: "int \<Rightarrow> op" where
  "op_equal n = with_stack 2 (\<lambda>st. let fEqual = (st ! 1 = st ! 0) in
     bind (put_stack (bool_buf fEqual # drop 2 st)) (\<lambda>_.
       if n = OP_EQUALVERIFY then verify_top fEqual ''SCRIPT_ERR_EQUALVERIFY'' else return True))"

definition op_unary :: "int \<Rightarrow> bool \<Rightarrow> op" where
  "op_unary n fRequireMinimal = with_stack 1 (\<lambda>st. bind (lift (fromScriptNumBuffer (st ! 0) fRequireMinimal)) (\<lambda>bn.
     put_stack (toScriptNumBuffer (
       if n = 139 then bn + 1
       else if n = 140 then bn - 1
       else if n = 143 then - bn
       else if n = 144 then (if bn < 0 then - bn else bn)
       else if n = 145 then of_bool (bn = 0)
       else of_bool (bn \<noteq> 0)) # tl st)))"

definition binary_result :: "int \<Rightarrow> int \<Rightarrow> int \<Rightarrow> int" where
  "binary_result n bn1 bn2 =
    (if n = 147 then bn1 + bn2
     else if n = 148 then bn1 - bn2
     else if n = 154 then of_bool (bn1 \<noteq> 0 \<and> bn2 \<noteq> 0)
     else if n = 155 then of_bool (bn1 \<noteq> 0 \<or> bn2 \<noteq> 0)
     else if n = 156 then of_bool (bn1 = bn2)
     else if n = 157 then of_bool (bn1 = bn2)
     else if n = 158 then of_bool (bn1 \<noteq> bn2)
     else if n = 159 then of_bool (bn1 < bn2)
     else if n = 160 then of_bool (bn1 > bn2)
     else if n = 161 then of_bool (bn1 \<le> bn2)
     else if n = 162 then of_bool (bn1 \<ge> bn2)
     else if n = 163 then (if bn1 < bn2 then bn1 else bn2)
     else if n = 164 then (if bn1 > bn2 then bn1 else bn2)
     else 0)"

definition op_binary :: "int \<Rightarrow> bool \<Rightarrow> op" where
  "op_binary n fRequireMinimal = with_stack 2 (\<lambda>st.
     bind (lift (fromScriptNumBuffer (st ! 1) fRequireMinimal)) (\<lambda>bn1.
     bind (lift (fromScriptNumBuffer (st ! 0) fRequireMinimal)) (\<lambda>bn2.
     let b = toScriptNumBuffer (binary_result n bn1 bn2) in
     bind (put_stack (b # drop 2 st)) (\<lambda>_.
       if n = 157 then verify_top (castToBool b) ''SCRIPT_ERR_NUMEQUALVERIFY'' else return True))))"

definition op_within :: "bool \<Rightarrow> op" where
  "op_within fRequireMinimal = with_stack 3 (\<lambda>st.
     bind (lift (fromScriptNumBuffer (st ! 2) fRequireMinimal)) (\<lambda>bn1.
     bind (lift (fromScriptNumBuffer (st ! 1) fRequireMinimal)) (\<lambda>bn2.
     bind (lift (fromScriptNumBuffer (st ! 0) fRequireMinimal)) (\<lambda>bn3.
     put_stack (bool_buf (bn2 \<le> bn1 \<and> bn1 < bn3) # drop 3 st)))))"

definition op_hash :: "crypto \<Rightarrow> int \<Rightarrow> op" where
  "op_hash C n = with_stack 1 (\<lambda>st. put_stack (
     (if n = 166 then ripemd160 C (st ! 0)
      else if n = 167 then sha1 C (st ! 0)
      else if n = 168 then sha256 C (st ! 0)
      else if n = 169 then sha256ripemd160 C (st ! 0)
      else sha256sha256 C (st ! 0)) # tl st))"

definition op_checksig :: "crypto \<Rightarrow> int \<Rightarrow> op" where
  "op_checksig C n = with_stack 2 (\<lambda>st. let bufSig = st ! 1; bufPubkey = st ! 0 in here (\<lambda>s.
     bind (lift (drop_sigs [bufSig] (drop (pbegincodehash s) (ip_script s)))) (\<lambda>subscript.
     bind (check_encodings C bufSig bufPubkey) (\<lambda>ok. if \<not> ok then return False else
     let fSuccess = verify_sig C (ip_tx s) (nin s) bufSig bufPubkey subscript in
     bind (put_stack (bool_buf fSuccess # drop 2 st)) (\<lambda>_.
       if n = 173 then verify_top fSuccess ''SCRIPT_ERR_CHECKSIGVERIFY'' else return True)))))"

text \<open>
  The loop of \<^verbatim>\<open>OP_CHECKMULTISIG\<close> over the signatures and keys that are left; it answers \<open>None\<close> where the
  encoding of one of them stops the script.
\<close>

fun multisig_loop :: "crypto \<Rightarrow> script \<Rightarrow> bytes list \<Rightarrow> bytes list \<Rightarrow> (interpreter, bool option) action" where
  "multisig_loop C subscript [] keys = return (Some True)"
| "multisig_loop C subscript (bufSig # sigs) [] = return (Some False)"
| "multisig_loop C subscript (bufSig # sigs) (bufPubkey # keys) =
    bind (check_encodings C bufSig bufPubkey) (\<lambda>ok. if \<not> ok then return None else here (\<lambda>s.
      let sigs' = (if verify_sig C (ip_tx s) (nin s) bufSig bufPubkey subscript then sigs else bufSig # sigs) in
      if length sigs' > length keys then return (Some False) else multisig_loop C subscript sigs' keys))"

text \<open>The part of \<^verbatim>\<open>OP_CHECKMULTISIG\<close> after the counts: \<open>i\<close> elements of the stack take part, the dummy included.\<close>

definition multisig_finish :: "int \<Rightarrow> nat \<Rightarrow> bytes list \<Rightarrow> bool \<Rightarrow> op" where
  "multisig_finish n i st fSuccess = (let st = drop (i - 1) st in bind (put_stack st) (\<lambda>_. here (\<lambda>s.
     if length st < 1 then stop ''SCRIPT_ERR_INVALID_STACK_OPERATION''
     else if has_flag SCRIPT_VERIFY_NULLDUMMY s \<and> length (st ! 0) \<noteq> 0 then stop ''SCRIPT_ERR_SIG_NULLDUMMY''
     else bind (put_stack (bool_buf fSuccess # tl st)) (\<lambda>_.
       if n = 175 then verify_top fSuccess ''SCRIPT_ERR_CHECKMULTISIGVERIFY'' else return True))))"

definition op_checkmultisig :: "crypto \<Rightarrow> int \<Rightarrow> bool \<Rightarrow> op" where
  "op_checkmultisig C n fRequireMinimal = with_stack 1 (\<lambda>st.
     bind (lift (fromScriptNumBuffer (st ! 0) fRequireMinimal)) (\<lambda>nKeys.
     if nKeys < 0 \<or> nKeys > 20 then stop ''SCRIPT_ERR_PUBKEY_COUNT''
     else bind (modify (\<lambda>s. s\<lparr> nOpCount := nOpCount s + nKeys \<rparr>)) (\<lambda>_. here (\<lambda>s.
     if nOpCount s > 201 then stop ''SCRIPT_ERR_OP_COUNT''
     else with_stack (nat nKeys + 2) (\<lambda>_.
     bind (lift (fromScriptNumBuffer (st ! (nat nKeys + 1)) fRequireMinimal)) (\<lambda>nSigs.
     if nSigs < 0 \<or> nSigs > nKeys then stop ''SCRIPT_ERR_SIG_COUNT''
     else let i = nat nKeys + nat nSigs + 3; keys = take (nat nKeys) (drop 1 st);
              sigs = take (nat nSigs) (drop (nat nKeys + 2) st) in
       with_stack i (\<lambda>_.
       bind (lift (drop_sigs sigs (drop (pbegincodehash s) (ip_script s)))) (\<lambda>subscript.
       bind (multisig_loop C subscript sigs keys) (\<lambda>r. case r of
         None \<Rightarrow> return False
       | Some fSuccess \<Rightarrow> multisig_finish n i st fSuccess)))))))))"

section \<open>Steps\<close>

definition exec_op :: "crypto \<Rightarrow> int \<Rightarrow> bool \<Rightarrow> bool \<Rightarrow> op" where
  "exec_op C n fExec fRequireMinimal =
    (if n = OP_1NEGATE \<or> OP_1 \<le> n \<and> n \<le> OP_16 then op_number n
     else if n = 97 \<or> 176 \<le> n \<and> n \<le> 185 \<or> n = 99 \<or> n = 100 \<or> 103 \<le> n \<and> n \<le> OP_RETURN then op_control n fExec
     else if 107 \<le> n \<and> n \<le> 125 \<or> n = 130 then op_stack n fRequireMinimal
     else if n = OP_EQUAL \<or> n = OP_EQUALVERIFY then op_equal n
     else if n = 139 \<or> n = 140 \<or> 143 \<le> n \<and> n \<le> 146 then op_unary n fRequireMinimal
     else if n = 147 \<or> n = 148 \<or> 154 \<le> n \<and> n \<le> 164 then op_binary n fRequireMinimal
     else if n = 165 then op_within fRequireMinimal
     else if 166 \<le> n \<and> n \<le> 170 then op_hash C n
     else if n = OP_CODESEPARATOR then bind (modify (\<lambda>s. s\<lparr> pbegincodehash := pc s \<rparr>)) (\<lambda>_. return True)
     else if n = OP_CHECKSIG \<or> n = 173 then op_checksig C n
     else if n = OP_CHECKMULTISIG \<or> n = 175 then op_checkmultisig C n fRequireMinimal
     else stop ''SCRIPT_ERR_BAD_OPCODE'')"

definition disabled_op :: "int \<Rightarrow> bool" where
  "disabled_op n \<longleftrightarrow> n \<in> {126, 127, 128, 129, 131, 132, 133, 134, 141, 142, 149, 150, 151, 152, 153}"

definition push_chunk :: "chunk \<Rightarrow> bool \<Rightarrow> op" where
  "push_chunk c fRequireMinimal = here (\<lambda>s.
     bind (if fRequireMinimal then lift (checkMinimalPush (ip_script s) (pc s - 1)) else return True) (\<lambda>ok.
       if \<not> ok then stop ''SCRIPT_ERR_MINIMALDATA''
       else case buf c of None \<Rightarrow> push []
         | Some b \<Rightarrow> if len c \<noteq> int (length b) then throw (GenericError ''Length of push value not equal to length of data'')
                    else push b))"

definition step_chunk :: "crypto \<Rightarrow> chunk \<Rightarrow> bool \<Rightarrow> bool \<Rightarrow> op" where
  "step_chunk C c fExec fRequireMinimal = (let n = opcodenum c in
     if (case buf c of None \<Rightarrow> False | Some b \<Rightarrow> length b > MAX_SCRIPT_ELEMENT_SIZE) then stop ''SCRIPT_ERR_PUSH_SIZE''
     else bind (if n > OP_16 then modify (\<lambda>s. s\<lparr> nOpCount := nOpCount s + 1 \<rparr>) else return ()) (\<lambda>_. here (\<lambda>s.
     if n > OP_16 \<and> nOpCount s > 201 then stop ''SCRIPT_ERR_OP_COUNT''
     else if disabled_op n then stop ''SCRIPT_ERR_DISABLED_OPCODE''
     else if fExec \<and> 0 \<le> n \<and> n \<le> OP_PUSHDATA4 then push_chunk c fRequireMinimal
     else if fExec \<or> 99 \<le> n \<and> n \<le> 104 then exec_op C n fExec fRequireMinimal
     else return True)))"

definition step :: "crypto \<Rightarrow> op" where
  "step C = here (\<lambda>s. bind (modify (\<lambda>s. s\<lparr> pc := pc s + 1 \<rparr>)) (\<lambda>_.
     step_chunk C (ip_script s ! pc s) (False \<notin> set (vfExec s)) (has_flag SCRIPT_VERIFY_MINIMALDATA s)))"

section \<open>The loop ends\<close>

declare keeps_here_all [keeps_intros] keeps_option [keeps_intros] keeps_prod [keeps_intros]

text \<open>What every operation keeps: a property that does not look at the parts of the state they change.\<close>

locale op_frame =
  fixes P :: "interpreter \<Rightarrow> bool"
  assumes upd: "P s \<Longrightarrow> P (s\<lparr> errstr := msg \<rparr>)" "P s \<Longrightarrow> P (s\<lparr> stack := st \<rparr>)" "P s \<Longrightarrow> P (s\<lparr> altstack := st \<rparr>)"
    "P s \<Longrightarrow> P (s\<lparr> vfExec := v \<rparr>)" "P s \<Longrightarrow> P (s\<lparr> nOpCount := k \<rparr>)" "P s \<Longrightarrow> P (s\<lparr> pbegincodehash := n \<rparr>)"
begin

lemma keeps_update:
  "keeps P (modify (\<lambda>s. s\<lparr> errstr := msg s \<rparr>))" "keeps P (modify (\<lambda>s. s\<lparr> stack := st s \<rparr>))"
  "keeps P (modify (\<lambda>s. s\<lparr> altstack := st s \<rparr>))" "keeps P (modify (\<lambda>s. s\<lparr> vfExec := v s \<rparr>))"
  "keeps P (modify (\<lambda>s. s\<lparr> nOpCount := k s \<rparr>))" "keeps P (modify (\<lambda>s. s\<lparr> pbegincodehash := n s \<rparr>))"
  "keeps P (modify (\<lambda>s. s\<lparr> stack := st s, vfExec := v s \<rparr>))"
  by (auto intro!: keeps_modify upd)

lemma keeps_basic:
  "keeps P (stop msg)" "keeps P (put_stack st)" "keeps P (push b)" "keeps P (verify_top ok msg)"
  by (simp_all only: stop_def put_stack_def push_def verify_top_def)
     (rule keeps_intros keeps_update | assumption)+

lemma keeps_with_stack: "(\<And>st. keeps P (f st)) \<Longrightarrow> keeps P (with_stack n f)"
  unfolding with_stack_def by (intro keeps_here_all keeps_If keeps_basic)

lemmas keeps_rules = keeps_return keeps_throw keeps_lift keeps_bind keeps_here_all keeps_If keeps_option keeps_prod
  keeps_basic keeps_with_stack

lemma keeps_encodings: "keeps P (check_encodings C b b')"
  unfolding check_encodings_def checkSignatureEncoding_def checkPubkeyEncoding_def by (intro keeps_rules)

lemma keeps_multisig_loop: "keeps P (multisig_loop C sub sigs keys)"
  by (induction C sub sigs keys rule: multisig_loop.induct)
     (auto intro!: keeps_rules keeps_encodings simp: Let_def)

lemma keeps_number: "keeps P (op_number n)"
  unfolding op_number_def by (rule keeps_basic)

lemma keeps_control: "keeps P (op_control n e)"
  unfolding op_control_def Let_def by (intro keeps_rules keeps_update)

lemma keeps_altstack: "keeps P (op_altstack n)"
  unfolding op_altstack_def by (intro keeps_rules keeps_update)

lemma keeps_pick_roll: "keeps P (op_pick_roll n m)"
  unfolding op_pick_roll_def Let_def by (intro keeps_rules)

lemma keeps_stack: "keeps P (op_stack n m)"
  unfolding op_stack_def op_reorder_def by (intro keeps_rules keeps_altstack keeps_pick_roll)

lemma keeps_equal: "keeps P (op_equal n)"
  unfolding op_equal_def Let_def by (intro keeps_rules)

lemma keeps_numeric: "keeps P (op_unary n m)" "keeps P (op_binary n m)" "keeps P (op_within m)" "keeps P (op_hash C n)"
  unfolding op_unary_def op_binary_def op_within_def op_hash_def Let_def by (intro keeps_rules)+

lemma keeps_checksig: "keeps P (op_checksig C n)"
  unfolding op_checksig_def Let_def by (intro keeps_rules keeps_encodings)

lemma keeps_checkmultisig: "keeps P (op_checkmultisig C n m)"
  unfolding op_checkmultisig_def multisig_finish_def Let_def by (intro keeps_rules keeps_update keeps_multisig_loop)

lemma keeps_exec_op: "keeps P (exec_op C n e m)"
  unfolding exec_op_def
  by (intro keeps_rules keeps_update keeps_number keeps_control keeps_stack keeps_equal keeps_numeric keeps_checksig keeps_checkmultisig)

lemma keeps_push_chunk: "keeps P (push_chunk c m)"
  unfolding push_chunk_def by (intro keeps_rules)

lemma keeps_step_chunk: "keeps P (step_chunk C c e m)"
  unfolding step_chunk_def Let_def by (intro keeps_rules keeps_update keeps_exec_op keeps_push_chunk)

end

text \<open>An operation moves neither the program counter nor the script.\<close>

definition placed :: "nat \<Rightarrow> script \<Rightarrow> interpreter \<Rightarrow> bool" where
  "placed k sc s \<longleftrightarrow> pc s = k \<and> ip_script s = sc"

interpretation placed: op_frame "placed k sc" for k sc
  by unfold_locales (simp_all add: placed_def)

lemma step_pc: "step C s = (r, s') \<Longrightarrow> pc s' = Suc (pc s) \<and> ip_script s' = ip_script s"
proof -
  assume *: "step C s = (r, s')"
  have "placed (Suc (pc s)) (ip_script s) (s\<lparr> pc := pc s + 1 \<rparr>)" by (simp add: placed_def)
  from keepsD[OF placed.keeps_step_chunk this, of C "ip_script s ! pc s" "False \<notin> set (vfExec s)" "has_flag SCRIPT_VERIFY_MINIMALDATA s"]
  show ?thesis using * by (simp add: step_def here_def bind_def modify_def placed_def)
qed

function eval_loop :: "crypto \<Rightarrow> op" where
  "eval_loop C s = (if pc s < length (ip_script s)
     then (case step C s of (Inl e, s') \<Rightarrow> (Inl e, s')
           | (Inr ok, s') \<Rightarrow> if ok then eval_loop C s' else (Inr False, s'))
     else (Inr True, s))"
  by pat_completeness auto
termination
  by (relation "measure (\<lambda>(C, s). length (ip_script s) - pc s)") (auto dest!: step_pc[OF sym])

declare eval_loop.simps [simp del]

section \<open>Evaluation and verification\<close>

definition evaluate :: "crypto \<Rightarrow> op" where
  "evaluate C = here (\<lambda>s. bind (lift (Script_toBuffer (ip_script s))) (\<lambda>b.
     if length b > 10000 then stop ''SCRIPT_ERR_SCRIPT_SIZE''
     else (\<lambda>s. case eval_loop C s of
         (Inl e, s') \<Rightarrow> stop ''SCRIPT_ERR_UNKNOWN_ERROR: '' s'
       | (Inr ok, s') \<Rightarrow> if \<not> ok then (Inr False, s')
           else if length (stack s') + length (altstack s') > 1000 then stop ''SCRIPT_ERR_STACK_SIZE'' s'
           else if length (vfExec s') > 0 then stop ''SCRIPT_ERR_UNBALANCED_CONDITIONAL'' s'
           else (Inr True, s'))))"

text \<open>The last part of \<^verbatim>\<open>verify\<close>, for outputs that pay to the hash of a script.\<close>

definition verify_p2sh :: "crypto \<Rightarrow> script \<Rightarrow> bytes list \<Rightarrow> transaction \<Rightarrow> nat \<Rightarrow> int \<Rightarrow> op" where
  "verify_p2sh C scriptSig stackCopy tx n flags =
    (if \<not> isPushOnly scriptSig then stop ''SCRIPT_ERR_SIG_PUSHONLY''
     else case stackCopy of [] \<Rightarrow> throw (GenericError ''internal error - stack copy empty'')
     | redeem # rest \<Rightarrow> bind (lift (Script_fromBuffer redeem)) (\<lambda>redeemScript.
         bind (modify (\<lambda>_. load redeemScript rest tx n flags)) (\<lambda>_.
         bind (evaluate C) (\<lambda>ok. if \<not> ok then return False else here (\<lambda>s.
         if stack s = [] then stop ''SCRIPT_ERR_EVAL_FALSE_NO_P2SH_STACK''
         else if \<not> castToBool (stack s ! 0) then stop ''SCRIPT_ERR_EVAL_FALSE_IN_P2SH_STACK''
         else return True)))))"

definition Interpreter_verify :: "crypto \<Rightarrow> script \<Rightarrow> script \<Rightarrow> transaction \<Rightarrow> nat \<Rightarrow> int \<Rightarrow> op" where
  "Interpreter_verify C scriptSig scriptPubkey tx n flags =
    bind (modify (\<lambda>_. load scriptSig [] tx n flags)) (\<lambda>_.
    if flags AND SCRIPT_VERIFY_SIGPUSHONLY \<noteq> 0 \<and> \<not> isPushOnly scriptSig then stop ''SCRIPT_ERR_SIG_PUSHONLY''
    else bind (evaluate C) (\<lambda>ok. if \<not> ok then return False else here (\<lambda>s. let stackCopy = stack s in
    bind (modify (\<lambda>_. load scriptPubkey (stack s) tx n flags)) (\<lambda>_.
    bind (evaluate C) (\<lambda>ok. if \<not> ok then return False else here (\<lambda>s.
    if stack s = [] then stop ''SCRIPT_ERR_EVAL_FALSE_NO_RESULT''
    else if \<not> castToBool (stack s ! 0) then stop ''SCRIPT_ERR_EVAL_FALSE_IN_STACK''
    else if flags AND SCRIPT_VERIFY_P2SH \<noteq> 0
    then bind (lift (isScriptHashOut scriptPubkey)) (\<lambda>p2sh.
      if p2sh then verify_p2sh C scriptSig stackCopy tx n flags else return True)
    else return True))))))"

text \<open>\<^verbatim>\<open>Interpreter().verify(...)\<close>: the answer of a new interpreter.\<close>

definition verify_input :: "crypto \<Rightarrow> script \<Rightarrow> script \<Rightarrow> transaction \<Rightarrow> nat \<Rightarrow> int \<Rightarrow> exn + bool" where
  "verify_input C scriptSig scriptPubkey tx n flags =
    fst (Interpreter_verify C scriptSig scriptPubkey tx n flags (load [] [] tx n flags))"

section \<open>Script numbers\<close>

lemma byte_top: "(w :: byte) AND 0x80 = 0 \<longleftrightarrow> uint w < 128"
proof -
  have "(w AND 0x80 = 0) = (\<not> bit w 7)" using and_exp_eq_0_iff_not_bit[of w 7] by simp
  also have "bit w 7 \<longleftrightarrow> odd (uint w div 128)" using bit_uint_iff[of w 7] bit_iff_odd[of "uint w" 7] by simp
  also have "\<dots> \<longleftrightarrow> 128 \<le> uint w"
  proof -
    have "uint w < 256" using uint_lt2p[of w] by simp
    moreover have "0 \<le> u \<Longrightarrow> u < 256 \<Longrightarrow> odd (u div 128) \<longleftrightarrow> 128 \<le> u" for u :: int by presburger
    ultimately show ?thesis by simp
  qed
  finally show ?thesis by auto
qed

lemma byte_low: "(w :: byte) AND 0x80 = 0 \<Longrightarrow> w AND 0x7f = w"
proof -
  assume w: "w AND 0x80 = 0"
  have "w AND (0x7f OR 0x80) = (w AND 0x7f) OR (w AND 0x80)" by (rule bit.conj_disj_distrib)
  moreover have "(0x7f OR 0x80 :: byte) = - 1"
    by (simp add: word_uint_eq_iff unsigned_minus_1_eq_mask mask_eq_exp_minus_1)
  ultimately show ?thesis using w by (simp only: bit.conj_one_right or.right_neutral)
qed

lemma byte_sign: "(w :: byte) AND 0x80 = 0 \<Longrightarrow> (w OR 0x80) AND 0x7f = w" "((w :: byte) OR 0x80) AND 0x80 \<noteq> 0"
proof -
  show "(w OR 0x80) AND 0x7f = w" if "w AND 0x80 = 0"
    using byte_low[OF that] by (simp add: bit.conj_disj_distrib2)
  have "bit (w OR 2 ^ 7) 7" by (simp add: bit_or_iff bit_exp_iff)
  then have "(w OR 2 ^ 7) AND 2 ^ 7 \<noteq> 0" by (simp only: and_exp_eq_0_iff_not_bit not_not)
  then show "(w OR 0x80) AND 0x80 \<noteq> 0" by simp
qed

lemma be_Cons: "0 < n \<Longrightarrow> \<exists>b bs. be_bytes n = b # bs \<and> b \<noteq> 0"
  using be_first[of n] length_be(1)[of n] by (cases "be_bytes n") auto

lemma be_zero: "be_bytes 0 = [0]"
  by (simp add: be_bytes_def bn_natlen_def bitlen_def floorlog_def)

lemma fromBuffer_zero: "bn_fromBuffer (0 # b) = bn_fromBuffer b"
proof -
  have "le_val (b @ [0]) = le_val b" for b by (induction b) simp_all
  then show ?thesis by (simp add: bn_fromBuffer_def)
qed

lemma toSM_pos:
  "0 < n \<Longrightarrow> toSMBigEndian n = (if be_bytes n ! 0 AND 0x80 \<noteq> 0 then 0 # be_bytes n else be_bytes n)"
  using be_Cons[of n] by (auto simp: toSMBigEndian_def Let_def)

lemma toSM_neg:
  "n < 0 \<Longrightarrow> toSMBigEndian n = (if be_bytes (- n) ! 0 AND 0x80 \<noteq> 0 then 0x80 # be_bytes (- n)
     else (be_bytes (- n) ! 0 OR 0x80) # tl (be_bytes (- n)))"
proof -
  assume n: "n < 0"
  have "be_bytes (- n) ! 0 OR 0x80 \<noteq> 0" using byte_sign(2)[of "be_bytes (- n) ! 0"] by (metis bit.conj_zero_left)
  with n length_be(1)[of "- n"] show ?thesis by (auto simp: toSMBigEndian_def Let_def)
qed

lemma fromSM_toScriptNum: "fromSM (toScriptNumBuffer n) = n"
proof -
  consider "n = 0" | "0 < n" | "n < 0" by linarith
  then show ?thesis
  proof cases
    case 1
    then show ?thesis by (simp add: fromSM_def toScriptNumBuffer_def toSMBigEndian_def be_zero)
  next
    case 2
    then obtain b bs where b: "be_bytes n = b # bs" "b \<noteq> 0" using be_Cons by blast
    with 2 from_be[of n] show ?thesis
      by (simp add: toScriptNumBuffer_def toSM_pos fromSM_def fromBuffer_zero Let_def)
  next
    case 3
    then obtain b bs where b: "be_bytes (- n) = b # bs" "b \<noteq> 0" using be_Cons[of "- n"] by auto
    have "bn_fromBuffer (b # bs) = - n" using 3 from_be[of "- n"] b by simp
    moreover have "(0x80 :: byte) AND 0x80 \<noteq> 0" "(0x80 :: byte) AND 0x7f = 0" by (simp_all add: word_uint_eq_iff)
    ultimately show ?thesis using 3 b byte_sign[of b]
      by (simp add: toScriptNumBuffer_def toSM_neg fromSM_def fromBuffer_zero Let_def)
  qed
qed

lemma toScriptNum_minimal:
  "\<not> (toScriptNumBuffer n \<noteq> [] \<and> last (toScriptNumBuffer n) AND 0x7f = 0
     \<and> (length (toScriptNumBuffer n) \<le> 1 \<or> toScriptNumBuffer n ! (length (toScriptNumBuffer n) - 2) AND 0x80 = 0))"
proof -
  have rev: "rev xs ! (length xs - 2) = xs ! 1" if "2 \<le> length xs" for xs :: bytes
    using that by (simp add: rev_nth numeral_2_eq_2)
  consider "n = 0" | b bs where "0 < n" "be_bytes n = b # bs" "b \<noteq> 0" | b bs where "n < 0" "be_bytes (- n) = b # bs" "b \<noteq> 0"
    using be_Cons[of n] be_Cons[of "- n"] by (cases "n = 0"; cases "0 < n") auto
  then show ?thesis
  proof cases
    case 1
    then show ?thesis by (simp add: toScriptNumBuffer_def toSMBigEndian_def be_zero)
  next
    case 2
    then show ?thesis using byte_low[of b] rev[of "0 # b # bs"]
      by (auto simp: toScriptNumBuffer_def toSM_pos last_rev)
  next
    case 3
    then show ?thesis using byte_sign[of b] rev[of "0x80 # b # bs"]
      by (auto simp: toScriptNumBuffer_def toSM_neg last_rev)
  qed
qed

lemma be_top: "0 < m \<Longrightarrow> be_bytes m ! 0 AND 0x80 = 0 \<longleftrightarrow> m < 128 * 256 ^ (bn_natlen m - 1)"
proof -
  assume m: "0 < m"
  obtain k where k: "bn_natlen m = Suc k" using natlen_ge[of m] by (cases "bn_natlen m") auto
  have b: "256 ^ k \<le> m" "m < 256 ^ Suc k" using natlen_least[OF m] natlen_bound[of m] m k by simp_all
  then have "m div 256 ^ k < 256" "0 \<le> m div 256 ^ k" using m by (simp_all add: pos_imp_zdiv_nonneg_iff zdiv_less)
  then have "uint (word_of_int (m div 256 ^ k) :: byte) = m div 256 ^ k" by (simp add: uint_byte)
  moreover have "be_bytes m ! 0 = word_of_int (m div 256 ^ k)"
    by (simp add: be_bytes_def k le_bytes_last del: le_bytes.simps)
  moreover have "m div 256 ^ k < 128 \<longleftrightarrow> m < 128 * 256 ^ k"
  proof
    assume "m div 256 ^ k < 128"
    then have "m div 256 ^ k + 1 \<le> 128" by simp
    from mult_right_mono[OF this, of "256 ^ k"] have "m div 256 ^ k * 256 ^ k + 256 ^ k \<le> 128 * 256 ^ k"
      by (simp add: distrib_right)
    moreover have "m mod 256 ^ k < 256 ^ k" by simp
    ultimately show "m < 128 * 256 ^ k" using div_mult_mod_eq[of m "256 ^ k"] by linarith
  next
    assume "m < 128 * 256 ^ k"
    then show "m div 256 ^ k < 128" by (rule zdiv_less) simp
  qed
  ultimately show ?thesis by (simp add: byte_top k)
qed

lemma four_bytes:
  assumes "0 < m"
  shows "bn_natlen m + of_bool (be_bytes m ! 0 AND 0x80 \<noteq> 0) \<le> 4 \<longleftrightarrow> m < 2 ^ 31"
proof -
  obtain k where k: "bn_natlen m = Suc k" using natlen_ge[of m] by (cases "bn_natlen m") auto
  have b: "256 ^ k \<le> m" "m < 256 ^ Suc k" using natlen_least[OF assms] natlen_bound[of m] assms k by simp_all
  consider "k \<le> 2" | "k = 3" | "4 \<le> k" by linarith
  then show ?thesis
  proof cases
    case 1
    then have "(256 :: int) ^ Suc k \<le> 256 ^ 3" by (intro power_increasing) simp_all
    with b 1 show ?thesis by (simp add: k)
  next
    case 2
    then show ?thesis using be_top[OF assms] by (simp add: k)
  next
    case 3
    then have "(256 :: int) ^ 4 \<le> 256 ^ k" by (intro power_increasing) simp_all
    with b 3 show ?thesis by (simp add: k)
  qed
qed

lemma length_toScriptNum: "length (toScriptNumBuffer n) \<le> 4 \<longleftrightarrow> \<bar>n\<bar> < 2 ^ 31"
proof -
  have l: "length (be_bytes m) = bn_natlen m" for m by (simp add: be_bytes_def)
  consider "n = 0" | "0 < n" | "n < 0" by linarith
  then show ?thesis
  proof cases
    case 1
    then show ?thesis by (simp add: toScriptNumBuffer_def toSMBigEndian_def be_zero)
  next
    case 2
    then have "length (toScriptNumBuffer n) = bn_natlen n + of_bool (be_bytes n ! 0 AND 0x80 \<noteq> 0)"
      by (simp add: toScriptNumBuffer_def toSM_pos l)
    with 2 four_bytes[of n] show ?thesis by simp
  next
    case 3
    then have "length (toScriptNumBuffer n) = bn_natlen (- n) + of_bool (be_bytes (- n) ! 0 AND 0x80 \<noteq> 0)"
      using length_be(1)[of "- n"] by (simp add: toScriptNumBuffer_def toSM_neg l)
    with 3 four_bytes[of "- n"] show ?thesis by simp
  qed
qed

text \<open>
  C26: a number pushed by an operation is read back by the next one when its magnitude is below \<open>2 ^ 31\<close>, also where
  minimal encodings are required; beyond that reading it throws, however the result of the arithmetic itself is
  never truncated.
\<close>

theorem scriptnum_roundtrip:
  "fromScriptNumBuffer (toScriptNumBuffer n) fRequireMinimal
    = (if \<bar>n\<bar> < 2 ^ 31 then Inr n else Inl (InvalidArgument ''script number overflow''))"
  using toScriptNum_minimal[of n] length_toScriptNum[of n] fromSM_toScriptNum[of n]
  by (auto simp: fromScriptNumBuffer_def last_conv_nth)

end
