(* ===== verification/Spending.thy ===== *)
theory Spending
  imports Interpreter
begin

unbundle bit_operations_syntax

text \<open>
  The interpreter on the two kinds of output the channel uses: outputs that pay to the hash of a key and outputs that pay
  to the hash of a two-of-two script.
\<close>

section \<open>Single steps\<close>

lemma buffer_chunk_small:
  "length b < 76 \<Longrightarrow> buffer_chunk b = Inr (key_chunk b)"
  by (simp add: buffer_chunk_def key_chunk_def Let_def)

lemma buffer_chunk_sel:
  "buffer_chunk b = Inr c \<Longrightarrow> length b \<le> 520 \<Longrightarrow> buf c = Some b \<and> len c = int (length b) \<and> 0 \<le> opcodenum c \<and> opcodenum c \<le> 77
     \<and> opcodenum c = (if length b < 76 then int (length b) else if length b < 256 then 76 else 77)"
  by (auto simp: buffer_chunk_def Let_def split: if_splits)

text \<open>A push of two bytes or more, as \<^verbatim>\<open>_addBuffer\<close> makes it, is the minimal one.\<close>

lemma step_push:
  assumes "vfExec s = []" "pc s < length (ip_script s)" "buffer_chunk b = Inr (ip_script s ! pc s)" "2 \<le> length b" "length b \<le> 520"
  shows "step C s = (Inr True, s\<lparr> pc := Suc (pc s), stack := b # stack s \<rparr>)"
proof -
  define c where "c = ip_script s ! pc s"
  note c = buffer_chunk_sel[OF assms(3)[folded c_def] assms(5)]
  have "checkMinimalPush (ip_script s) (pc s) = Inr True"
    using assms(2,4) c by (simp add: checkMinimalPush_def Let_def flip: c_def)
  then show ?thesis using assms(1,5) c
    by (simp add: step_def here_def bind_def modify_def step_chunk_def Let_def return_def disabled_op_def push_chunk_def lift_def
        push_def put_stack_def flip: c_def)
qed

lemma step_run:
  "vfExec s = [] \<Longrightarrow> step C s = step_chunk C (ip_script s ! pc s) True (has_flag SCRIPT_VERIFY_MINIMALDATA s) (s\<lparr> pc := Suc (pc s) \<rparr>)"
  by (simp add: step_def here_def bind_def modify_def)

lemma step_op:
  assumes "vfExec s = []" "ip_script s ! pc s = op_chunk n" "96 < n" "nOpCount s < 201" "\<not> disabled_op n"
  shows "step C s = exec_op C n True (has_flag SCRIPT_VERIFY_MINIMALDATA s) (s\<lparr> pc := Suc (pc s), nOpCount := nOpCount s + 1 \<rparr>)"
  using assms by (simp add: step_run step_chunk_def Let_def here_def bind_def modify_def)

lemma run_number: "81 \<le> n \<and> n \<le> 96 \<Longrightarrow> exec_op C n e m s = (Inr True, s\<lparr> stack := toScriptNumBuffer (n - 80) # stack s \<rparr>)"
  by (simp add: exec_op_def op_number_def push_def put_stack_def here_def bind_def modify_def return_def)

lemma step_number:
  assumes "vfExec s = []" "ip_script s ! pc s = op_chunk n" "81 \<le> n \<and> n \<le> 96"
  shows "step C s = (Inr True, s\<lparr> pc := Suc (pc s), stack := toScriptNumBuffer (n - 80) # stack s \<rparr>)"
  using assms(3) unfolding step_run[OF assms(1)] assms(2)
  by (simp add: step_chunk_def Let_def here_def bind_def return_def disabled_op_def run_number)

lemma step_zero:
  assumes "vfExec s = []" "pc s < length (ip_script s)" "ip_script s ! pc s = op_chunk 0"
  shows "step C s = (Inr True, s\<lparr> pc := Suc (pc s), stack := [] # stack s \<rparr>)"
  unfolding step_run[OF assms(1)] assms(3) using assms(2,3)
  by (simp add: step_chunk_def Let_def here_def bind_def return_def disabled_op_def push_chunk_def checkMinimalPush_def lift_def
      push_def put_stack_def modify_def)

lemma eval_step:
  "pc s < length (ip_script s) \<Longrightarrow> step C s = (Inr True, s') \<Longrightarrow> eval_loop C s = eval_loop C s'"
  by (subst eval_loop.simps) simp

lemma eval_end: "pc s = length (ip_script s) \<Longrightarrow> eval_loop C s = (Inr True, s)"
  by (subst eval_loop.simps) simp

lemma eval_last:
  "Suc (pc s) = length (ip_script s) \<Longrightarrow> step C s = (r, s') \<Longrightarrow> eval_loop C s = (r, s')"
  using step_pc[of C s r s'] by (subst eval_loop.simps) (auto simp: eval_end split: sum.splits if_splits)

lemmas run_op = exec_op_def with_stack_def here_def put_stack_def push_def bind_def modify_def return_def

lemma run_DUP: "stack s = x # st \<Longrightarrow> exec_op C OP_DUP e m s = (Inr True, s\<lparr> stack := x # x # st \<rparr>)"
  by (simp add: run_op op_stack_def)

lemma run_HASH160: "stack s = x # st \<Longrightarrow> exec_op C OP_HASH160 e m s = (Inr True, s\<lparr> stack := sha256ripemd160 C x # st \<rparr>)"
  by (simp add: run_op op_hash_def)

lemma run_EQUAL: "stack s = x # y # st \<Longrightarrow> exec_op C OP_EQUAL e m s = (Inr True, s\<lparr> stack := bool_buf (y = x) # st \<rparr>)"
  by (simp add: run_op op_equal_def Let_def)

lemma run_EQUALVERIFY:
  "stack s = x # y # st \<Longrightarrow> exec_op C OP_EQUALVERIFY e m s = (if y = x then (Inr True, s\<lparr> stack := st \<rparr>)
     else (Inr False, s\<lparr> stack := [] # st, errstr := ''SCRIPT_ERR_EQUALVERIFY'' \<rparr>))"
  by (simp add: run_op op_equal_def Let_def verify_top_def stop_def bool_buf_def)

section \<open>Signature checks\<close>

lemma successively_none: "(\<And>x. x \<in> set xs \<Longrightarrow> \<not> P x) \<Longrightarrow> successively (\<lambda>x y. \<not> (P x \<and> P y)) xs"
  by (induction xs rule: induct_list012) auto

lemma drop_sigs_none:
  assumes "list_all fits_chunk s" "list_all (\<lambda>b. length b < 76 \<and> list_all (\<lambda>c. length (chunk_wire c) \<noteq> length b + 1) s) sigs"
  shows "drop_sigs sigs s = Inr s"
  using assms(2)
proof (induction sigs)
  case (Cons b sigs)
  have b: "length b < 76" "c \<in> set s \<Longrightarrow> length (chunk_wire c) \<noteq> length b + 1" for c
    using Cons.prems by (auto simp: list_all_iff)
  have w: "length (chunk_wire (key_chunk b)) = length b + 1" "fits_chunk (key_chunk b)"
    using b(1) by (auto simp: chunk_wire_def key_chunk_def push_width_def fits_chunk_def)
  then have ne: "c \<in> set s \<Longrightarrow> chunk_wire c \<noteq> chunk_wire (key_chunk b)" for c using b(2)[of c] by metis
  have "successively (\<lambda>x y. \<not> (chunk_wire x = chunk_wire (key_chunk b) \<and> chunk_wire y = chunk_wire (key_chunk b))) s"
    using ne by (intro successively_none)
  from delete_chunks_filter[OF assms(1) this] ne
  have "delete_chunks (chunk_wire (key_chunk b)) s = Inr s" by (simp add: filter_id_conv)
  moreover have "addBuffer b False [] = Inr [key_chunk b]"
    using b(1) by (simp add: addBuffer_def buffer_chunk_small insertAtPosition_def)
  ultimately show ?case using Cons w(2) by (simp add: findAndDelete_def fits_toBuffer)
qed simp

lemma verify_sig_der:
  assumes "is_der der" "0 \<le> ty" "ty < 256" "pk_fromBuffer C pub = Some pub"
  shows "verify_sig C tx n (der @ [word_of_int ty]) pub sub \<longleftrightarrow> Sighash_verify C tx der ty pub n sub = Inr True"
proof -
  obtain g where g: "sig_ok g" "toDER g = Inr der" using assms(1) by (auto simp: is_der_def)
  show ?thesis using tx_format(3)[OF g assms(2,3)] g(2) assms(4) by (auto simp: verify_sig_def split: sum.split)
qed

text \<open>Flags that ask for strict encodings but not for low \<open>S\<close> values, as the channel's do.\<close>

lemma check_encodings_ok:
  assumes "is_der der" "0 \<le> ty" "ty < 256" "hasDefinedHashtype ty" "pk_valid C pub" "\<not> has_flag SCRIPT_VERIFY_LOW_S s"
  shows "check_encodings C (der @ [word_of_int ty]) pub s = (Inr True, s)"
proof -
  obtain g where g: "sig_ok g" "toDER g = Inr der" using assms(1) by (auto simp: is_der_def)
  show ?thesis using tx_format(2,3)[OF g assms(2,3)] assms(4-6)
    by (simp add: check_encodings_def checkSignatureEncoding_def checkPubkeyEncoding_def here_def bind_def return_def lift_def)
qed

lemma run_CHECKSIG:
  assumes "stack s = pub # sig # st" "drop_sigs [sig] (drop (pbegincodehash s) (ip_script s)) = Inr sub"
    "check_encodings C sig pub s = (Inr True, s)"
  shows "exec_op C OP_CHECKSIG e m s = (Inr True, s\<lparr> stack := bool_buf (verify_sig C (ip_tx s) (nin s) sig pub sub) # st \<rparr>)"
  using assms by (simp add: run_op op_checksig_def Let_def lift_def)

section \<open>Outputs that pay to a key\<close>

lemma load_sel [simp]:
  "ip_script (load sc st tx n f) = sc" "ip_tx (load sc st tx n f) = tx" "nin (load sc st tx n f) = n" "stack (load sc st tx n f) = st"
  "altstack (load sc st tx n f) = []" "pc (load sc st tx n f) = 0" "pbegincodehash (load sc st tx n f) = 0"
  "nOpCount (load sc st tx n f) = 0" "vfExec (load sc st tx n f) = []" "ip_flags (load sc st tx n f) = f"
  by (simp_all add: load_def)

lemma evaluate_run:
  assumes "Script_toBuffer (ip_script s) = Inr b" "length b \<le> 10000" "eval_loop C s = (Inr ok, s')"
    "ok \<Longrightarrow> length (stack s') + length (altstack s') \<le> 1000 \<and> vfExec s' = []"
  shows "evaluate C s = (Inr ok, s')"
  using assms by (cases ok) (auto simp: evaluate_def here_def bind_def lift_def)

definition channel_flags :: int where
  "channel_flags = SCRIPT_VERIFY_P2SH OR SCRIPT_VERIFY_STRICTENC OR SCRIPT_VERIFY_MINIMALDATA OR SCRIPT_VERIFY_SIGPUSHONLY"

lemma channel_flags: "channel_flags = 99"
  by (simp add: channel_flags_def)

text \<open>A signature with its type byte, as the scripts carry it.\<close>

definition good_sig :: "bytes \<Rightarrow> int \<Rightarrow> bool" where
  "good_sig der ty \<longleftrightarrow> is_der der \<and> 70 \<le> length der \<and> length der \<le> 72 \<and> 0 < ty \<and> ty < 256 \<and> hasDefinedHashtype ty"

definition good_pub :: "crypto \<Rightarrow> bytes \<Rightarrow> bool" where
  "good_pub C pub \<longleftrightarrow> pk_valid C pub \<and> pk_fromBuffer C pub = Some pub \<and> 2 \<le> length pub \<and> length pub < 70"

lemma good_checks:
  assumes "good_sig der ty" "good_pub C pub"
  shows "verify_sig C tx n (der @ [word_of_int ty]) pub sub \<longleftrightarrow> Sighash_verify C tx der ty pub n sub = Inr True"
    "ip_flags s AND SCRIPT_VERIFY_LOW_S = 0 \<Longrightarrow> check_encodings C (der @ [word_of_int ty]) pub s = (Inr True, s)"
  using assms verify_sig_der[of der ty C pub tx n sub] check_encodings_ok[of der ty C pub s]
  by (simp_all add: good_sig_def good_pub_def has_flag_def)

lemma eval_sig_script:
  assumes "good_sig der ty" "good_pub C pub"
  shows "evaluate C (load (sig_script pub der ty) [] tx n f)
    = (Inr True, (load (sig_script pub der ty) [] tx n f)\<lparr> pc := 2, stack := [pub, der @ [word_of_int ty]] \<rparr>)"
proof -
  let ?w = "word_of_int ty :: byte" and ?s = "load (sig_script pub der ty) [] tx n f"
  let ?s1 = "?s\<lparr> pc := 1, stack := [der @ [?w]] \<rparr>"
  have l: "length der < 75" "length pub < 76" "pub \<noteq> []" using assms by (auto simp: good_sig_def good_pub_def)
  have 1: "step C ?s = (Inr True, ?s1)"
    using step_push[of ?s "der @ [?w]" C] assms(1)
    by (simp add: sig_script_def buffer_chunk_small good_sig_def)
  have 2: "step C ?s1 = (Inr True, ?s\<lparr> pc := 2, stack := [pub, der @ [?w]] \<rparr>)"
    using step_push[of ?s1 pub C] assms(2)
    by (simp add: sig_script_def buffer_chunk_small good_pub_def numeral_2_eq_2)
  have "eval_loop C ?s = eval_loop C ?s1" by (rule eval_step[OF _ 1]) (simp add: sig_script_def)
  also have "\<dots> = (Inr True, ?s\<lparr> pc := 2, stack := [pub, der @ [?w]] \<rparr>)"
    by (rule eval_last[OF _ 2]) (simp add: sig_script_def)
  finally have run: "eval_loop C ?s = (Inr True, ?s\<lparr> pc := 2, stack := [pub, der @ [?w]] \<rparr>)" .
  have "Script_toBuffer (sig_script pub der ty) = Inr (sig_bytes pub der ty)"
    using wf_toBuffer[OF wf_sig_script[OF l]] by (simp add: sig_bytes_def)
  then show ?thesis
    using length_sig_bytes[OF l(1,2), of ty] by (intro evaluate_run[OF _ _ run]) (auto intro: order_trans)
qed

lemma p2pkh_subscript:
  "length h = 20 \<Longrightarrow> 70 \<le> length sig \<Longrightarrow> length sig < 76 \<Longrightarrow> drop_sigs [sig] (p2pkh h) = Inr (p2pkh h)"
  by (rule drop_sigs_none) (auto simp: p2pkh_def chunk_wire_def push_width_def fits_chunk_def)

lemma eval_p2pkh:
  assumes sig: "good_sig der ty" and pub: "good_pub C pub" and h: "length h = 20" and f: "f AND SCRIPT_VERIFY_LOW_S = 0"
  shows "\<exists>s'. evaluate C (load (p2pkh h) [pub, der @ [word_of_int ty]] tx n f) = (Inr (sha256ripemd160 C pub = h), s')
    \<and> (sha256ripemd160 C pub = h \<longrightarrow> stack s' = [bool_buf (Sighash_verify C tx der ty pub n (p2pkh h) = Inr True)])"
proof -
  let ?sig = "der @ [word_of_int ty :: byte]" and ?v = "Sighash_verify C tx der ty pub n (p2pkh h) = Inr True"
  let ?s = "load (p2pkh h) [pub, ?sig] tx n f" and ?H = "sha256ripemd160 C pub"
  let ?s1 = "?s\<lparr> pc := 1, nOpCount := 1, stack := [pub, pub, ?sig] \<rparr>" and ?s2 = "?s\<lparr> pc := 2, nOpCount := 2, stack := [?H, pub, ?sig] \<rparr>"
  let ?s3 = "?s\<lparr> pc := 3, nOpCount := 2, stack := [h, ?H, pub, ?sig] \<rparr>" and ?s4 = "?s\<lparr> pc := 4, nOpCount := 3, stack := [pub, ?sig] \<rparr>"
  let ?s4' = "?s\<lparr> pc := 4, nOpCount := 3, stack := [[], pub, ?sig], errstr := ''SCRIPT_ERR_EQUALVERIFY'' \<rparr>"
  let ?s5 = "?s\<lparr> pc := 5, nOpCount := 4, stack := [bool_buf ?v] \<rparr>"
  have n: "\<not> disabled_op 118" "\<not> disabled_op 169" "\<not> disabled_op 136" "\<not> disabled_op 172" by (simp_all add: disabled_op_def)
  have b: "buffer_chunk h = Inr (data_chunk 20 h 20)" using h by (simp add: buffer_chunk_small key_chunk_def)
  have 1: "step C ?s = (Inr True, ?s1)"
    using step_op[of ?s 118 C] n by (simp add: p2pkh_def run_DUP)
  have 2: "step C ?s1 = (Inr True, ?s2)"
    using step_op[of ?s1 169 C] n by (simp add: p2pkh_def run_HASH160 numeral_2_eq_2)
  have 3: "step C ?s2 = (Inr True, ?s3)"
    using step_push[of ?s2 h C] b h by (simp add: p2pkh_def numeral_eq_Suc)
  have 4: "step C ?s3 = (if ?H = h then (Inr True, ?s4) else (Inr False, ?s4'))"
    using step_op[of ?s3 136 C] n by (simp add: p2pkh_def run_EQUALVERIFY numeral_eq_Suc)
  have l: "70 \<le> length ?sig" "length ?sig < 76" using sig by (auto simp: good_sig_def)
  have enc: "check_encodings C ?sig pub t = (Inr True, t)" if "ip_flags t = f" for t
    using good_checks(2)[OF sig pub] f that by simp
  have ver: "verify_sig C tx n ?sig pub (p2pkh h) \<longleftrightarrow> ?v" by (rule good_checks(1)[OF sig pub])
  have 5: "step C ?s4 = (Inr True, ?s5)"
    using step_op[of ?s4 172 C] n run_CHECKSIG[of "?s4\<lparr> pc := 5, nOpCount := 4 \<rparr>" pub ?sig "[]" "p2pkh h" C]
      p2pkh_subscript[OF h l] enc ver by (simp add: p2pkh_def numeral_eq_Suc)
  have len: "length (p2pkh h) = 5" by (simp add: p2pkh_def)
  have "eval_loop C ?s = eval_loop C ?s1" by (rule eval_step[OF _ 1]) (simp add: len)
  also have "\<dots> = eval_loop C ?s2" by (rule eval_step[OF _ 2]) (simp add: len)
  also have "\<dots> = eval_loop C ?s3" by (rule eval_step[OF _ 3]) (simp add: len)
  also have "\<dots> = (if ?H = h then eval_loop C ?s4 else (Inr False, ?s4'))"
    by (subst eval_loop.simps) (simp add: 4 len)
  also have "eval_loop C ?s4 = (Inr True, ?s5)" by (rule eval_last[OF _ 5]) (simp add: len)
  finally have run: "eval_loop C ?s = (Inr (?H = h), if ?H = h then ?s5 else ?s4')" by simp
  have "evaluate C ?s = (Inr (?H = h), if ?H = h then ?s5 else ?s4')"
    by (rule evaluate_run[OF _ _ run]) (use toBuffer_p2pkh[OF h] h in auto)
  then show ?thesis by auto
qed

lemma cast_bool_buf [simp]: "castToBool (bool_buf b) = b"
  by (simp add: bool_buf_def)

lemma sig_script_push: "good_sig der ty \<Longrightarrow> good_pub C pub \<Longrightarrow> isPushOnly (sig_script pub der ty)"
  by (simp add: isPushOnly_def sig_script_def key_chunk_def good_sig_def good_pub_def)

lemma verify_p2pkh:
  assumes "good_sig der ty" "good_pub C pub" "length h = 20"
  shows "verify_input C (sig_script pub der ty) (p2pkh h) tx n channel_flags
    = Inr (sha256ripemd160 C pub = h \<and> Sighash_verify C tx der ty pub n (p2pkh h) = Inr True)"
proof -
  obtain s' where "evaluate C (load (p2pkh h) [pub, der @ [word_of_int ty]] tx n channel_flags) = (Inr (sha256ripemd160 C pub = h), s')"
    "sha256ripemd160 C pub = h \<longrightarrow> stack s' = [bool_buf (Sighash_verify C tx der ty pub n (p2pkh h) = Inr True)]"
    using eval_p2pkh[OF assms, of channel_flags tx n] by (auto simp: channel_flags)
  then show ?thesis
    using eval_sig_script[OF assms(1,2), of tx n channel_flags] sig_script_push[OF assms(1,2)] assms(3)
    by (auto simp: verify_input_def Interpreter_verify_def bind_def modify_def here_def return_def lift_def stop_def Let_def)
qed

section \<open>Outputs that pay to a two-of-two script\<close>

definition key_ok :: "bytes \<Rightarrow> bool" where
  "key_ok k \<longleftrightarrow> k \<noteq> [] \<and> length k < 76"

text \<open>The two-of-two script of a channel and its hash.\<close>

definition redeem_of :: "bytes list \<Rightarrow> script" where
  "redeem_of keys = op_chunk 82 # map key_chunk keys @ [op_chunk 82, op_chunk OP_CHECKMULTISIG]"

definition channel_hash :: "crypto \<Rightarrow> bytes list \<Rightarrow> bytes" where
  "channel_hash C keys = sha256ripemd160 C (concat (map chunk_wire (redeem_of keys)))"

lemma wf_redeem: "list_all key_ok keys \<Longrightarrow> list_all wf_chunk (redeem_of keys)"
  by (auto simp: redeem_of_def wf_chunk_def key_chunk_def list_all_iff key_ok_def)

lemma step_eval: "step C s = (Inr True, s') \<Longrightarrow> pc s < length (ip_script s) \<Longrightarrow> eval_loop C s' = r \<Longrightarrow> eval_loop C s = r"
  using eval_step by metis

text \<open>The input script that \<^verbatim>\<open>buildP2SHMultisigIn\<close> makes of the signatures and the serialized redeem script.\<close>

definition multisig_script :: "bytes list \<Rightarrow> chunk \<Rightarrow> script" where
  "multisig_script sigs c = op_chunk OP_0 # map key_chunk sigs @ [c]"

lemma eval_multisig_script:
  assumes "2 \<le> length a" "length a < 76" "2 \<le> length b" "length b < 76" "2 \<le> length r" "length r \<le> 520" "buffer_chunk r = Inr c"
  shows "eval_loop C (load (multisig_script [a, b] c) [] tx n f)
    = (Inr True, (load (multisig_script [a, b] c) [] tx n f)\<lparr> pc := 4, stack := [r, b, a, []] \<rparr>)"
proof -
  let ?s = "load (multisig_script [a, b] c) [] tx n f"
  let ?s1 = "?s\<lparr> pc := 1, stack := [[]] \<rparr>" and ?s2 = "?s\<lparr> pc := 2, stack := [a, []] \<rparr>" and ?s3 = "?s\<lparr> pc := 3, stack := [b, a, []] \<rparr>"
  have len: "length (multisig_script [a, b] c) = 4" by (simp add: multisig_script_def)
  have 1: "step C ?s = (Inr True, ?s1)" using step_zero[of ?s C] by (simp add: multisig_script_def)
  have 2: "step C ?s1 = (Inr True, ?s2)"
    using step_push[of ?s1 a C] assms(1,2) by (simp add: multisig_script_def buffer_chunk_small numeral_2_eq_2)
  have 3: "step C ?s2 = (Inr True, ?s3)"
    using step_push[of ?s2 b C] assms(3,4) by (simp add: multisig_script_def buffer_chunk_small numeral_eq_Suc)
  have 4: "step C ?s3 = (Inr True, ?s\<lparr> pc := 4, stack := [r, b, a, []] \<rparr>)"
    using step_push[of ?s3 r C] assms(5-7) by (simp add: multisig_script_def numeral_eq_Suc)
  show ?thesis
    by (rule step_eval[OF 1], simp add: len, rule step_eval[OF 2], simp add: len, rule step_eval[OF 3], simp add: len,
        rule eval_last[OF _ 4]) (simp add: len)
qed

lemma eval_p2sh:
  assumes "length h = 20"
  shows "eval_loop C (load (p2sh h) (r # st) tx n f)
    = (Inr True, (load (p2sh h) (r # st) tx n f)\<lparr> pc := 3, nOpCount := 2, stack := bool_buf (sha256ripemd160 C r = h) # st \<rparr>)"
proof -
  let ?s = "load (p2sh h) (r # st) tx n f"
  let ?s1 = "?s\<lparr> pc := 1, nOpCount := 1, stack := sha256ripemd160 C r # st \<rparr>"
  let ?s2 = "?s\<lparr> pc := 2, nOpCount := 1, stack := h # sha256ripemd160 C r # st \<rparr>"
  have n: "\<not> disabled_op 169" "\<not> disabled_op 135" by (simp_all add: disabled_op_def)
  have len: "length (p2sh h) = 3" by (simp add: p2sh_def)
  have 1: "step C ?s = (Inr True, ?s1)" using step_op[of ?s 169 C] n by (simp add: p2sh_def run_HASH160)
  have 2: "step C ?s1 = (Inr True, ?s2)"
    using step_push[of ?s1 h C] assms by (simp add: p2sh_def buffer_chunk_small key_chunk_def numeral_2_eq_2)
  have 3: "step C ?s2 = (Inr True, ?s\<lparr> pc := 3, nOpCount := 2, stack := bool_buf (sha256ripemd160 C r = h) # st \<rparr>)"
    using step_op[of ?s2 135 C] n by (simp add: p2sh_def run_EQUAL numeral_eq_Suc)
  show ?thesis
    by (rule step_eval[OF 1], simp add: len, rule step_eval[OF 2], simp add: len, rule eval_last[OF _ 3]) (simp add: len)
qed

lemma multisig_loop_two:
  assumes "\<And>g k. (g = g1 \<and> k = k1) \<or> (g = g2 \<and> k = k2) \<Longrightarrow> check_encodings C g k s = (Inr True, s)"
  shows "multisig_loop C sub [g2, g1] [k2, k1] s
    = (Inr (Some (verify_sig C (ip_tx s) (nin s) g2 k2 sub \<and> verify_sig C (ip_tx s) (nin s) g1 k1 sub)), s)"
  using assms by (simp add: bind_def here_def return_def Let_def)

lemma scriptnum_two: "fromScriptNumBuffer (toScriptNumBuffer 2) m = Inr 2"
  using toScriptNum_minimal[of 2] length_toScriptNum[of 2] fromSM_toScriptNum[of 2]
  by (auto simp: fromScriptNumBuffer_def last_conv_nth)

lemma run_CHECKMULTISIG:
  assumes st: "stack s = [toScriptNumBuffer 2, k2, k1, toScriptNumBuffer 2, g2, g1, []]" and cnt: "nOpCount s \<le> 199"
    and sub: "drop_sigs [g2, g1] (drop (pbegincodehash s) (ip_script s)) = Inr sub"
    and enc: "\<And>g k t. ip_flags t = ip_flags s \<Longrightarrow> (g = g1 \<and> k = k1) \<or> (g = g2 \<and> k = k2) \<Longrightarrow> check_encodings C g k t = (Inr True, t)"
  shows "exec_op C OP_CHECKMULTISIG e m s = (Inr True, s\<lparr> nOpCount := nOpCount s + 2,
    stack := [bool_buf (verify_sig C (ip_tx s) (nin s) g2 k2 sub \<and> verify_sig C (ip_tx s) (nin s) g1 k1 sub)] \<rparr>)"
proof -
  let ?t = "s\<lparr> nOpCount := nOpCount s + 2 \<rparr>"
  have loop: "multisig_loop C sub [g2, g1] [k2, k1] ?t
      = (Inr (Some (verify_sig C (ip_tx s) (nin s) g2 k2 sub \<and> verify_sig C (ip_tx s) (nin s) g1 k1 sub)), ?t)"
    using multisig_loop_two[of g1 k1 g2 k2 C ?t sub] enc[of ?t] by simp
  show ?thesis
    using st cnt sub
    by (simp add: exec_op_def op_checkmultisig_def with_stack_def here_def bind_def lift_def scriptnum_two modify_def Let_def loop
        multisig_finish_def put_stack_def return_def numeral_eq_Suc del: multisig_loop.simps drop_sigs.simps)
qed

lemma good_pub_key_ok: "good_pub C k \<Longrightarrow> key_ok k"
  by (auto simp: good_pub_def key_ok_def)

lemma length_redeem: "length (concat (map chunk_wire (redeem_of keys))) = 3 + sum_list (map (\<lambda>k. 1 + length k) keys)"
  if "list_all key_ok keys"
  using that by (induction keys) (auto simp: redeem_of_def chunk_wire_def key_chunk_def push_width_def key_ok_def)

lemma eval_redeem:
  assumes k: "good_pub C k1" "good_pub C k2" and g: "good_sig d1 t1" "good_sig d2 t2" and f: "f AND SCRIPT_VERIFY_LOW_S = 0"
  defines "g1 \<equiv> d1 @ [word_of_int t1]" and "g2 \<equiv> d2 @ [word_of_int t2]" and "sc \<equiv> redeem_of [k1, k2]"
  shows "eval_loop C (load sc [g2, g1, []] tx n f) = (Inr True, (load sc [g2, g1, []] tx n f)\<lparr> pc := 5, nOpCount := 3,
    stack := [bool_buf (Sighash_verify C tx d2 t2 k2 n sc = Inr True \<and> Sighash_verify C tx d1 t1 k1 n sc = Inr True)] \<rparr>)"
proof -
  let ?two = "toScriptNumBuffer 2" and ?s = "load sc [g2, g1, []] tx n f"
  let ?s1 = "?s\<lparr> pc := 1, stack := [?two, g2, g1, []] \<rparr>" and ?s2 = "?s\<lparr> pc := 2, stack := [k1, ?two, g2, g1, []] \<rparr>"
  let ?s3 = "?s\<lparr> pc := 3, stack := [k2, k1, ?two, g2, g1, []] \<rparr>" and ?s4 = "?s\<lparr> pc := 4, stack := [?two, k2, k1, ?two, g2, g1, []] \<rparr>"
  let ?v = "Sighash_verify C tx d2 t2 k2 n sc = Inr True \<and> Sighash_verify C tx d1 t1 k1 n sc = Inr True"
  have len: "length sc = 5" by (simp add: sc_def redeem_of_def)
  have kl: "2 \<le> length k1" "length k1 < 70" "2 \<le> length k2" "length k2 < 70" using k by (auto simp: good_pub_def)
  have gl: "70 \<le> length g1" "length g1 < 76" "70 \<le> length g2" "length g2 < 76" using g by (auto simp: good_sig_def g1_def g2_def)
  have 1: "step C ?s = (Inr True, ?s1)" using step_number[of ?s 82 C] by (simp add: sc_def redeem_of_def)
  have 2: "step C ?s1 = (Inr True, ?s2)"
    using step_push[of ?s1 k1 C] kl by (simp add: sc_def redeem_of_def buffer_chunk_small numeral_2_eq_2)
  have 3: "step C ?s2 = (Inr True, ?s3)"
    using step_push[of ?s2 k2 C] kl by (simp add: sc_def redeem_of_def buffer_chunk_small numeral_eq_Suc)
  have 4: "step C ?s3 = (Inr True, ?s4)"
    using step_number[of ?s3 82 C] by (simp add: sc_def redeem_of_def numeral_eq_Suc)
  have sub: "drop_sigs [g2, g1] sc = Inr sc"
    by (rule drop_sigs_none)
       (use kl gl in \<open>auto simp: sc_def redeem_of_def chunk_wire_def key_chunk_def push_width_def fits_chunk_def\<close>)
  have enc: "check_encodings C g k t = (Inr True, t)" if "ip_flags t = f" "(g = g1 \<and> k = k1) \<or> (g = g2 \<and> k = k2)" for g k t
    using that f good_checks(2)[OF g(1) k(1), of t] good_checks(2)[OF g(2) k(2), of t] by (auto simp: g1_def g2_def)
  have ver: "verify_sig C tx n g2 k2 sc \<longleftrightarrow> Sighash_verify C tx d2 t2 k2 n sc = Inr True"
    "verify_sig C tx n g1 k1 sc \<longleftrightarrow> Sighash_verify C tx d1 t1 k1 n sc = Inr True"
    unfolding g1_def g2_def by (rule good_checks(1)[OF g(2) k(2)], rule good_checks(1)[OF g(1) k(1)])
  have op: "sc ! 4 = op_chunk OP_CHECKMULTISIG" by (simp add: sc_def redeem_of_def numeral_eq_Suc)
  have "exec_op C OP_CHECKMULTISIG True (has_flag SCRIPT_VERIFY_MINIMALDATA ?s4) (?s4\<lparr> pc := 5, nOpCount := 1 \<rparr>)
      = (Inr True, ?s4\<lparr> pc := 5, nOpCount := 3, stack := [bool_buf ?v] \<rparr>)"
    using run_CHECKMULTISIG[of "?s4\<lparr> pc := 5, nOpCount := 1 \<rparr>" k2 k1 g2 g1 sc C] sub enc ver by (simp del: drop_sigs.simps)
  then have 5: "step C ?s4 = (Inr True, ?s\<lparr> pc := 5, nOpCount := 3, stack := [bool_buf ?v] \<rparr>)"
    using step_op[of ?s4 "OP_CHECKMULTISIG" C] op by (simp add: disabled_op_def)
  show ?thesis
    by (rule step_eval[OF 1], simp add: len, rule step_eval[OF 2], simp add: len, rule step_eval[OF 3], simp add: len,
        rule step_eval[OF 4], simp add: len, rule eval_last[OF _ 5]) (simp add: len)
qed

text \<open>Whether a signature of the given type by the given key covers input \<open>n\<close>.\<close>

definition covers :: "crypto \<Rightarrow> transaction \<Rightarrow> nat \<Rightarrow> script \<Rightarrow> bytes \<Rightarrow> bytes \<Rightarrow> int \<Rightarrow> bool" where
  "covers C tx n sub pub der ty \<longleftrightarrow> Sighash_verify C tx der ty pub n sub = Inr True"

lemma length_multisig_script:
  "2 \<le> length a \<Longrightarrow> length a < 76 \<Longrightarrow> 2 \<le> length b \<Longrightarrow> length b < 76 \<Longrightarrow> length (chunk_wire c) \<le> 9000 \<Longrightarrow>
    length (concat (map chunk_wire (multisig_script [a, b] c))) \<le> 10000"
  by (simp add: multisig_script_def chunk_wire_def[of "op_chunk _"] chunk_wire_def[of "data_chunk _ _ _"] key_chunk_def push_width_def)

lemma two_of_two:
  assumes "length keys = 2" "list_all key_ok keys"
  shows "buildMultisigOut keys 2 True = Inr (redeem_of keys)"
proof -
  have "list_all (\<lambda>k. length k < 76) keys" using assms(2) by (auto simp: list_all_iff key_ok_def)
  from addBuffers_keys[OF this, of "[op_chunk 82]"] assms(1) show ?thesis
    by (simp add: buildMultisigOut_def smallInt_def addOpcode_def insertAtPosition_def redeem_of_def Let_def)
qed

lemma verify_multisig:
  assumes k: "good_pub C k1" "good_pub C k2" and g: "good_sig d1 t1" "good_sig d2 t2" and h: "length h = 20"
    and r: "r = concat (map chunk_wire (redeem_of [k1, k2]))" "buffer_chunk r = Inr c"
  shows "verify_input C (multisig_script [d1 @ [word_of_int t1], d2 @ [word_of_int t2]] c) (p2sh h) tx n channel_flags
    = Inr (sha256ripemd160 C r = h \<and> covers C tx n (redeem_of [k1, k2]) k2 d2 t2 \<and> covers C tx n (redeem_of [k1, k2]) k1 d1 t1)"
proof -
  let ?g1 = "d1 @ [word_of_int t1 :: byte]" and ?g2 = "d2 @ [word_of_int t2 :: byte]" and ?sc = "redeem_of [k1, k2]"
  let ?in = "multisig_script [?g1, ?g2] c"
  have gl: "2 \<le> length ?g1" "length ?g1 < 76" "2 \<le> length ?g2" "length ?g2 < 76" using g by (auto simp: good_sig_def)
  have ok: "list_all key_ok [k1, k2]" using k by (auto simp: good_pub_key_ok)
  have kl: "length k1 < 70" "length k2 < 70" using k by (auto simp: good_pub_def)
  have rl: "2 \<le> length r" "length r \<le> 143" using length_redeem[OF ok] kl r(1) by auto
  have c: "fits_chunk c" "length (chunk_wire c) \<le> 145" "opcodenum c \<le> 96" "0 \<le> opcodenum c"
    using buffer_chunk_sel[OF r(2)] rl
    by (auto simp: fits_chunk_def chunk_wire_def push_width_def)
  have fits: "list_all fits_chunk ?in" using c(1) gl by (auto simp: multisig_script_def fits_chunk_def key_chunk_def)
  have wl: "length (concat (map chunk_wire ?in)) \<le> 10000"
    using c(2) by (intro length_multisig_script[OF gl]) simp
  have push: "isPushOnly ?in" using c(3) gl by (auto simp: isPushOnly_def multisig_script_def key_chunk_def)
  have 1: "evaluate C (load ?in [] tx n channel_flags) = (Inr True, (load ?in [] tx n channel_flags)\<lparr> pc := 4, stack := [r, ?g2, ?g1, []] \<rparr>)"
    using eval_multisig_script[OF gl rl(1) _ r(2), of C tx n channel_flags] rl(2) wl fits_toBuffer[OF fits]
    by (intro evaluate_run[where b = "concat (map chunk_wire ?in)"]) simp_all
  have 2: "evaluate C (load (p2sh h) (r # st) tx n channel_flags) = (Inr True, (load (p2sh h) (r # st) tx n channel_flags)
      \<lparr> pc := 3, nOpCount := 2, stack := bool_buf (sha256ripemd160 C r = h) # st \<rparr>)" if "length st \<le> 10" for st
    using that eval_p2sh[OF h, of C r st tx n channel_flags] toBuffer_p2sh[OF h] h by (intro evaluate_run) auto
  have sc: "Script_fromBuffer r = Inr ?sc" "Script_toBuffer ?sc = Inr r"
    using wf_fromBuffer[OF wf_redeem[OF ok]] wf_toBuffer[OF wf_redeem[OF ok]] rl(2) r(1) by auto
  note e = eval_redeem[OF k g, of channel_flags tx n]
  have 3: "evaluate C (load ?sc [?g2, ?g1, []] tx n channel_flags) = (Inr True, (load ?sc [?g2, ?g1, []] tx n channel_flags)
      \<lparr> pc := 5, nOpCount := 3, stack := [bool_buf (covers C tx n ?sc k2 d2 t2 \<and> covers C tx n ?sc k1 d1 t1)] \<rparr>)"
    using e sc(2) rl(2) by (intro evaluate_run[where b = r]) (simp_all add: channel_flags covers_def)
  show ?thesis
    using 1 2[of "[?g2, ?g1, []]"] 3 push sc(1) h
    by (simp add: verify_input_def Interpreter_verify_def bind_def modify_def here_def return_def lift_def stop_def Let_def channel_flags
        verify_p2sh_def)
qed

lemma buildP2SHMultisigIn_run:
  assumes "good_pub C k1" "good_pub C k2" "good_sig d1 t1" "good_sig d2 t2" "r = concat (map chunk_wire (redeem_of [k1, k2]))"
    and "cached = None \<or> cached = Some (redeem_of [k1, k2])"
  obtains c where "buffer_chunk r = Inr c" "buildP2SHMultisigIn [k1, k2] 2 [d1 @ [word_of_int t1], d2 @ [word_of_int t2]] cached True
    = Inr (multisig_script [d1 @ [word_of_int t1], d2 @ [word_of_int t2]] c)"
proof -
  let ?gs = "[d1 @ [word_of_int t1 :: byte], d2 @ [word_of_int t2]]"
  have ok: "list_all key_ok [k1, k2]" using assms(1,2) by (auto simp: good_pub_key_ok)
  have "length r \<le> 143" using length_redeem[OF ok] assms(1,2,5) by (auto simp: good_pub_def)
  then have "\<exists>c. buffer_chunk r = Inr c" by (simp add: buffer_chunk_def Let_def)
  then obtain c where c: "buffer_chunk r = Inr c" ..
  have "addBuffers ?gs (addOpcode OP_0 False []) = Inr (op_chunk OP_0 # map key_chunk ?gs)"
    using assms(3,4) by (subst addBuffers_keys) (auto simp: good_sig_def addOpcode_def insertAtPosition_def)
  moreover have "Script_toBuffer (redeem_of [k1, k2]) = Inr r" using wf_toBuffer[OF wf_redeem[OF ok]] assms(5) by simp
  ultimately show thesis using that[OF c] two_of_two[OF _ ok] c assms(6)
    by (auto simp: buildP2SHMultisigIn_def addBuffer_def insertAtPosition_def multisig_script_def)
qed

section \<open>Theorems\<close>

text \<open>
  C14: the interpreter accepts the input script that \<^verbatim>\<open>buildPublicKeyHashIn\<close> makes, against an output that pays to a
  public key hash, exactly when the key has that hash and the signature covers the input; otherwise it answers false and does not throw.
\<close>

theorem p2pkh_spend:
  assumes "good_sig der ty" "good_pub C pub" "length h = 20" "ty \<noteq> 0"
  shows "\<exists>sc. buildPublicKeyHashIn pub der ty = Inr sc
    \<and> verify_input C sc (p2pkh h) tx n channel_flags = Inr (sha256ripemd160 C pub = h \<and> covers C tx n (p2pkh h) pub der ty)"
  using assms verify_p2pkh[OF assms(1-3), of tx n] buildPublicKeyHashIn_sig[of der pub ty]
  by (auto simp: covers_def good_sig_def good_pub_def)

lemma sample_good_sig: "good_sig sample_der 1" "good_pub sample_crypto (privToPub sample_crypto k)"
  using sample_is_der by (auto simp: good_sig_def good_pub_def sample_crypto_def sample_der_def hasDefinedHashtype_def)

theorem p2pkh_spend_witness:
  "\<exists>sc. buildPublicKeyHashIn (privToPub sample_crypto [1]) sample_der 1 = Inr sc
    \<and> verify_input sample_crypto sc (p2pkh (key_hash sample_crypto [1])) sample_tx 0 channel_flags
      = Inr (covers sample_crypto sample_tx 0 (p2pkh (key_hash sample_crypto [1])) (privToPub sample_crypto [1]) sample_der 1)"
  using p2pkh_spend[OF sample_good_sig(1) sample_good_sig(2)[of "[1]"], of "key_hash sample_crypto [1]" sample_tx 0] by simp

text \<open>
  C12: the interpreter accepts the input script that \<^verbatim>\<open>buildP2SHMultisigIn\<close> makes of two keys and two signatures,
  against an output that pays to a script hash, exactly when the redeem script has that hash and each signature, by the key in its
  position, covers the input under the redeem script. One signature, or both in the other order, is not enough.
\<close>

theorem multisig_spend:
  assumes "good_pub C k1" "good_pub C k2" "good_sig d1 t1" "good_sig d2 t2" "length h = 20"
  shows "\<exists>sc. buildP2SHMultisigIn [k1, k2] 2 [d1 @ [word_of_int t1], d2 @ [word_of_int t2]] None True = Inr sc
    \<and> verify_input C sc (p2sh h) tx n channel_flags = Inr (channel_hash C [k1, k2] = h
        \<and> covers C tx n (redeem_of [k1, k2]) k2 d2 t2 \<and> covers C tx n (redeem_of [k1, k2]) k1 d1 t1)"
proof -
  obtain c where c: "buffer_chunk (concat (map chunk_wire (redeem_of [k1, k2]))) = Inr c"
    "buildP2SHMultisigIn [k1, k2] 2 [d1 @ [word_of_int t1], d2 @ [word_of_int t2]] None True
      = Inr (multisig_script [d1 @ [word_of_int t1], d2 @ [word_of_int t2]] c)"
    using buildP2SHMultisigIn_run[OF assms(1-4) refl, of None] by blast
  with verify_multisig[OF assms refl c(1), of tx n] show ?thesis unfolding channel_hash_def by blast
qed

theorem multisig_spend_witness:
  "\<exists>sc. buildP2SHMultisigIn [privToPub sample_crypto [1], privToPub sample_crypto [2]] 2
      [sample_der @ [word_of_int 1], sample_der @ [word_of_int 1]] None True = Inr sc
    \<and> verify_input sample_crypto sc (p2sh (channel_hash sample_crypto [privToPub sample_crypto [1], privToPub sample_crypto [2]])) sample_tx 0 channel_flags
      = Inr (covers sample_crypto sample_tx 0 (redeem_of [privToPub sample_crypto [1], privToPub sample_crypto [2]]) (privToPub sample_crypto [2]) sample_der 1
        \<and> covers sample_crypto sample_tx 0 (redeem_of [privToPub sample_crypto [1], privToPub sample_crypto [2]]) (privToPub sample_crypto [1]) sample_der 1)"
  using multisig_spend[OF sample_good_sig(2)[of "[1]"] sample_good_sig(2)[of "[2]"] sample_good_sig(1) sample_good_sig(1),
      of "channel_hash sample_crypto [privToPub sample_crypto [1], privToPub sample_crypto [2]]" sample_tx 0]
  by (simp add: channel_hash_def)

lemma good_key_pub: "good_key C k \<Longrightarrow> good_pub C (privToPub C k)"
  by (auto simp: good_key_def good_pub_def)

lemma defined_hashtype: "1 \<le> ty \<Longrightarrow> ty \<le> 3 \<Longrightarrow> hasDefinedHashtype ty"
proof -
  assume "1 \<le> ty" "ty \<le> 3"
  then have "ty = 1 \<or> ty = 2 \<or> ty = 3" by linarith
  then show ?thesis by (auto simp: hasDefinedHashtype_def)
qed

lemma good_key_sig: "good_key C k \<Longrightarrow> 1 \<le> ty \<Longrightarrow> ty \<le> 3 \<Longrightarrow> good_sig (ecdsa_sign C k h) ty"
  by (auto simp: good_key_def good_sig_def defined_hashtype)



end
