(* ===== verification/LongJS.thy ===== *)
theory LongJS
  imports Buffers
begin

unbundle bit_operations_syntax

text \<open>
  \<^verbatim>\<open>Long.js\<close>, the 64-bit integers in which the protocol messages carry amounts and times: two
  32-bit halves and a flag. Sums and products are computed in 16-bit chunks with carries, as the
  file does; the theorems show that they are the operations on 64-bit words. Division and the
  conversions to and from strings, which rest on \<^verbatim>\<open>Math.log\<close> estimates, are not part of the model.
\<close>

section \<open>Values\<close>

record long =
  low :: "32 word"
  high :: "32 word"
  is_unsigned :: bool

definition new_Long :: "int \<Rightarrow> int \<Rightarrow> bool \<Rightarrow> long" where
  "new_Long lo hi u = \<lparr> low = word_of_int lo, high = word_of_int hi, is_unsigned = u \<rparr>"

definition fromBits :: "int \<Rightarrow> int \<Rightarrow> bool \<Rightarrow> long" where
  "fromBits lowBits highBits u = new_Long lowBits highBits u"

text \<open>The caches of \<^verbatim>\<open>fromInt\<close> hold objects equal to the ones it would build.\<close>

definition fromInt :: "int \<Rightarrow> bool \<Rightarrow> long" where
  "fromInt v u =
    (if \<not> u then let v = int32 v in new_Long v (if v < 0 then - 1 else 0) False
     else let v = ushr v 0 in new_Long v (if int32 v < 0 then - 1 else 0) True)"

definition Long_ZERO :: long where "Long_ZERO = fromInt 0 False"
definition Long_ONE :: long where "Long_ONE = fromInt 1 False"
definition TWO_PWR_24 :: long where "TWO_PWR_24 = fromInt (2 ^ 24) False"
definition MAX_VALUE :: long where "MAX_VALUE = fromBits 0xFFFFFFFF 0x7FFFFFFF False"
definition MAX_UNSIGNED_VALUE :: long where "MAX_UNSIGNED_VALUE = fromBits 0xFFFFFFFF 0xFFFFFFFF True"
definition MIN_VALUE :: long where "MIN_VALUE = fromBits 0 0x80000000 False"

definition toInt :: "long \<Rightarrow> int" where
  "toInt l = (if is_unsigned l then ushr (sint (low l)) 0 else sint (low l))"

definition toNumber :: "long \<Rightarrow> jsnum" where
  "toNumber l =
    (if is_unsigned l then IntN (ushr (sint (high l)) 0) * Fin (2 ^ 32) + IntN (ushr (sint (low l)) 0)
     else IntN (sint (high l)) * Fin (2 ^ 32) + IntN (ushr (sint (low l)) 0))"

definition getHighBits :: "long \<Rightarrow> int" where "getHighBits l = sint (high l)"
definition getHighBitsUnsigned :: "long \<Rightarrow> int" where "getHighBitsUnsigned l = ushr (sint (high l)) 0"
definition getLowBits :: "long \<Rightarrow> int" where "getLowBits l = sint (low l)"
definition getLowBitsUnsigned :: "long \<Rightarrow> int" where "getLowBitsUnsigned l = ushr (sint (low l)) 0"

section \<open>Tests\<close>

definition isZero :: "long \<Rightarrow> bool" where
  "isZero l \<longleftrightarrow> high l = 0 \<and> low l = 0"

definition isNegative :: "long \<Rightarrow> bool" where
  "isNegative l \<longleftrightarrow> \<not> is_unsigned l \<and> sint (high l) < 0"

definition isPositive :: "long \<Rightarrow> bool" where
  "isPositive l \<longleftrightarrow> is_unsigned l \<or> sint (high l) \<ge> 0"

definition isOdd :: "long \<Rightarrow> bool" where
  "isOdd l \<longleftrightarrow> sint (low l) AND 1 = 1"

definition isEven :: "long \<Rightarrow> bool" where
  "isEven l \<longleftrightarrow> sint (low l) AND 1 = 0"

definition Long_equals :: "long \<Rightarrow> long \<Rightarrow> bool" where
  "Long_equals a b =
    (if is_unsigned a \<noteq> is_unsigned b \<and> ushr (sint (high a)) 31 = 1 \<and> ushr (sint (high b)) 31 = 1 then False
     else high a = high b \<and> low a = low b)"

section \<open>Arithmetic\<close>

definition Long_not :: "long \<Rightarrow> long" where
  "Long_not l = fromBits (NOT (sint (low l))) (NOT (sint (high l))) (is_unsigned l)"

text \<open>The four chunks of a value, most significant first.\<close>

definition chunks16 :: "long \<Rightarrow> int \<times> int \<times> int \<times> int" where
  "chunks16 l = (ushr (sint (high l)) 16, sint (high l) AND 0xFFFF, ushr (sint (low l)) 16, sint (low l) AND 0xFFFF)"

definition from_chunks :: "int \<Rightarrow> int \<Rightarrow> int \<Rightarrow> int \<Rightarrow> bool \<Rightarrow> long" where
  "from_chunks c48 c32 c16 c00 u = fromBits (push_bit 16 c16 OR c00) (push_bit 16 c48 OR c32) u"

definition Long_add :: "long \<Rightarrow> long \<Rightarrow> long" where
  "Long_add a b = (case chunks16 a of (a48, a32, a16, a00) \<Rightarrow> case chunks16 b of (b48, b32, b16, b00) \<Rightarrow>
     let c00 = a00 + b00;
         c16 = ushr c00 16;
         c00 = c00 AND 0xFFFF;
         c16 = c16 + (a16 + b16);
         c32 = ushr c16 16;
         c16 = c16 AND 0xFFFF;
         c32 = c32 + (a32 + b32);
         c48 = ushr c32 16;
         c32 = c32 AND 0xFFFF;
         c48 = c48 + (a48 + b48);
         c48 = c48 AND 0xFFFF
     in from_chunks c48 c32 c16 c00 (is_unsigned a))"

definition negate :: "long \<Rightarrow> long" where
  "negate l = (if \<not> is_unsigned l \<and> Long_equals l MIN_VALUE then MIN_VALUE else Long_add (Long_not l) Long_ONE)"

definition subtract :: "long \<Rightarrow> long \<Rightarrow> long" where
  "subtract a b = Long_add a (negate b)"

definition Long_compare :: "long \<Rightarrow> long \<Rightarrow> int" where
  "Long_compare a b =
    (if Long_equals a b then 0
     else if isNegative a \<and> \<not> isNegative b then - 1
     else if \<not> isNegative a \<and> isNegative b then 1
     else if \<not> is_unsigned a then (if isNegative (subtract a b) then - 1 else 1)
     else if ushr (sint (high b)) 0 > ushr (sint (high a)) 0
             \<or> high b = high a \<and> ushr (sint (low b)) 0 > ushr (sint (low a)) 0 then - 1 else 1)"

definition notEquals :: "long \<Rightarrow> long \<Rightarrow> bool" where "notEquals a b \<longleftrightarrow> \<not> Long_equals a b"
definition Long_lessThan :: "long \<Rightarrow> long \<Rightarrow> bool" where "Long_lessThan a b \<longleftrightarrow> Long_compare a b < 0"
definition Long_lessThanOrEqual :: "long \<Rightarrow> long \<Rightarrow> bool" where "Long_lessThanOrEqual a b \<longleftrightarrow> Long_compare a b \<le> 0"
definition Long_greaterThan :: "long \<Rightarrow> long \<Rightarrow> bool" where "Long_greaterThan a b \<longleftrightarrow> Long_compare a b > 0"
definition Long_greaterThanOrEqual :: "long \<Rightarrow> long \<Rightarrow> bool" where "Long_greaterThanOrEqual a b \<longleftrightarrow> Long_compare a b \<ge> 0"

function fromNumber :: "jsnum \<Rightarrow> bool \<Rightarrow> long" where
  "fromNumber v u =
    (if v = NaN \<or> v = PInf \<or> v = NInf then Long_ZERO
     else if \<not> u \<and> v \<le> Fin (- (2 ^ 63)) then MIN_VALUE
     else if \<not> u \<and> v + 1 \<ge> Fin (2 ^ 63) then MAX_VALUE
     else if u \<and> v \<ge> Fin (2 ^ 64) then MAX_UNSIGNED_VALUE
     else if v < 0 then negate (fromNumber (- v) u)
     else \<lparr> low = to_word32 (jsrem v (Fin (2 ^ 32))), high = to_word32 (v / Fin (2 ^ 32)), is_unsigned = u \<rparr>)"
  by pat_completeness auto
termination
  by (relation "measure (\<lambda>(v, u). if v < 0 then 1 else 0)")
     (auto simp: less_jsnum_def uminus_jsnum_def zero_jsnum_def split: jsnum.splits)

declare fromNumber.simps [simp del]

text \<open>The schoolbook product that \<^verbatim>\<open>multiply\<close> ends in; products that would overflow are skipped.\<close>

definition mul_chunks :: "long \<Rightarrow> long \<Rightarrow> long" where
  "mul_chunks a b = (case chunks16 a of (a48, a32, a16, a00) \<Rightarrow> case chunks16 b of (b48, b32, b16, b00) \<Rightarrow>
     let c00 = a00 * b00;
         c16 = ushr c00 16;
         c00 = c00 AND 0xFFFF;
         c16 = c16 + a16 * b00;
         c32 = ushr c16 16;
         c16 = c16 AND 0xFFFF;
         c16 = c16 + a00 * b16;
         c32 = c32 + ushr c16 16;
         c16 = c16 AND 0xFFFF;
         c32 = c32 + a32 * b00;
         c48 = ushr c32 16;
         c32 = c32 AND 0xFFFF;
         c32 = c32 + a16 * b16;
         c48 = c48 + ushr c32 16;
         c32 = c32 AND 0xFFFF;
         c32 = c32 + a00 * b32;
         c48 = c48 + ushr c32 16;
         c32 = c32 AND 0xFFFF;
         c48 = c48 + (a48 * b00 + a32 * b16 + a16 * b32 + a00 * b48);
         c48 = c48 AND 0xFFFF
     in from_chunks c48 c32 c16 c00 (is_unsigned a))"

section \<open>Bitwise operations\<close>

definition Long_and :: "long \<Rightarrow> long \<Rightarrow> long" where
  "Long_and a b = fromBits (sint (low a) AND sint (low b)) (sint (high a) AND sint (high b)) (is_unsigned a)"

definition Long_or :: "long \<Rightarrow> long \<Rightarrow> long" where
  "Long_or a b = fromBits (sint (low a) OR sint (low b)) (sint (high a) OR sint (high b)) (is_unsigned a)"

definition Long_xor :: "long \<Rightarrow> long \<Rightarrow> long" where
  "Long_xor a b = fromBits (sint (low a) XOR sint (low b)) (sint (high a) XOR sint (high b)) (is_unsigned a)"

text \<open>The shift count is reduced by \<^verbatim>\<open>numBits &= 63\<close>.\<close>

definition shiftLeft :: "long \<Rightarrow> nat \<Rightarrow> long" where
  "shiftLeft l n = (let n = n AND 63 in
     if n = 0 then l
     else if n < 32 then fromBits (push_bit n (sint (low l)))
            (push_bit n (sint (high l)) OR ushr (sint (low l)) (32 - n)) (is_unsigned l)
     else fromBits 0 (push_bit (n - 32) (sint (low l))) (is_unsigned l))"

definition shiftRight :: "long \<Rightarrow> nat \<Rightarrow> long" where
  "shiftRight l n = (let n = n AND 63 in
     if n = 0 then l
     else if n < 32 then fromBits (ushr (sint (low l)) n OR push_bit (32 - n) (sint (high l)))
            (drop_bit n (sint (high l))) (is_unsigned l)
     else fromBits (drop_bit (n - 32) (sint (high l))) (if sint (high l) \<ge> 0 then 0 else - 1) (is_unsigned l))"

definition shiftRightUnsigned :: "long \<Rightarrow> nat \<Rightarrow> long" where
  "shiftRightUnsigned l n = (let n = n AND 63 in
     if n = 0 then l
     else if n < 32 then fromBits (ushr (sint (low l)) n OR push_bit (32 - n) (sint (high l)))
            (ushr (sint (high l)) n) (is_unsigned l)
     else if n = 32 then fromBits (sint (high l)) 0 (is_unsigned l)
     else fromBits (ushr (sint (high l)) (n - 32)) 0 (is_unsigned l))"

definition toSigned :: "long \<Rightarrow> long" where
  "toSigned l = (if \<not> is_unsigned l then l else new_Long (sint (low l)) (sint (high l)) False)"

definition toUnsigned :: "long \<Rightarrow> long" where
  "toUnsigned l = (if is_unsigned l then l else new_Long (sint (low l)) (sint (high l)) True)"

section \<open>The integer and the word of a value\<close>

definition long_bits :: "long \<Rightarrow> int" where
  "long_bits l = uint (high l) * 2 ^ 32 + uint (low l)"

definition long_word :: "long \<Rightarrow> 64 word" where
  "long_word l = word_of_int (long_bits l)"

definition long_int :: "long \<Rightarrow> int" where
  "long_int l = (if is_unsigned l then long_bits l else sint (high l) * 2 ^ 32 + uint (low l))"

lemma uint32_bounds: "0 \<le> uint (w :: 32 word)" "uint (w :: 32 word) < 2 ^ 32"
  using uint_ge_0[of w] uint_lt2p[of w] by simp_all

lemma ushr_sint: "ushr (sint (w :: 32 word)) k = uint w div 2 ^ k"
  unfolding ushr_def drop_bit_eq_div by (simp add: uint_sint)

lemma and_ffff: "(x :: int) AND 0xFFFF = x mod 65536"
proof -
  have "x AND mask 16 = x mod 2 ^ 16" by (simp only: take_bit_eq_mask[symmetric] take_bit_eq_mod)
  then show ?thesis by (simp add: mask_eq_exp_minus_1)
qed

lemma sint_mod: "sint (w :: 32 word) mod 65536 = uint w mod 65536"
proof -
  have "sint w mod 2 ^ 32 mod 2 ^ 16 = uint w mod 2 ^ 16"
    by (simp add: uint_sint take_bit_eq_mod)
  moreover have "sint w mod 2 ^ 32 mod 2 ^ 16 = sint w mod 2 ^ 16" by (rule mod_mod_cancel) simp
  ultimately show ?thesis by simp
qed

lemma ushr_small: "0 \<le> x \<Longrightarrow> x < 2 ^ 32 \<Longrightarrow> ushr x k = x div 2 ^ k"
  by (simp add: ushr_def drop_bit_eq_div take_bit_eq_mod)

lemma join_chunks: "0 \<le> c \<Longrightarrow> c < 65536 \<Longrightarrow> push_bit 16 d OR c = d * 65536 + (c :: int)"
proof -
  assume c: "0 \<le> c" "c < 65536"
  then have "c = take_bit 16 c" by (simp add: take_bit_eq_mod)
  moreover have "push_bit 16 d AND take_bit 16 c = 0" by (rule bit_eqI) (auto simp: bit_simps)
  ultimately have "push_bit 16 d OR c = push_bit 16 d + c" by (metis disjunctive_add_eq_or)
  then show ?thesis by (simp add: push_bit_eq_mult)
qed

lemma bits_from_chunks:
  assumes "0 \<le> c48" "c48 < 65536" "0 \<le> c32" "c32 < 65536" "0 \<le> c16" "c16 < 65536" "0 \<le> c00" "c00 < 65536"
  shows "long_bits (from_chunks c48 c32 c16 c00 u) = c48 * 2 ^ 48 + c32 * 2 ^ 32 + c16 * 2 ^ 16 + c00"
proof -
  have "uint (word_of_int (d * 65536 + c) :: 32 word) = d * 65536 + c"
    if "0 \<le> d" "d < 65536" "0 \<le> c" "c < 65536" for c d :: int
    using that by (simp add: uint_word_of_int del: of_int_add of_int_mult)
  with assms show ?thesis
    by (simp add: from_chunks_def fromBits_def new_Long_def long_bits_def join_chunks)
qed

lemma chunks16_uint:
  "chunks16 l = (uint (high l) div 65536, uint (high l) mod 65536, uint (low l) div 65536, uint (low l) mod 65536)"
  by (simp add: chunks16_def ushr_sint and_ffff sint_mod)

lemma chunk_bounds:
  "0 \<le> uint (w :: 32 word) div 65536" "uint w div 65536 < 65536" "0 \<le> uint w mod 65536" "uint w mod 65536 < 65536"
  using uint32_bounds[of w] by (simp_all add: div_less_iff_less_mult pos_imp_zdiv_nonneg_iff)

text \<open>Carrying in base 65536: a chunk keeps \<open>x mod 65536\<close> and passes \<open>x div 65536\<close> on.\<close>

lemma mod_chunk: "(x :: int) mod 65536 = x - 65536 * (x div 65536)"
  by (simp add: minus_mult_div_eq_mod)

lemma bits_chunks:
  "long_bits l = uint (high l) div 65536 * 2 ^ 48 + uint (high l) mod 65536 * 2 ^ 32
     + uint (low l) div 65536 * 2 ^ 16 + uint (low l) mod 65536"
  by (simp add: long_bits_def mod_chunk)

lemma word64_wrap: "x = y + 2 ^ 64 * k \<Longrightarrow> (word_of_int x :: 64 word) = word_of_int y"
  by (rule word_of_int_eq_iff[THEN iffD2]) (simp add: take_bit_eq_mod)

lemma carry_out:
  fixes x y z w :: int
  assumes "c16 = x div 65536 + y" "c32 = c16 div 65536 + z" "c48 = c32 div 65536 + w"
  shows "word_of_int (c48 mod 65536 * 2 ^ 48 + c32 mod 65536 * 2 ^ 32 + c16 mod 65536 * 2 ^ 16 + x mod 65536)
    = (word_of_int (w * 2 ^ 48 + z * 2 ^ 32 + y * 2 ^ 16 + x) :: 64 word)"
  by (rule word64_wrap[where k = "- (c48 div 65536)"]) (simp add: mod_chunk assms)

lemma word_from_chunks:
  "long_word (from_chunks (a mod 65536) (b mod 65536) (c mod 65536) (d mod 65536) u)
    = word_of_int (a mod 65536 * 2 ^ 48 + b mod 65536 * 2 ^ 32 + c mod 65536 * 2 ^ 16 + d mod 65536)"
  by (simp only: long_word_def bits_from_chunks pos_mod_sign pos_mod_bound zero_less_numeral)

lemma add_chunk_bound:
  "0 \<le> a \<Longrightarrow> a < 65536 \<Longrightarrow> 0 \<le> b \<Longrightarrow> b < 65536 \<Longrightarrow> 0 \<le> x \<Longrightarrow> x < 2 ^ 17 \<Longrightarrow>
   0 \<le> x div 65536 + (a + b) \<and> x div 65536 + (a + b) < (2 :: int) ^ 17 \<and> ushr x 16 = x div 65536"
  by (auto simp: ushr_small)

lemma word_add: "long_word (Long_add a b) = long_word a + long_word b"
proof -
  let ?p = "\<lambda>w :: 32 word. uint w div 65536" and ?q = "\<lambda>w :: 32 word. uint w mod 65536"
  define c00 where "c00 = ?q (low a) + ?q (low b)"
  define c16 where "c16 = c00 div 65536 + (?p (low a) + ?p (low b))"
  define c32 where "c32 = c16 div 65536 + (?q (high a) + ?q (high b))"
  define c48 where "c48 = c32 div 65536 + (?p (high a) + ?p (high b))"
  have 0: "0 \<le> c00 \<and> c00 < 2 ^ 17" using chunk_bounds(3,4)[of "low a"] chunk_bounds(3,4)[of "low b"]
    by (simp add: c00_def)
  have 1: "0 \<le> c16 \<and> c16 < 2 ^ 17 \<and> ushr c00 16 = c00 div 65536"
    unfolding c16_def by (rule add_chunk_bound) (use 0 chunk_bounds in auto)
  have 2: "0 \<le> c32 \<and> c32 < 2 ^ 17 \<and> ushr c16 16 = c16 div 65536"
    unfolding c32_def by (rule add_chunk_bound) (use 1 chunk_bounds in auto)
  have 3: "ushr c32 16 = c32 div 65536" using 2 by (simp add: ushr_small)
  have "Long_add a b = from_chunks (c48 mod 65536) (c32 mod 65536) (c16 mod 65536) (c00 mod 65536) (is_unsigned a)"
    using 1 2 3 by (simp add: Long_add_def chunks16_uint and_ffff Let_def flip: c00_def c16_def c32_def c48_def)
  then have "long_word (Long_add a b) = word_of_int ((?p (high a) + ?p (high b)) * 2 ^ 48
      + (?q (high a) + ?q (high b)) * 2 ^ 32 + (?p (low a) + ?p (low b)) * 2 ^ 16 + c00)"
    by (simp only: word_from_chunks carry_out[OF c16_def c32_def c48_def])
  also have "\<dots> = word_of_int (long_bits a + long_bits b)"
    by (simp add: bits_chunks c00_def algebra_simps del: of_int_add of_int_mult)
  finally show ?thesis by (simp add: long_word_def)
qed

lemma mul_chunk_bound:
  "0 \<le> a \<Longrightarrow> a < 65536 \<Longrightarrow> 0 \<le> b \<Longrightarrow> b < 65536 \<Longrightarrow> 0 \<le> c \<Longrightarrow> c \<le> 131070 \<Longrightarrow>
   0 \<le> c + a * b \<and> c + a * b < (2 :: int) ^ 32 \<and> ushr (c + a * b) 16 = (c + a * b) div 65536
   \<and> 0 \<le> (c + a * b) div 65536 \<and> (c + a * b) div 65536 \<le> 65535"
proof -
  assume h: "0 \<le> a" "a < 65536" "0 \<le> b" "b < 65536" "0 \<le> c" "c \<le> 131070"
  have "a * b \<le> 65535 * 65535" by (rule mult_mono) (use h in auto)
  then have "c + a * b < 2 ^ 32" "0 \<le> c + a * b" using h by (simp_all add: add_nonneg_nonneg)
  then show ?thesis using ushr_small[of "c + a * b" 16] by (simp add: div_less_iff_less_mult pos_imp_zdiv_nonneg_iff)
qed

text \<open>The product of the chunks, with the places above the 64th bit left out.\<close>

lemma mul_places:
  fixes a48 :: int
  shows "(word_of_int ((a48 * b00 + a32 * b16 + a16 * b32 + a00 * b48) * 2 ^ 48 + (a32 * b00 + a16 * b16 + a00 * b32) * 2 ^ 32
      + (a16 * b00 + a00 * b16) * 2 ^ 16 + a00 * b00) :: 64 word)
    = word_of_int ((a48 * 2 ^ 48 + a32 * 2 ^ 32 + a16 * 2 ^ 16 + a00) * (b48 * 2 ^ 48 + b32 * 2 ^ 32 + b16 * 2 ^ 16 + b00))"
  by (rule sym, rule word64_wrap[where k = "a48 * b16 + a32 * b32 + a16 * b48 + 2 ^ 16 * (a48 * b32 + a32 * b48) + 2 ^ 32 * (a48 * b48)"])
     (simp add: algebra_simps)

lemma linear_carry_sums:
  fixes c48 :: int
  assumes "c48 = qc32 + qd32 + qe32 + w" "e32 = rd32 + z2" "d32 = rc32 + z1" "c32 = qc16 + qd16 + z0"
    "d16 = rc16 + y1" "c16 = qx + y0"
    and "rc48 = c48 - 65536 * qc48" "re32 = e32 - 65536 * qe32" "rd32 = d32 - 65536 * qd32" "rc32 = c32 - 65536 * qc32"
    "rd16 = d16 - 65536 * qd16" "rc16 = c16 - 65536 * qc16" "rx = x - 65536 * qx"
  shows "rc48 * 2 ^ 48 + re32 * 2 ^ 32 + rd16 * 2 ^ 16 + rx
    = w * 2 ^ 48 + (z0 + z1 + z2) * 2 ^ 32 + (y0 + y1) * 2 ^ 16 + x + 2 ^ 64 * (- qc48)"
  unfolding assms by simp

lemmas carry_sums = linear_carry_sums[OF _ _ _ _ _ _ mod_chunk mod_chunk mod_chunk mod_chunk mod_chunk mod_chunk mod_chunk]

lemma mul_carries:
  fixes a48 b48 :: int
  assumes "0 \<le> a32" "a32 < 65536" "0 \<le> a16" "a16 < 65536" "0 \<le> a00" "a00 < 65536"
    and "0 \<le> b32" "b32 < 65536" "0 \<le> b16" "b16 < 65536" "0 \<le> b00" "b00 < 65536"
  defines "c16 \<equiv> ushr (a00 * b00) 16 + a16 * b00"
  defines "d16 \<equiv> c16 mod 65536 + a00 * b16"
  defines "c32 \<equiv> ushr c16 16 + ushr d16 16 + a32 * b00"
  defines "d32 \<equiv> c32 mod 65536 + a16 * b16"
  defines "e32 \<equiv> d32 mod 65536 + a00 * b32"
  defines "c48 \<equiv> ushr c32 16 + ushr d32 16 + ushr e32 16 + (a48 * b00 + a32 * b16 + a16 * b32 + a00 * b48)"
  shows "(word_of_int (c48 mod 65536 * 2 ^ 48 + e32 mod 65536 * 2 ^ 32 + d16 mod 65536 * 2 ^ 16 + (a00 * b00) mod 65536) :: 64 word)
    = word_of_int ((a48 * b00 + a32 * b16 + a16 * b32 + a00 * b48) * 2 ^ 48 + (a32 * b00 + a16 * b16 + a00 * b32) * 2 ^ 32
      + (a16 * b00 + a00 * b16) * 2 ^ 16 + a00 * b00)"
proof -
  note m = pos_mod_sign[of 65536] pos_mod_bound[of 65536]
  have mb: "0 \<le> x mod 65536 \<and> x mod 65536 \<le> 131070" for x :: int using m[of x] by simp
  have 1: "ushr (a00 * b00) 16 = (a00 * b00) div 65536 \<and> 0 \<le> (a00 * b00) div 65536 \<and> (a00 * b00) div 65536 \<le> 65535"
    using mul_chunk_bound[of a00 b00 0] assms(1-12) by simp
  have 2: "ushr c16 16 = c16 div 65536 \<and> 0 \<le> c16 div 65536 \<and> c16 div 65536 \<le> 65535"
    unfolding c16_def using mul_chunk_bound[of a16 b00 "ushr (a00 * b00) 16"] assms(1-12) 1 by simp
  have 3: "ushr d16 16 = d16 div 65536 \<and> 0 \<le> d16 div 65536 \<and> d16 div 65536 \<le> 65535"
    unfolding d16_def using mul_chunk_bound[of a00 b16 "c16 mod 65536"] assms(1-12) mb by simp
  have 4: "ushr c32 16 = c32 div 65536"
    unfolding c32_def using mul_chunk_bound[of a32 b00 "ushr c16 16 + ushr d16 16"] assms(1-12) 2 3 by simp
  have 5: "ushr d32 16 = d32 div 65536"
    unfolding d32_def using mul_chunk_bound[of a16 b16 "c32 mod 65536"] assms(1-12) mb by simp
  have 6: "ushr e32 16 = e32 div 65536"
    unfolding e32_def using mul_chunk_bound[of a00 b32 "d32 mod 65536"] assms(1-12) mb by simp
  have eqs: "c48 = c32 div 65536 + d32 div 65536 + e32 div 65536 + (a48 * b00 + a32 * b16 + a16 * b32 + a00 * b48)"
    "e32 = d32 mod 65536 + a00 * b32" "d32 = c32 mod 65536 + a16 * b16" "c32 = c16 div 65536 + d16 div 65536 + a32 * b00"
    "d16 = c16 mod 65536 + a00 * b16" "c16 = a00 * b00 div 65536 + a16 * b00"
    by (simp only: c48_def 4 5 6, simp only: e32_def, simp only: d32_def, simp only: c32_def 2 3, simp only: d16_def,
        simp only: c16_def 1)
  show ?thesis
    by (rule word64_wrap[where k = "- (c48 div 65536)"]) (rule carry_sums[OF eqs])
qed

lemma word_mul_chunks: "long_word (mul_chunks a b) = long_word a * long_word b"
proof -
  let ?p = "\<lambda>w :: 32 word. uint w div 65536" and ?q = "\<lambda>w :: 32 word. uint w mod 65536"
  note c = mul_carries[OF chunk_bounds(3,4)[of "high a"] chunk_bounds[of "low a"] chunk_bounds(3,4)[of "high b"]
      chunk_bounds[of "low b"], of "?p (high a)" "?p (high b)"]
  have "long_word (mul_chunks a b) = word_of_int (long_bits a * long_bits b)"
    unfolding mul_chunks_def chunks16_uint prod.case Let_def and_ffff word_from_chunks
    by (simp only: add.assoc[symmetric] c[unfolded add.assoc[symmetric]] mul_places bits_chunks)
  then show ?thesis by (simp add: long_word_def)
qed

lemma long_bits_bounds: "0 \<le> long_bits l" "long_bits l < 2 ^ 64"
proof -
  have "uint (high l) * 2 ^ 32 \<le> (2 ^ 32 - 1) * 2 ^ 32" by (rule mult_right_mono) (use uint32_bounds[of "high l"] in simp_all)
  then show "0 \<le> long_bits l" "long_bits l < 2 ^ 64"
    using uint32_bounds[of "high l"] uint32_bounds[of "low l"] by (simp_all add: long_bits_def)
qed

lemma uint_long_word: "uint (long_word l) = long_bits l"
  using long_bits_bounds[of l] by (simp add: long_word_def uint_word_of_int)

lemma long_bits_inj: "long_bits a = long_bits b \<longleftrightarrow> high a = high b \<and> low a = low b"
proof
  assume eq: "long_bits a = long_bits b"
  have "uint (high l) = long_bits l div 2 ^ 32" "uint (low l) = long_bits l mod 2 ^ 32" for l
    using uint32_bounds[of "low l"] by (simp_all add: long_bits_def)
  with eq show "high a = high b \<and> low a = low b" by (simp add: word_uint_eq_iff)
qed (simp add: long_bits_def)

lemma uint_sint32: "uint (w :: 32 word) = (if sint w < 0 then sint w + 2 ^ 32 else sint w)"
proof -
  have "- (2 ^ 31) \<le> sint w" "sint w < 2 ^ 31" using sint_ge[of w] sint_lt[of w] by simp_all
  moreover have "uint w = sint w mod 2 ^ 32" by (simp add: uint_sint take_bit_eq_mod)
  moreover have "s mod 2 ^ 32 = (if s < 0 then s + 2 ^ 32 else s)" if "- (2 ^ 31) \<le> s" "s < 2 ^ 31" for s :: int
    using that mod_pos_pos_trivial[of "s + 2 ^ 32" "2 ^ 32"] mod_pos_pos_trivial[of s "2 ^ 32"] by (cases "s < 0") simp_all
  ultimately show ?thesis by simp
qed

lemma long_int_bits: "long_int l = (if isNegative l then long_bits l - 2 ^ 64 else long_bits l)"
  by (auto simp: long_int_def isNegative_def long_bits_def uint_sint32)

lemma sign_bit: "sint (w :: 32 word) < 0 \<longleftrightarrow> 2 ^ 31 \<le> uint w"
  using sint_ge[of w] sint_lt[of w] by (auto simp: uint_sint32)

lemma top_half: "(0 :: int) \<le> b \<Longrightarrow> b < 2 ^ 32 \<Longrightarrow> 2 ^ 63 \<le> a * 2 ^ 32 + b \<longleftrightarrow> 2 ^ 31 \<le> a"
  by (auto intro: ccontr)

lemma bits_top: "2 ^ 63 \<le> long_bits l \<longleftrightarrow> 2 ^ 31 \<le> uint (high l)"
  unfolding long_bits_def by (rule top_half) (rule uint32_bounds)+

lemma isNegative_bits: "isNegative l \<longleftrightarrow> \<not> is_unsigned l \<and> 2 ^ 63 \<le> long_bits l"
  unfolding bits_top by (auto simp: isNegative_def sign_bit)

lemma long_int_bounds:
  "is_unsigned l \<Longrightarrow> 0 \<le> long_int l \<and> long_int l < 2 ^ 64"
  "\<not> is_unsigned l \<Longrightarrow> - (2 ^ 63) \<le> long_int l \<and> long_int l < 2 ^ 63"
  using long_bits_bounds[of l] by (auto simp: long_int_bits isNegative_bits)

lemma isNegative_int: "isNegative l \<longleftrightarrow> long_int l < 0"
  using long_bits_bounds[of l] by (auto simp: long_int_bits isNegative_bits)

lemma top_bit: "ushr (sint (high l)) 31 = 1 \<longleftrightarrow> 2 ^ 63 \<le> long_bits l"
  unfolding bits_top ushr_sint using uint32_bounds[of "high l"] by auto

lemma Long_equals_int: "Long_equals a b \<longleftrightarrow> long_int a = long_int b"
  using long_bits_bounds[of a] long_bits_bounds[of b]
  by (auto simp: Long_equals_def top_bit long_int_bits isNegative_bits simp flip: long_bits_inj)

lemma word_not: "long_word (Long_not l) = NOT (long_word l)"
proof -
  have "uint (word_of_int (NOT (sint w)) :: 32 word) = 2 ^ 32 - 1 - uint w" for w :: "32 word"
  proof -
    have "(word_of_int (NOT (sint w)) :: 32 word) = NOT w" by (simp add: of_int_not_eq)
    moreover have "(- u - 1) mod 2 ^ 32 = 2 ^ 32 - 1 - u" if "0 \<le> u" "u < 2 ^ 32" for u :: int
      using that mod_add_self2[of "- u - 1" "2 ^ 32"] mod_pos_pos_trivial[of "- u - 1 + 2 ^ 32" "2 ^ 32"] by simp
    moreover have "uint (NOT w) = (- uint w - 1) mod 2 ^ 32"
      by (simp only: unsigned_not_eq take_bit_eq_mod not_eq_complement[of "uint w"]) simp
    ultimately show ?thesis using uint32_bounds[of w] by simp
  qed
  then have "long_bits (Long_not l) = 2 ^ 64 - 1 - long_bits l"
    by (simp add: Long_not_def fromBits_def new_Long_def long_bits_def)
  then have "long_word (Long_not l) = word_of_int (- 1 - long_bits l)"
    by (simp only: long_word_def) (rule word64_wrap[where k = 1], simp)
  then show ?thesis by (simp add: long_word_def not_eq_complement)
qed

lemma word_ONE: "long_word Long_ONE = 1" and word_ZERO: "long_word Long_ZERO = 0"
  and word_MIN: "long_word MIN_VALUE = 2 ^ 63" and bits_MIN: "long_bits MIN_VALUE = 2 ^ 63"
  and int_MIN: "long_int MIN_VALUE = - (2 ^ 63)" and unsigned_MIN: "\<not> is_unsigned MIN_VALUE"
  by (simp_all add: long_word_def long_bits_def long_int_def Long_ONE_def Long_ZERO_def MIN_VALUE_def fromInt_def fromBits_def
      new_Long_def int32_def)

lemma word_negate: "long_word (negate l) = - long_word l"
proof (cases "\<not> is_unsigned l \<and> Long_equals l MIN_VALUE")
  case True
  then have "long_bits l = 2 ^ 63"
    using long_bits_bounds[of l] long_int_bits[of l] by (auto simp: Long_equals_int int_MIN split: if_splits)
  then have "long_word l = 2 ^ 63" by (simp add: long_word_def)
  with True show ?thesis by (simp add: negate_def word_MIN)
next
  case False
  then have "negate l = Long_add (Long_not l) Long_ONE" by (auto simp: negate_def)
  then show ?thesis by (simp add: word_add word_not word_ONE minus_eq_not_plus_1)
qed

lemma word_subtract: "long_word (subtract a b) = long_word a - long_word b"
  by (simp add: subtract_def word_add word_negate)

lemma add_unsigned [simp]: "is_unsigned (Long_add a b) = is_unsigned a"
  by (simp add: Long_add_def from_chunks_def fromBits_def new_Long_def Let_def split: prod.splits)

lemma negate_unsigned [simp]: "is_unsigned (negate l) = is_unsigned l"
  by (simp add: negate_def unsigned_MIN Long_not_def fromBits_def new_Long_def)

lemma subtract_unsigned [simp]: "is_unsigned (subtract a b) = is_unsigned a"
  by (simp add: subtract_def)

text \<open>A signed result whose exact value fits is that value.\<close>

lemma int_of_word:
  assumes "long_word l = word_of_int n" "\<not> is_unsigned l" "- (2 ^ 63) \<le> n" "n < 2 ^ 63"
  shows "long_int l = n"
proof -
  have "long_bits l = n mod 2 ^ 64" using assms(1) uint_long_word[of l] by (simp add: uint_word_of_int)
  moreover have "n mod 2 ^ 64 = (if n < 0 then n + 2 ^ 64 else n)"
    using assms(3,4) mod_pos_pos_trivial[of "n + 2 ^ 64" "2 ^ 64"] mod_pos_pos_trivial[of n "2 ^ 64"] by (cases "n < 0") simp_all
  ultimately show ?thesis using assms(2-4) by (auto simp: long_int_bits isNegative_bits)
qed

lemma word_long_int: "long_word l = word_of_int (long_int l)"
  unfolding long_word_def long_int_bits by (auto intro!: word64_wrap[where k = 1])

lemma bits_less:
  "uint (high a) < uint (high b) \<or> high b = high a \<and> uint (low a) < uint (low b) \<longleftrightarrow> long_bits a < long_bits b"
proof -
  have "(p < q \<or> q = p \<and> c < d) \<longleftrightarrow> p * 2 ^ 32 + c < q * 2 ^ 32 + d"
    if "0 \<le> c" "c < 2 ^ 32" "0 \<le> d" "d < 2 ^ 32" for c d p q :: int
    using that by auto
  from this[OF uint32_bounds uint32_bounds] show ?thesis by (simp add: long_bits_def word_uint_eq_iff)
qed

lemma compare_int:
  assumes "is_unsigned a = is_unsigned b"
  shows "Long_compare a b = sgn (long_int a - long_int b)"
proof (cases "is_unsigned a")
  case True
  with assms have "long_int a = long_bits a" "long_int b = long_bits b" "\<not> isNegative a" "\<not> isNegative b"
    by (simp_all add: long_int_def isNegative_def)
  with True show ?thesis using bits_less[of a b] by (auto simp: Long_compare_def Long_equals_int ushr_sint)
next
  case False
  with assms have s: "\<not> is_unsigned a" "\<not> is_unsigned b" by simp_all
  have "long_int (subtract a b) = long_int a - long_int b" if "isNegative a = isNegative b"
  proof (rule int_of_word)
    show "long_word (subtract a b) = word_of_int (long_int a - long_int b)"
      unfolding word_subtract word_long_int[of a] word_long_int[of b] by simp
  qed (use s that long_int_bounds(2)[of a] long_int_bounds(2)[of b] in \<open>auto simp: isNegative_int\<close>)
  with s show ?thesis by (auto simp: Long_compare_def Long_equals_int isNegative_int)
qed

section \<open>Products\<close>

lemma negate_not_negative:
  "isNegative a \<Longrightarrow> \<not> Long_equals a MIN_VALUE \<Longrightarrow> long_int (negate a) = - long_int a \<and> \<not> isNegative (negate a)"
proof -
  assume a: "isNegative a" "\<not> Long_equals a MIN_VALUE"
  then have s: "\<not> is_unsigned a" by (simp add: isNegative_def)
  have "long_int (negate a) = - long_int a"
  proof (rule int_of_word)
    show "long_word (negate a) = word_of_int (- long_int a)" unfolding word_negate word_long_int[of a] by simp
  qed (use a s long_int_bounds(2)[of a] in \<open>auto simp: isNegative_int Long_equals_int int_MIN\<close>)
  with a show ?thesis by (simp add: isNegative_int)
qed

function multiply :: "long \<Rightarrow> long \<Rightarrow> long" where
  "multiply a b =
    (if isZero a then Long_ZERO
     else if isZero b then Long_ZERO
     else if Long_equals a MIN_VALUE then (if isOdd b then MIN_VALUE else Long_ZERO)
     else if Long_equals b MIN_VALUE then (if isOdd a then MIN_VALUE else Long_ZERO)
     else if isNegative a then
       (if isNegative b then multiply (negate a) (negate b) else negate (multiply (negate a) b))
     else if isNegative b then negate (multiply a (negate b))
     else if Long_lessThan a TWO_PWR_24 \<and> Long_lessThan b TWO_PWR_24
     then fromNumber (toNumber a * toNumber b) (is_unsigned a)
     else mul_chunks a b)"
  by pat_completeness auto
termination
  by (relation "measure (\<lambda>(a, b). (if isNegative a then 1 else 0) + (if isNegative b then 1 else 0))")
     (auto simp: negate_not_negative)

declare multiply.simps [simp del]

lemma toNumber_rounds: "toNumber l = rnd (of_int (long_int l))"
proof -
  have shift: "IntN h * Fin (2 ^ 32) = IntN (h * 2 ^ 32)" if "\<bar>h\<bar> \<le> 2 ^ 53" for h
    using rnd_scaled_int[OF that, of 32] by simp
  have "\<bar>sint (high l)\<bar> \<le> 2 ^ 53" using sint_ge[of "high l"] sint_lt[of "high l"] by simp
  moreover have "\<bar>uint (high l)\<bar> \<le> 2 ^ 53" using uint32_bounds[of "high l"] by simp
  ultimately show ?thesis
    by (cases "is_unsigned l")
       (simp_all only: toNumber_def long_int_def long_bits_def ushr_sint power_0 div_by_1 shift if_True if_False Fin_plus of_int_add
         simp_thms)
qed

lemma fromNumber_halves:
  assumes "0 \<le> n" "n < 2 ^ 53"
  shows "fromNumber (IntN n) u = \<lparr> low = word_of_int (n mod 2 ^ 32), high = word_of_int (n div 2 ^ 32), is_unsigned = u \<rparr>"
proof -
  have lt: "(of_int n :: rat) < of_int (2 ^ 53)" "0 \<le> (of_int n :: rat)"
    using assms by (simp_all only: of_int_less_iff of_int_0_le_iff)
  have "IntN n + 1 = IntN (n + 1)" using Int_plus[of n 1] assms by (simp add: one_jsnum_def)
  moreover have "\<not> (of_int (n + 1) :: rat) \<ge> 2 ^ 63" "\<not> (of_int n :: rat) \<ge> 2 ^ 64" "\<not> (of_int n :: rat) \<le> - (2 ^ 63)"
    using lt by simp_all
  moreover have "trunc (of_int n / 4294967296) = n div 4294967296"
    using assms(1) floor_divide_of_int_eq[of n 4294967296, where 'a = rat] by (simp add: trunc_def)
  moreover from this have "jsrem (IntN n) (Fin (2 ^ 32)) = IntN (n mod 2 ^ 32)"
    using minus_mult_div_eq_mod[of n 4294967296, symmetric] by (simp add: jsrem_def)
  moreover have "IntN n / Fin (2 ^ 32) = Fin (of_int n / 4294967296)"
    using rnd_scaled_int[of n "- 32"] assms by (simp add: power_int_minus field_simps)
  ultimately show ?thesis using lt(2)
    by (subst fromNumber.simps) (simp add: zero_jsnum_def to_word32_def)
qed

lemma fromNumber_nat:
  assumes "0 \<le> n" "n < 2 ^ 53"
  shows "long_word (fromNumber (IntN n) u) = word_of_int n"
proof -
  have "uint (word_of_int (n div 2 ^ 32) :: 32 word) = n div 2 ^ 32"
    using assms by (simp add: uint_word_of_int pos_imp_zdiv_nonneg_iff div_less_iff_less_mult)
  moreover have "uint (word_of_int (n mod 2 ^ 32) :: 32 word) = n mod 2 ^ 32" by (simp add: uint_word_of_int)
  ultimately have "long_bits (fromNumber (IntN n) u) = n div 2 ^ 32 * 2 ^ 32 + n mod 2 ^ 32"
    by (simp only: fromNumber_halves[OF assms] long_bits_def long.simps)
  then show ?thesis by (simp only: long_word_def div_mult_mod_eq)
qed

lemma odd_bits: "isOdd l \<longleftrightarrow> odd (long_bits l)"
proof -
  have "isOdd l \<longleftrightarrow> odd (sint (low l))" by (auto simp: isOdd_def and_one_eq odd_iff_mod_2_eq_one)
  also have "\<dots> \<longleftrightarrow> odd (uint (low l))" by (auto simp: uint_sint32)
  finally show ?thesis by (simp add: long_bits_def)
qed

lemma MIN_times: "(2 ^ 63 :: 64 word) * word_of_int n = (if odd n then 2 ^ 63 else 0)"
proof (cases "odd n")
  case True
  then obtain k where "n = 2 * k + 1" by (rule oddE)
  then have "(word_of_int (2 ^ 63 * n) :: 64 word) = word_of_int (2 ^ 63)" by (intro word64_wrap[where k = k]) simp
  with True show ?thesis by simp
next
  case False
  then obtain k where "n = 2 * k" by auto
  then have "(word_of_int (2 ^ 63 * n) :: 64 word) = word_of_int 0" by (intro word64_wrap[where k = k]) simp
  with False show ?thesis by simp
qed

lemma small_exact:
  assumes "Long_lessThan a TWO_PWR_24" "\<not> isNegative a"
  shows "0 \<le> long_int a \<and> long_int a < 2 ^ 24"
proof -
  have t: "long_int TWO_PWR_24 = 2 ^ 24" "\<not> is_unsigned TWO_PWR_24"
    by (simp_all add: TWO_PWR_24_def fromInt_def new_Long_def long_int_def int32_def)
  have "Long_compare a TWO_PWR_24 = sgn (long_int a - long_int TWO_PWR_24)"
  proof (cases "is_unsigned a")
    case True
    then have "Long_compare a TWO_PWR_24 = Long_compare a (TWO_PWR_24\<lparr> is_unsigned := True \<rparr>)"
      using t by (simp add: Long_compare_def Long_equals_def isNegative_def TWO_PWR_24_def fromInt_def new_Long_def int32_def ushr_def)
    then show ?thesis using True compare_int[of a "TWO_PWR_24\<lparr> is_unsigned := True \<rparr>"]
      by (simp add: long_int_def long_bits_def TWO_PWR_24_def fromInt_def new_Long_def int32_def)
  next
    case False
    with t show ?thesis by (simp add: compare_int)
  qed
  with assms t show ?thesis by (auto simp: Long_lessThan_def isNegative_int sgn_if split: if_splits)
qed

lemma word_equals_MIN: "Long_equals a MIN_VALUE \<Longrightarrow> long_word a = 2 ^ 63"
  using word_long_int[of a] by (simp add: Long_equals_int int_MIN)

lemma multiply_special:
  assumes "isZero a \<or> isZero b \<or> Long_equals a MIN_VALUE \<or> Long_equals b MIN_VALUE"
  shows "long_word (multiply a b) = long_word a * long_word b"
proof (cases "isZero a \<or> isZero b")
  case True
  then show ?thesis
    by (auto simp: multiply.simps[of a b] isZero_def word_ZERO long_word_def[of a] long_word_def[of b] long_bits_def)
next
  case False
  with assms show ?thesis
    using word_equals_MIN[of a] word_equals_MIN[of b] MIN_times[of "long_bits a"] MIN_times[of "long_bits b"]
    by (auto simp: multiply.simps[of a b] word_MIN word_ZERO odd_bits long_word_def[of a] long_word_def[of b] mult.commute)
qed

lemma multiply_small:
  assumes "Long_lessThan a TWO_PWR_24" "Long_lessThan b TWO_PWR_24" "\<not> isNegative a" "\<not> isNegative b"
  shows "long_word (fromNumber (toNumber a * toNumber b) u) = long_word a * long_word b"
proof -
  have s: "0 \<le> long_int a" "long_int a < 2 ^ 24" "0 \<le> long_int b" "long_int b < 2 ^ 24"
    using small_exact[of a] small_exact[of b] assms by simp_all
  then have "long_int a * long_int b \<le> 2 ^ 24 * 2 ^ 24" by (intro mult_mono) simp_all
  with s have p: "0 \<le> long_int a * long_int b" "long_int a * long_int b < 2 ^ 53" by simp_all
  have "toNumber a * toNumber b = IntN (long_int a * long_int b)"
    using s p by (simp only: toNumber_rounds) (simp add: rnd_int Int_times del: Fin_times)
  then have "long_word (fromNumber (toNumber a * toNumber b) u) = word_of_int (long_int a * long_int b)"
    by (simp only: fromNumber_nat[OF p])
  then show ?thesis by (simp add: word_long_int[of a] word_long_int[of b])
qed

lemma word_multiply: "long_word (multiply a b) = long_word a * long_word b"
proof (induction a b rule: multiply.induct)
  case (1 a b)
  show ?case
  proof (cases "isZero a \<or> isZero b \<or> Long_equals a MIN_VALUE \<or> Long_equals b MIN_VALUE")
    case True
    then show ?thesis by (rule multiply_special)
  next
    case False
    with 1 show ?thesis
      by (subst multiply.simps) (simp add: word_negate multiply_small word_mul_chunks)
  qed
qed

section \<open>Bitwise operations on the word\<close>

lemma bit_long_word: "n < 64 \<Longrightarrow> bit (long_word l) n \<longleftrightarrow> (if n < 32 then bit (low l) n else bit (high l) (n - 32))"
proof -
  assume n: "n < 64"
  have "long_bits l = push_bit 32 (uint (high l)) OR take_bit 32 (uint (low l))"
  proof -
    have "push_bit 32 (uint (high l)) AND take_bit 32 (uint (low l)) = 0" by (rule bit_eqI) (auto simp: bit_simps)
    then show ?thesis using uint32_bounds[of "low l"]
      by (simp add: disjunctive_add_eq_or[symmetric] long_bits_def push_bit_eq_mult take_bit_eq_mod)
  qed
  with n show ?thesis by (auto simp: long_word_def bit_simps)
qed

lemma fromBits_sel [simp]:
  "low (fromBits lo hi u) = word_of_int lo" "high (fromBits lo hi u) = word_of_int hi" "is_unsigned (fromBits lo hi u) = u"
  by (simp_all add: fromBits_def new_Long_def)

lemma bit_sint32: "bit (sint (w :: 32 word)) n \<longleftrightarrow> bit w (min n 31)"
  by (auto simp: bit_simps min_def)

lemma bit_ushr: "bit (ushr x k) n \<longleftrightarrow> n + k < 32 \<and> bit x (n + k)"
  by (auto simp: ushr_def bit_simps add.commute)

lemmas long_bit_simps = bit_long_word bit_word_of_int_iff bit_sint32 bit_ushr bit_and_iff bit_or_iff bit_xor_iff
  bit_push_bit_iff_int bit_drop_bit_eq

lemma word64_eqI: "(\<And>n. n < 64 \<Longrightarrow> bit (v :: 64 word) n = bit w n) \<Longrightarrow> v = w"
  by (rule bit_eqI) (simp add: bit_simps)

lemma word_and: "long_word (Long_and a b) = long_word a AND long_word b"
  by (rule word64_eqI) (auto simp: Long_and_def long_bit_simps min_def)

lemma word_or: "long_word (Long_or a b) = long_word a OR long_word b"
  by (rule word64_eqI) (auto simp: Long_or_def long_bit_simps min_def)

lemma word_xor: "long_word (Long_xor a b) = long_word a XOR long_word b"
  by (rule word64_eqI) (auto simp: Long_xor_def long_bit_simps min_def)

lemma and_63: "(n :: nat) AND 63 = n mod 64"
proof -
  have "n AND mask 6 = n mod 2 ^ 6" by (simp only: take_bit_eq_mask[symmetric] take_bit_eq_mod)
  then show ?thesis by (simp add: mask_eq_exp_minus_1)
qed

lemma word_shiftLeft: "long_word (shiftLeft l n) = push_bit (n mod 64) (long_word l)"
proof (rule word64_eqI)
  fix k :: nat
  assume k: "k < 64"
  have n: "n mod 64 < 64" by simp
  consider "n mod 64 = 0" | "0 < n mod 64" "n mod 64 < 32" | "32 \<le> n mod 64" by linarith
  then show "bit (long_word (shiftLeft l n)) k = bit (push_bit (n mod 64) (long_word l)) k"
    using k n by cases (auto simp: shiftLeft_def and_63 Let_def long_bit_simps bit_push_bit_iff min_def
      add.commute[of 32])
qed

lemma word_shiftRightUnsigned: "long_word (shiftRightUnsigned l n) = drop_bit (n mod 64) (long_word l)"
proof (rule word64_eqI)
  fix k :: nat
  assume k: "k < 64"
  define m where "m = n mod 64"
  have m: "m < 64" by (simp add: m_def)
  have past: "64 \<le> j \<Longrightarrow> \<not> bit (long_word l) j" for j
    using bit_imp_le_length[of "long_word l" j] by auto
  have high: "bit (high l) j \<Longrightarrow> j < 32" for j using bit_imp_le_length[of "high l" j] by simp
  have run: "shiftRightUnsigned l n = (if m = 0 then l else if m < 32 then
      fromBits (ushr (sint (low l)) m OR push_bit (32 - m) (sint (high l))) (ushr (sint (high l)) m) (is_unsigned l)
    else if m = 32 then fromBits (sint (high l)) 0 (is_unsigned l)
    else fromBits (ushr (sint (high l)) (m - 32)) 0 (is_unsigned l))"
    by (simp add: shiftRightUnsigned_def and_63 m_def Let_def)
  show "bit (long_word (shiftRightUnsigned l n)) k = bit (drop_bit (n mod 64) (long_word l)) k"
    unfolding run m_def[symmetric] bit_drop_bit_eq o_def
  proof (cases "m + k < 64")
    case True
    with k m show "bit (long_word (if m = 0 then l else if m < 32 then
        fromBits (ushr (sint (low l)) m OR push_bit (32 - m) (sint (high l))) (ushr (sint (high l)) m) (is_unsigned l)
      else if m = 32 then fromBits (sint (high l)) 0 (is_unsigned l)
      else fromBits (ushr (sint (high l)) (m - 32)) 0 (is_unsigned l))) k = bit (long_word l) (m + k)"
      by (auto simp: long_bit_simps min_def ac_simps)
  next
    case False
    with k m show "bit (long_word (if m = 0 then l else if m < 32 then
        fromBits (ushr (sint (low l)) m OR push_bit (32 - m) (sint (high l))) (ushr (sint (high l)) m) (is_unsigned l)
      else if m = 32 then fromBits (sint (high l)) 0 (is_unsigned l)
      else fromBits (ushr (sint (high l)) (m - 32)) 0 (is_unsigned l))) k = bit (long_word l) (m + k)"
      by (auto simp: past long_bit_simps min_def dest!: high)
  qed
qed

section \<open>Theorems\<close>

text \<open>
  C27: under the reading of a \<^verbatim>\<open>Long\<close> as a 64-bit word, the chunked sum, the difference, the negation and the
  product of \<^verbatim>\<open>Long.js\<close>, with every one of its shortcuts, are the operations of the ring of 64-bit words, and
  the bitwise operations and the left and unsigned right shifts are those of the words, the count taken modulo 64.
\<close>

theorem long_ring:
  "long_word (Long_add a b) = long_word a + long_word b
   \<and> long_word (subtract a b) = long_word a - long_word b
   \<and> long_word (negate a) = - long_word a
   \<and> long_word (multiply a b) = long_word a * long_word b
   \<and> long_word (Long_not a) = NOT (long_word a)
   \<and> long_word (Long_and a b) = long_word a AND long_word b
   \<and> long_word (Long_or a b) = long_word a OR long_word b
   \<and> long_word (Long_xor a b) = long_word a XOR long_word b
   \<and> long_word (shiftLeft a n) = push_bit (n mod 64) (long_word a)
   \<and> long_word (shiftRightUnsigned a n) = drop_bit (n mod 64) (long_word a)"
  by (simp only: word_add word_subtract word_negate word_multiply word_not word_and word_or word_xor
      word_shiftLeft word_shiftRightUnsigned simp_thms)

text \<open>
  C28: two values of the same signedness are ordered by \<^verbatim>\<open>compare\<close> and the tests built on it as their
  integers are, also where the difference that \<^verbatim>\<open>compare\<close> takes wraps around.
\<close>

theorem long_order:
  assumes "is_unsigned a = is_unsigned b"
  shows "Long_compare a b = sgn (long_int a - long_int b)
    \<and> (Long_equals a b \<longleftrightarrow> long_int a = long_int b) \<and> (notEquals a b \<longleftrightarrow> long_int a \<noteq> long_int b)
    \<and> (Long_lessThan a b \<longleftrightarrow> long_int a < long_int b) \<and> (Long_lessThanOrEqual a b \<longleftrightarrow> long_int a \<le> long_int b)
    \<and> (Long_greaterThan a b \<longleftrightarrow> long_int a > long_int b) \<and> (Long_greaterThanOrEqual a b \<longleftrightarrow> long_int a \<ge> long_int b)"
  by (auto simp: compare_int[OF assms] Long_equals_int notEquals_def Long_lessThan_def Long_lessThanOrEqual_def
      Long_greaterThan_def Long_greaterThanOrEqual_def sgn_if)

theorem long_order_witness:
  "Long_compare MIN_VALUE MAX_VALUE = sgn (long_int MIN_VALUE - long_int MAX_VALUE) \<and> Long_lessThan MIN_VALUE MAX_VALUE"
proof -
  have "is_unsigned MIN_VALUE = is_unsigned MAX_VALUE" "long_int MIN_VALUE < long_int MAX_VALUE"
    by (simp_all add: MIN_VALUE_def MAX_VALUE_def fromBits_def new_Long_def long_int_def)
  with long_order[of MIN_VALUE MAX_VALUE] show ?thesis by blast
qed

text \<open>
  Values of different signedness are not ordered by their integers: the signed \<open>2 ^ 62\<close> compares
  greater than the unsigned \<open>2 ^ 64 - 1\<close>, since the sign of a signed difference decides.
\<close>

theorem long_order_mixed:
  "\<exists>a. long_int a = 2 ^ 62 \<and> long_int MAX_UNSIGNED_VALUE = 2 ^ 64 - 1 \<and> Long_compare a MAX_UNSIGNED_VALUE = 1"
proof -
  let ?a = "fromBits 0 0x40000000 False"
  have i: "long_int ?a = 2 ^ 62" "long_int MAX_UNSIGNED_VALUE = 2 ^ 64 - 1"
    by (simp_all add: long_int_def long_bits_def MAX_UNSIGNED_VALUE_def fromBits_def new_Long_def)
  have "long_word (subtract ?a MAX_UNSIGNED_VALUE) = word_of_int (2 ^ 62 + 1)"
    unfolding word_subtract by (simp add: word_long_int i)
  then have "long_bits (subtract ?a MAX_UNSIGNED_VALUE) = 2 ^ 62 + 1"
    by (simp flip: uint_long_word)
  moreover have "\<not> is_unsigned ?a" "is_unsigned MAX_UNSIGNED_VALUE"
    by (simp_all add: MAX_UNSIGNED_VALUE_def fromBits_def new_Long_def)
  moreover have "\<not> isNegative ?a" "\<not> isNegative MAX_UNSIGNED_VALUE" unfolding isNegative_int i by simp_all
  ultimately have "Long_compare ?a MAX_UNSIGNED_VALUE = 1"
    unfolding Long_compare_def Long_equals_int i by (simp add: isNegative_bits)
  with i show ?thesis by blast
qed

text \<open>
  C29: \<^verbatim>\<open>toNumber\<close> is the binary64 value nearest to the integer, whatever its size, and a whole number below
  \<open>2 ^ 53\<close> survives \<^verbatim>\<open>fromNumber\<close> followed by \<^verbatim>\<open>toNumber\<close>.
\<close>

theorem long_numbers:
  "toNumber l = rnd (of_int (long_int l)) \<and> (0 \<le> n \<and> n < 2 ^ 53 \<longrightarrow> toNumber (fromNumber (IntN n) u) = IntN n)"
proof -
  have "toNumber (fromNumber (IntN n) u) = IntN n" if n: "0 \<le> n" "n < 2 ^ 53"
  proof -
    have w: "long_word (fromNumber (IntN n) u) = word_of_int n" by (rule fromNumber_nat[OF n])
    have "long_bits (fromNumber (IntN n) u) = n"
      using n by (simp add: uint_word_of_int w flip: uint_long_word)
    then have "long_int (fromNumber (IntN n) u) = n"
      using n by (simp add: long_int_bits isNegative_bits)
    then show ?thesis using rnd_scaled_int[of n 0] n by (simp add: toNumber_rounds)
  qed
  then show ?thesis by (simp add: toNumber_rounds)
qed

theorem long_numbers_witness:
  "toNumber (fromNumber (IntN 20999999976900) True) = IntN 20999999976900"
  using long_numbers[of Long_ZERO 20999999976900 True] by simp

text \<open>
  \<^verbatim>\<open>fromInt\<close> of an unsigned value whose bit 31 is set fills the high half with ones, so that
  \<^verbatim>\<open>fromInt(2147483648, true)\<close> is \<open>2 ^ 64 - 2 ^ 31\<close> and not \<open>2 ^ 31\<close>, which \<^verbatim>\<open>fromNumber\<close> gives.
\<close>

theorem fromInt_unsigned:
  "long_int (fromInt (2 ^ 31) True) = 2 ^ 64 - 2 ^ 31 \<and> long_int (fromNumber (IntN (2 ^ 31)) True) = 2 ^ 31"
proof -
  have "fromNumber (IntN (2 ^ 31)) True = \<lparr> low = word_of_int (2 ^ 31), high = 0, is_unsigned = True \<rparr>"
    using fromNumber_halves[of "2 ^ 31" True] by simp
  then show ?thesis
    by (simp add: fromInt_def ushr_def int32_def new_Long_def long_int_def long_bits_def Let_def unsigned_minus_1_eq_mask mask_eq_exp_minus_1)
qed

end
