(* ===== verification/Channel.thy ===== *)
theory Channel
  imports Spending LongJS
begin

text \<open>
  \<^verbatim>\<open>bitcore-channel.js\<close>: the commitment, refund and payment transactions of a channel and the
  \<^verbatim>\<open>Consumer\<close> that builds them, with the \<^verbatim>\<open>Provider\<close> that receives payments. All keys and addresses
  belong to one network, so two address strings are equal when hash and type are.
\<close>

section \<open>Commitment\<close>

record commitment =
  com_tx :: transaction
  com_publicKeys :: "bytes list"
  outscript :: script
  com_address :: address

abbreviation on_com :: "'a txm \<Rightarrow> (commitment, 'a) action" where
  "on_com \<equiv> zoom com_tx (\<lambda>t c. c\<lparr> com_tx := t \<rparr>)"

text \<open>\<^verbatim>\<open>new Commitment({publicKeys, network})\<close>, without a serialized transaction to start from.\<close>

definition new_Commitment :: "crypto \<Rightarrow> bytes list \<Rightarrow> exn + commitment" where
  "new_Commitment C keys =
    (if length keys \<noteq> 2 then Inl (InvalidArgument ''Must provide exactly two public keys'')
     else case buildMultisigOut keys 2 True of Inl e \<Rightarrow> Inl e | Inr redeem \<Rightarrow>
     case buildScriptHashOut C redeem of Inl e \<Rightarrow> Inl e | Inr s \<Rightarrow>
     case getAddressInfo C s of Inl e \<Rightarrow> Inl e
     | Inr None \<Rightarrow> Inl (InvalidArgument ''First argument is required, please include address data.'')
     | Inr (Some a) \<Rightarrow> (case tx_change a new_Transaction of
           (Inl e, _) \<Rightarrow> Inl e
         | (Inr _, tx) \<Rightarrow> Inr \<lparr> com_tx = tx, com_publicKeys = keys, outscript = s, com_address = a \<rparr>))"

section \<open>Payment\<close>

record payment =
  pay_tx :: transaction
  paymentAddress :: address
  changeAddress :: address
  multisigOut :: utxo
  pay_publicKeys :: "bytes list"
  amount :: jsnum
  sequence :: int
  paid :: jsnum

definition on_pay :: "'a txm \<Rightarrow> (payment, 'a) action" where
  "on_pay m = zoom pay_tx (\<lambda>t p. p\<lparr> pay_tx := t \<rparr>) m"

text \<open>\<^verbatim>\<open>new Payment(opts)\<close> for a new payment: no transaction, no sequence and nothing paid yet.\<close>

definition new_Payment :: "crypto \<Rightarrow> utxo \<Rightarrow> address \<Rightarrow> address \<Rightarrow> bytes list \<Rightarrow> exn + payment" where
  "new_Payment C out payA changeA keys =
    (case UnspentOutput out of Inl e \<Rightarrow> Inl e | Inr u \<Rightarrow>
     case tx_from C u (Some (keys, 2)) new_Transaction of (Inl e, _) \<Rightarrow> Inl e | (Inr _, tx) \<Rightarrow>
     case getInputAmount tx of (Inl e, _) \<Rightarrow> Inl e | (Inr a, tx) \<Rightarrow>
       Inr \<lparr> pay_tx = tx, paymentAddress = payA, changeAddress = changeA, multisigOut = u, pay_publicKeys = keys,
             amount = a, sequence = 0, paid = 0 \<rparr>)"

text \<open>
  \<^verbatim>\<open>_updateTransaction\<close>. It ends by setting \<^verbatim>\<open>inputs[0].sequence\<close>, which is not the property the
  serializer writes, \<^verbatim>\<open>sequenceNumber\<close>; of that assignment only the access to \<^verbatim>\<open>inputs[0]\<close> is left.
\<close>

definition updateTransaction :: "(payment, unit) action" where
  "updateTransaction = here (\<lambda>p. let refund = amount p - paid p in block [
     on_pay (modify (\<lambda>tx. tx\<lparr> outputs := [] \<rparr>)),
     (if \<not> jseq refund 0 then
        on_pay (bind (lift (Script_fromAddress (changeAddress p))) (\<lambda>s.
          bind (lift (new_Output s refund)) (\<lambda>out. modify (addOutput_raw out))))
      else return ()),
     here (\<lambda>p. if inputs (pay_tx p) = [] then throw (TypeError ''undefined has no properties'') else return ())])"

definition updateValue :: "jsnum \<Rightarrow> (payment, unit) action" where
  "updateValue delta = block [
     modify (\<lambda>p. p\<lparr> paid := paid p + delta \<rparr>),
     modify (\<lambda>p. p\<lparr> sequence := sequence p + 1 \<rparr>),
     updateTransaction]"

section \<open>Consumer\<close>

text \<open>The expiry option is a Number, where zero counts as absent, or a \<^verbatim>\<open>Long\<close>, which always counts as present.\<close>

datatype expiry = NumberTime int | LongTime long

record consumer =
  expires :: expiry
  commitmentKey :: bytes
  providerPublicKey :: bytes
  providerAddress :: address
  fundingKey :: bytes
  fundingAddress :: address
  refundAddress :: address
  commitmentTx :: commitment
  refundTx :: "transaction option"
  paymentTx :: "payment option"

record consumer_opts =
  opt_expires :: "expiry option"
  opt_commitmentKey :: bytes
  opt_providerPublicKey :: bytes
  opt_providerAddress :: "address option"
  opt_fundingKey :: "bytes option"
  opt_refundAddress :: "address option"

definition key_address :: "crypto \<Rightarrow> bytes \<Rightarrow> address" where
  "key_address C pub = \<lparr> hashBuffer = sha256ripemd160 C pub, addr_type = PayToPublicKeyHash \<rparr>"

text \<open>\<^verbatim>\<open>Math.round(new Date().getTime() / 1000)\<close>, the clock given in milliseconds.\<close>

definition seconds :: "int \<Rightarrow> int" where
  "seconds now = (case js_round (IntN now / Fin 1000) of Fin a \<Rightarrow> trunc a | _ \<Rightarrow> 0)"

abbreviation (input) ONE_DAY :: int where "ONE_DAY \<equiv> 60 * 60 * 24"

text \<open>The arguments \<open>fresh1\<close> and \<open>fresh2\<close> are the keys that \<^verbatim>\<open>new PrivateKey()\<close> draws.\<close>

definition new_Consumer :: "crypto \<Rightarrow> int \<Rightarrow> bytes \<Rightarrow> bytes \<Rightarrow> consumer_opts \<Rightarrow> exn + consumer" where
  "new_Consumer C now fresh1 fresh2 opts =
    (let fk = (case opt_fundingKey opts of Some k \<Rightarrow> k | None \<Rightarrow> fresh1);
         ra = (case opt_refundAddress opts of Some a \<Rightarrow> a | None \<Rightarrow> key_address C (privToPub C fresh2));
         pk = opt_providerPublicKey opts
     in map_sum id (\<lambda>com.
          \<lparr> expires = (case opt_expires opts of
               None \<Rightarrow> NumberTime (seconds now + ONE_DAY)
             | Some t \<Rightarrow> if t = NumberTime 0 then NumberTime (seconds now + ONE_DAY) else t),
            commitmentKey = opt_commitmentKey opts,
            providerPublicKey = pk,
            providerAddress = (case opt_providerAddress opts of Some a \<Rightarrow> a | None \<Rightarrow> key_address C pk),
            fundingKey = fk,
            fundingAddress = key_address C (privToPub C fk),
            refundAddress = ra,
            commitmentTx = com,
            refundTx = None,
            paymentTx = None \<rparr>)
        (new_Commitment C [privToPub C (opt_commitmentKey opts), pk]))"

type_synonym 'a conm = "(consumer, 'a) action"

definition on_commitment :: "'a txm \<Rightarrow> 'a conm" where
  "on_commitment m = zoom (\<lambda>c. com_tx (commitmentTx c)) (\<lambda>t c. c\<lparr> commitmentTx := (commitmentTx c)\<lparr> com_tx := t \<rparr> \<rparr>) m"

definition processFunding :: "crypto \<Rightarrow> utxo \<Rightarrow> unit conm" where
  "processFunding C u = block [
     on_commitment (tx_from C u None),
     on_commitment (modify (\<lambda>tx. tx\<lparr> outputs := [] \<rparr>)),
     here (\<lambda>c. on_commitment (bind getInputAmount (\<lambda>a. bind getFee (\<lambda>f.
       bind (lift (new_Output (outscript (commitmentTx c)) (a - f))) addOutput))))]"

text \<open>\<^verbatim>\<open>this.commitmentTx.amount - this.commitmentTx.getFee()\<close>, where \<^verbatim>\<open>amount\<close> is the input amount.\<close>

definition channel_amount :: "jsnum conm" where
  "channel_amount = on_commitment (bind getInputAmount (\<lambda>a. bind getFee (\<lambda>f. return (a - f))))"

definition channel_out :: "crypto \<Rightarrow> jsnum \<Rightarrow> consumer \<Rightarrow> exn + utxo" where
  "channel_out C a c = (let tx = com_tx (commitmentTx c) in
     case Transaction_hash C tx of Inl e \<Rightarrow> Inl e | Inr txid \<Rightarrow>
     case outputs tx of [] \<Rightarrow> Inl (TypeError ''undefined has no properties'')
     | out # _ \<Rightarrow> map_sum id (\<lambda>s. \<lparr> txId = txid, utxo_outputIndex = 0, utxo_script = s, utxo_satoshis = a \<rparr>)
                    (output_script out))"

text \<open>An action on the refund transaction; without one, the property access throws.\<close>

definition on_refund :: "'a txm \<Rightarrow> 'a conm" where
  "on_refund m = here (\<lambda>c. case refundTx c of
     None \<Rightarrow> throw (TypeError ''undefined has no properties'')
   | Some t \<Rightarrow> zoom (\<lambda>_. t) (\<lambda>t c. c\<lparr> refundTx := Some t \<rparr>) m)"

definition setupRefund :: "crypto \<Rightarrow> int \<Rightarrow> unit conm" where
  "setupRefund C now = block [
     here (\<lambda>c. on_commitment (Transaction_sign C (fundingKey c) 0)),
     bind (here (\<lambda>c. lift (isFullySigned C (com_tx (commitmentTx c))))) (\<lambda>ok. checkState ok []),
     bind channel_amount (\<lambda>a. here (\<lambda>c. bind (lift (channel_out C a c)) (\<lambda>u.
       case tx_from C u (Some (com_publicKeys (commitmentTx c), 2)) new_Transaction of
         (Inl e, _) \<Rightarrow> throw e
       | (Inr _, tx) \<Rightarrow> modify (\<lambda>c. c\<lparr> refundTx := Some tx \<rparr>)))),
     here (\<lambda>c. on_refund (bind getInputAmount (\<lambda>a. tx_to (refundAddress c) a))),
     on_refund (at_input 0 (modify (\<lambda>i. i\<lparr> sequenceNumber := 0 \<rparr>))),
     on_refund (modify (\<lambda>tx. tx\<lparr> nLockTime := seconds now + ONE_DAY \<rparr>))]"

text \<open>
  \<^verbatim>\<open>validateRefund\<close>, called with the transaction that \<^verbatim>\<open>setupRefund\<close> returned, which is the object
  \<^verbatim>\<open>this.refundTx\<close> itself. The interpreter runs the scripts of input 0.
\<close>

definition script_address :: "crypto \<Rightarrow> script \<Rightarrow> exn + address" where
  "script_address C s = (case getAddressInfo C s of Inl e \<Rightarrow> Inl e
     | Inr None \<Rightarrow> Inl (GenericError ''CantDeriveAddress'') | Inr (Some a) \<Rightarrow> Inr a)"

definition first_output :: "transaction \<Rightarrow> exn + tx_output" where
  "first_output tx = (case outputs tx of [] \<Rightarrow> Inl (TypeError ''undefined has no properties'') | out # _ \<Rightarrow> Inr out)"

definition first_input_verifies :: "crypto \<Rightarrow> transaction \<Rightarrow> exn + bool" where
  "first_input_verifies C tx = (case inputs tx of [] \<Rightarrow> Inl (TypeError ''undefined has no properties'')
     | i # _ \<Rightarrow> (case input_script i of Inl e \<Rightarrow> Inl e | Inr sig \<Rightarrow>
        case in_output i of None \<Rightarrow> Inl (TypeError ''undefined has no properties'')
        | Some out \<Rightarrow> (case output_script out of Inl e \<Rightarrow> Inl e
            | Inr pub \<Rightarrow> verify_input C sig pub tx 0 channel_flags)))"

definition validateRefund :: "crypto \<Rightarrow> unit conm" where
  "validateRefund C = block [
     here (\<lambda>c. on_refund (Transaction_sign C (commitmentKey c) 0)),
     here (\<lambda>c. on_refund (here (\<lambda>tx. bind (lift (first_output tx)) (\<lambda>out.
       bind (lift (output_script out)) (\<lambda>s. bind (lift (script_address C s)) (\<lambda>a.
         checkState (a = refundAddress c) [])))))),
     bind (on_refund (here (\<lambda>tx. lift (map_sum id satoshis (first_output tx))))) (\<lambda>a. block [
       bind channel_amount (\<lambda>b. checkState (jseq a b) ''Refund amount must equal commitmentTx amount''),
       on_refund (here (\<lambda>tx. checkState (length (outputs tx) = 1) ''More than expected outputs received'')),
       on_refund (here (\<lambda>tx. bind (lift (isFullySigned C tx)) (\<lambda>ok. checkState ok ''Refund was not fully signed''))),
       on_refund (here (\<lambda>tx. bind (lift (first_input_verifies C tx)) (\<lambda>ok. checkState ok ''Refund is incorrectly signed''))),
       here (\<lambda>c. bind (lift (channel_out C a c)) (\<lambda>u.
         bind (lift (new_Payment C u (providerAddress c) (refundAddress c) (com_publicKeys (commitmentTx c))))
              (\<lambda>p. modify (\<lambda>c. c\<lparr> paymentTx := Some p \<rparr>))))])]"

definition on_payment :: "(payment, 'a) action \<Rightarrow> 'a conm" where
  "on_payment m = here (\<lambda>c. case paymentTx c of
     None \<Rightarrow> throw (TypeError ''undefined has no properties'')
   | Some p \<Rightarrow> zoom (\<lambda>_. p) (\<lambda>p c. c\<lparr> paymentTx := Some p \<rparr>) m)"

definition incrementPaymentBy :: "crypto \<Rightarrow> jsnum \<Rightarrow> int \<Rightarrow> unit conm" where
  "incrementPaymentBy C n ty = here (\<lambda>c. block [
     on_payment (updateValue n),
     on_payment (on_pay (Transaction_sign C (commitmentKey c) ty))])"

section \<open>Provider\<close>

record provider =
  prov_paymentAddress :: address
  currentAmount :: jsnum
  prov_key :: bytes
  prov_paymentTx :: "payment option"

text \<open>
  \<^verbatim>\<open>validPayment\<close> on a payment object, past its deserialization. An output whose script gives no
  address compares as the string \<^verbatim>\<open>false\<close>.
\<close>

fun paid_to :: "crypto \<Rightarrow> address \<Rightarrow> jsnum option \<Rightarrow> tx_output list \<Rightarrow> exn + jsnum option" where
  "paid_to C a found [] = Inr found"
| "paid_to C a found (out # os) = (case output_script out of Inl e \<Rightarrow> Inl e | Inr s \<Rightarrow>
     case getAddressInfo C s of Inl e \<Rightarrow> Inl e
     | Inr b \<Rightarrow> paid_to C a (if b = Some a then Some (satoshis out) else found) os)"

definition validPayment :: "crypto \<Rightarrow> payment \<Rightarrow> (provider, payment) action" where
  "validPayment C p = here (\<lambda>v.
     case Transaction_sign C (prov_key v) 0 (pay_tx p) of (Inl e, _) \<Rightarrow> throw e
     | (Inr _, tx) \<Rightarrow>
       bind (lift (paid_to C (prov_paymentAddress v) None (outputs tx))) (\<lambda>newAmount. case newAmount of
         None \<Rightarrow> throw (InvalidState ''No output found corresponding to paymentAddress'')
       | Some n \<Rightarrow> bind (bind (lift (first_input_verifies C tx)) (\<lambda>ok. checkState ok
              ''Script did not evaluate correctly (probably a bad signature received)'')) (\<lambda>_.
            bind (checkState (n > currentAmount v) ''A payment for a greater amount was already received'') (\<lambda>_.
            let p' = p\<lparr> pay_tx := tx \<rparr> in
            bind (modify (\<lambda>v. v\<lparr> prov_paymentTx := Some p', currentAmount := n \<rparr>)) (\<lambda>_. return p')))))"

section \<open>The commitment transaction\<close>

text \<open>What the hash functions promise.\<close>

definition good_hash :: "crypto \<Rightarrow> bool" where
  "good_hash C \<longleftrightarrow> (\<forall>b. length (sha256ripemd160 C b) = 20) \<and> (\<forall>b. length (sha256sha256 C b) = 32)"

lemma channel_script:
  assumes "good_hash C" "length keys = 2" "list_all key_ok keys"
  shows "buildScriptHashOut C (redeem_of keys) = Inr (p2sh (channel_hash C keys))"
  using wf_toBuffer[OF wf_redeem[OF assms(3)]] assms(1)
  by (simp add: buildScriptHashOut_def channel_hash_def p2sh_script_p2sh good_hash_def)

lemma channel_hash_length: "good_hash C \<Longrightarrow> length (channel_hash C keys) = 20"
  by (simp add: channel_hash_def good_hash_def)

lemma fromAddress_p2sh:
  "length h = 20 \<Longrightarrow> Script_fromAddress \<lparr> hashBuffer = h, addr_type = PayToScriptHash \<rparr> = Inr (p2sh h)"
  by (simp add: Script_fromAddress_def buildScriptHashOut_address_def p2sh_script_p2sh)

lemma fromAddress_p2pkh:
  "length (hashBuffer a) = 20 \<Longrightarrow> addr_type a = PayToPublicKeyHash \<Longrightarrow> Script_fromAddress a = Inr (p2pkh (hashBuffer a))"
  by (simp add: Script_fromAddress_def buildPublicKeyHashOut_p2pkh)

definition empty_commitment :: "script \<Rightarrow> transaction" where
  "empty_commitment s = new_Transaction\<lparr> inputAmount_cache := Some 0, outputAmount_cache := Some 0, changeScript := Some s \<rparr>"

lemma IntN_0: "IntN 0 = 0"
  by (simp add: zero_jsnum_def)

lemma empty_fee: "estimateFee_of 26 0 = Fin 1000"
  using js_ceil_div[of 26] by (simp add: estimateFee_of_def Let_def zero_jsnum_def)

lemma updateChangeOutput_empty:
  "updateChangeOutput (new_Transaction\<lparr> changeScript := Some s \<rparr>) = (Inr (), empty_commitment s)"
proof -
  let ?t = "new_Transaction\<lparr> changeScript := Some s \<rparr>"
  have u: "getUnspentValue t = (Inr 0, t\<lparr> inputAmount_cache := Some 0, outputAmount_cache := Some 0 \<rparr>)"
    if "t = ?t \<or> t = empty_commitment s" for t
    using that getUnspentValue_run_Nil[of t]
    by (auto simp: new_Transaction_def in_total_def zero_jsnum_def empty_commitment_def)
  have f: "getFee (empty_commitment s) = (Inr (Fin 1000), empty_commitment s)"
    using u[of "empty_commitment s"] empty_fee
    by (simp add: getFee_def here_def empty_commitment_def new_Transaction_def estimateFee_def bind_def lift_def
        estimateSize_def return_def)
  have "place_change s ?t = (Inr (), empty_commitment s)"
    using u[of ?t] f
    by (simp add: place_change_def bind_def empty_commitment_def Let_def zero_jsnum_def modify_def new_Transaction_def)
  then show ?thesis
    by (simp add: updateChangeOutput_def here_def block_Cons Transaction_clearSignatures_def zoom_def new_Transaction_def
        modify_def drop_change_def)
qed

lemma new_Commitment_run:
  assumes "good_hash C" "length keys = 2" "list_all key_ok keys"
  shows "new_Commitment C keys = Inr \<lparr> com_tx = empty_commitment (p2sh (channel_hash C keys)), com_publicKeys = keys,
     outscript = p2sh (channel_hash C keys),
     com_address = \<lparr> hashBuffer = channel_hash C keys, addr_type = PayToScriptHash \<rparr> \<rparr>"
  using assms channel_hash_length[OF assms(1), of keys]
  by (simp add: new_Commitment_def two_of_two channel_script getAddressInfo_p2sh tx_change_def fromAddress_p2sh
      bind_def lift_def block_Cons modify_def updateChangeOutput_empty)

section \<open>Funding\<close>

text \<open>An unspent output of whole satoshis that pays to the hash of one key.\<close>

definition pays_hash :: "bytes \<Rightarrow> int \<Rightarrow> utxo \<Rightarrow> bool" where
  "pays_hash h v u \<longleftrightarrow> length h = 20 \<and> utxo_script u = p2pkh h \<and> utxo_satoshis u = IntN v \<and> 0 \<le> v
     \<and> length (txId u) = 32"

lemma p2pkh_wire_length: "length h = 20 \<Longrightarrow> length (concat (map chunk_wire (p2pkh h))) = 25"
  by (simp add: p2pkh_def chunk_wire_def push_width_def)

lemma p2sh_wire_length: "length h = 20 \<Longrightarrow> length (concat (map chunk_wire (p2sh h))) = 23"
  by (simp add: p2sh_def chunk_wire_def push_width_def)

lemma wf_fits: "list_all wf_chunk s \<Longrightarrow> list_all fits_chunk s"
  by (auto simp: list_all_iff wf_chunk_fits)

lemma UnspentOutput_id:
  assumes "txId u \<noteq> []" "length (txId u) \<le> 32" "list_all wf_chunk (utxo_script u)"
    "length (concat (map chunk_wire (utxo_script u))) < 2 ^ 31"
  shows "UnspentOutput u = Inr u"
  using assms wf_fromBuffer[OF assms(3,4)] by (simp add: UnspentOutput_def wf_toBuffer)

lemma UnspentOutput_pays: "pays_hash h v u \<Longrightarrow> UnspentOutput u = Inr u"
  by (rule UnspentOutput_id) (auto simp: pays_hash_def wf_p2pkh p2pkh_wire_length)

definition funding_input :: "bytes \<Rightarrow> int \<Rightarrow> utxo \<Rightarrow> tx_input" where
  "funding_input h v u = new_Input (Some (change_output (p2pkh h) v)) (txId u) (utxo_outputIndex u) PublicKeyHashInput"

lemma funding_input_simps:
  "pays_hash h v u \<Longrightarrow> pkh (funding_input h v u) \<and> funded (funding_input h v u)
     \<and> in_total [funding_input h v u] = v \<and> cleared (funding_input h v u) = funding_input h v u"
  by (simp add: funding_input_def pkh_def funded_def new_Input_def change_output_def int_sats_def in_total_def
      cleared_def pays_hash_def)

lemma tx_from_pays:
  assumes "pays_hash h v u" "\<not> list_ex (\<lambda>i. spends i u) (inputs tx)"
  shows "tx_from C u None tx = uncheckedAddInput (funding_input h v u) tx"
proof -
  have h: "length h = 20" "utxo_script u = p2pkh h" "utxo_satoshis u = IntN v" using assms(1) by (auto simp: pays_hash_def)
  then show ?thesis
    using assms UnspentOutput_pays[OF assms(1)] new_Output_change[OF wf_fits[OF wf_p2pkh[OF h(1)]], of v]
    by (simp add: tx_from_def here_def fromNonP2SH_def bind_def lift_def addInput_def funding_input_def new_Input_def)
qed

lemma in_total_append: "in_total (is @ js) = in_total is + in_total js"
  by (simp add: in_total_def)

text \<open>The commitment once it is funded.\<close>

definition commitment_value :: "tx_input list \<Rightarrow> int" where
  "commitment_value is = in_total is - kb_fee (pkh_size (length is) + 62)"

definition funded_commitment :: "script \<Rightarrow> transaction \<Rightarrow> tx_input list \<Rightarrow> transaction" where
  "funded_commitment s tx is = tx\<lparr> inputs := is, outputs := [change_output s (commitment_value is)],
     inputAmount_cache := Some (IntN (in_total is)), outputAmount_cache := None, changeIndex := Some 0 \<rparr>"

lemma change_only_add:
  assumes "change_only tx" "pays_hash h v u" "in_total (inputs tx) + v \<le> 2 ^ 53" "length (inputs tx) + 1 < 2 ^ 31"
  shows "change_only (tx\<lparr> inputs := inputs tx @ [funding_input h v u], inputAmount_cache := None \<rparr>)"
  using assms funding_input_simps[OF assms(2)] by (auto simp: change_only_def in_total_append split: option.splits)

lemma processFunding_tx:
  assumes co: "change_only tx" "changeScript tx = Some s" "list_all fits_chunk s"
    and u: "pays_hash h v u" "\<not> list_ex (\<lambda>i. spends i u) (inputs tx)"
    and total: "in_total (inputs tx) + v \<le> 2 ^ 53" "length (inputs tx) + 1 < 2 ^ 31"
    and enough: "0 < commitment_value (inputs tx @ [funding_input h v u])"
  defines "is \<equiv> map cleared (inputs tx) @ [funding_input h v u]"
  shows "tx_from C u None tx = (Inr (), funded_commitment s tx is)"
    and "bind getInputAmount (\<lambda>a. bind getFee (\<lambda>f. bind (lift (new_Output s (a - f))) addOutput))
           ((funded_commitment s tx is)\<lparr> outputs := [] \<rparr>) = (Inr (), funded_commitment s tx is)"
proof -
  let ?i = "funding_input h v u" and ?t1 = "tx\<lparr> inputs := inputs tx @ [funding_input h v u], inputAmount_cache := None \<rparr>"
  note i = funding_input_simps[OF u(1)]
  have co1: "change_only ?t1" by (rule change_only_add[OF co(1) u(1) total])
  have eq: "in_total (inputs tx @ [?i]) = in_total is" "length (inputs tx @ [?i]) = length is" "map cleared is = is"
    using i by (simp_all add: is_def in_total_append o_def)
  have fee1: "change_fee ?t1 = kb_fee (pkh_size (length is) + 62)" using eq by (simp add: change_fee_def)
  have lt: "change_fee ?t1 < in_total (inputs ?t1)" using enough eq by (simp add: fee1 commitment_value_def)
  from updateChangeOutput_change_only[OF co1 _ co(3) lt] co(2)
  show "tx_from C u None tx = (Inr (), funded_commitment s tx is)"
    using fee1 eq i unfolding tx_from_pays[OF u]
    by (simp add: uncheckedAddInput_def block_Cons modify_def funded_commitment_def is_def commitment_value_def in_total_append)
  let ?t2 = "(funded_commitment s tx is)\<lparr> outputs := [] \<rparr>"
  have co2: "change_only (?t2\<lparr> changeIndex := None \<rparr>)" "change_only (?t2\<lparr> outputs := [out] \<rparr>)" for out
    using co1 eq unfolding funded_commitment_def by (auto simp: change_only_def is_def list_all_iff in_total_append)
  have inp: "getInputAmount ?t2 = (Inr (IntN (in_total is)), ?t2)"
    using co2(1) by (subst getInputAmount_run) (auto simp: change_only_def funded_commitment_def)
  have t2: "change_fee ?t2 = kb_fee (pkh_size (length is) + 62)" "inputs ?t2 = is" "changeScript ?t2 = Some s"
    using co(2) by (simp_all add: change_fee_def funded_commitment_def)
  have fee: "getFee ?t2 = (Inr (IntN (kb_fee (pkh_size (length is) + 62))), counted ?t2)"
    using getFee_run_Nil[of ?t2 s] co2(1) t2 lt fee1 eq by (simp add: funded_commitment_def)
  have "IntN (in_total is) - IntN (kb_fee (pkh_size (length is) + 62)) = IntN (commitment_value is)"
    using co1 eq enough kb_fee_bounds(1)[of "pkh_size (length is) + 62"] unfolding commitment_value_def
    by (intro Int_minus) (auto simp: change_only_def pkh_size_def)
  then have out: "new_Output s (IntN (in_total is) - IntN (kb_fee (pkh_size (length is) + 62))) = Inr (change_output s (commitment_value is))"
    by (simp only: new_Output_change[OF co(3)])
  let ?t3 = "addOutput_raw (change_output s (commitment_value is)) (counted ?t2)"
  have co3: "change_only ?t3" "changeScript ?t3 = Some s" "change_fee ?t3 < in_total (inputs ?t3)"
    using co1 eq co(2) lt fee1
    by (auto simp: change_only_def is_def list_all_iff in_total_append addOutput_raw_def funded_commitment_def change_fee_def)
  have "updateChangeOutput ?t3 = (Inr (), funded_commitment s tx is)"
    using updateChangeOutput_change_only[OF co3(1,2) co(3) co3(3)] eq
    by (simp add: addOutput_raw_def funded_commitment_def change_fee_def commitment_value_def)
  then show "bind getInputAmount (\<lambda>a. bind getFee (\<lambda>f. bind (lift (new_Output s (a - f))) addOutput)) ?t2
      = (Inr (), funded_commitment s tx is)"
    by (simp only: bind_def inp prod.case sum.case fee lift_def out) (simp add: addOutput_def block_Cons modify_def)
qed

definition fundable :: "consumer \<Rightarrow> bool" where
  "fundable c \<longleftrightarrow> change_only (com_tx (commitmentTx c)) \<and> changeScript (com_tx (commitmentTx c)) = Some (outscript (commitmentTx c))
     \<and> list_all fits_chunk (outscript (commitmentTx c))"

definition set_commitment :: "transaction \<Rightarrow> consumer \<Rightarrow> consumer" where
  "set_commitment t c = c\<lparr> commitmentTx := (commitmentTx c)\<lparr> com_tx := t \<rparr> \<rparr>"

lemma on_commitment_run: "m (com_tx (commitmentTx c)) = (r, t) \<Longrightarrow> on_commitment m c = (r, set_commitment t c)"
  by (simp add: on_commitment_def zoom_def set_commitment_def)

lemma set_commitment_simps [simp]:
  "com_tx (commitmentTx (set_commitment t c)) = t" "outscript (commitmentTx (set_commitment t c)) = outscript (commitmentTx c)"
  "com_publicKeys (commitmentTx (set_commitment t c)) = com_publicKeys (commitmentTx c)"
  "set_commitment t (set_commitment t' c) = set_commitment t c" "fundingKey (set_commitment t c) = fundingKey c"
  "refundAddress (set_commitment t c) = refundAddress c" "commitmentKey (set_commitment t c) = commitmentKey c"
  by (simp_all add: set_commitment_def)

abbreviation commitment_inputs :: "consumer \<Rightarrow> tx_input list" where
  "commitment_inputs c \<equiv> inputs (com_tx (commitmentTx c))"

lemma processFunding_run:
  assumes c: "fundable c" and u: "pays_hash h v u" "\<not> list_ex (\<lambda>i. spends i u) (commitment_inputs c)"
    and total: "in_total (commitment_inputs c) + v \<le> 2 ^ 53" "length (commitment_inputs c) + 1 < 2 ^ 31"
    and enough: "0 < commitment_value (commitment_inputs c @ [funding_input h v u])"
  shows "processFunding C u c = (Inr (), set_commitment (funded_commitment (outscript (commitmentTx c))
     (com_tx (commitmentTx c)) (map cleared (commitment_inputs c) @ [funding_input h v u])) c)"
proof -
  have c': "change_only (com_tx (commitmentTx c))" "changeScript (com_tx (commitmentTx c)) = Some (outscript (commitmentTx c))"
    "list_all fits_chunk (outscript (commitmentTx c))" using c by (auto simp: fundable_def)
  note run = processFunding_tx(1)[OF c' u total enough, of C] processFunding_tx(2)[OF c' u total enough]
  let ?t = "funded_commitment (outscript (commitmentTx c)) (com_tx (commitmentTx c)) (map cleared (commitment_inputs c) @ [funding_input h v u])"
  let ?m = "bind getInputAmount (\<lambda>a. bind getFee (\<lambda>f. bind (lift (new_Output (outscript (commitmentTx c)) (a - f))) addOutput))"
  have 1: "on_commitment (tx_from C u None) c = (Inr (), set_commitment ?t c)" by (rule on_commitment_run) (rule run(1))
  have 2: "on_commitment (modify (\<lambda>tx. tx\<lparr> outputs := [] \<rparr>)) (set_commitment ?t c) = (Inr (), set_commitment (?t\<lparr> outputs := [] \<rparr>) c)"
    by (subst on_commitment_run) (simp_all add: modify_def)
  have 3: "on_commitment ?m (set_commitment (?t\<lparr> outputs := [] \<rparr>) c) = (Inr (), set_commitment ?t c)"
    using on_commitment_run[of ?m "set_commitment (?t\<lparr> outputs := [] \<rparr>) c" "Inr ()" ?t] run(2) by simp
  show ?thesis by (simp add: processFunding_def block_Cons 1 2 here_def 3)
qed

lemma fundable_funded:
  assumes "fundable c" "pays_hash h v u"
    "in_total (commitment_inputs c) + v \<le> 2 ^ 53" "length (commitment_inputs c) + 1 < 2 ^ 31"
  shows "fundable (set_commitment (funded_commitment (outscript (commitmentTx c)) (com_tx (commitmentTx c))
     (map cleared (commitment_inputs c) @ [funding_input h v u])) c)"
  using assms funding_input_simps[OF assms(2)]
  by (auto simp: fundable_def change_only_def funded_commitment_def in_total_append list_all_iff)

text \<open>Several outputs funded in a row; each is large enough to pay for its own input.\<close>

definition spendable :: "bytes \<Rightarrow> utxo list \<Rightarrow> tx_input list \<Rightarrow> bool" where
  "spendable h us is \<longleftrightarrow> list_all (\<lambda>u. \<exists>v \<ge> 1195. pays_hash h v u) us
     \<and> distinct (map (\<lambda>u. (txId u, utxo_outputIndex u)) us)
     \<and> (\<forall>u \<in> set us. \<not> list_ex (\<lambda>i. spends i u) is)"

definition utxo_int :: "utxo \<Rightarrow> int" where
  "utxo_int u = (case utxo_satoshis u of Fin a \<Rightarrow> trunc a | _ \<Rightarrow> 0)"

lemma pays_hash_int: "pays_hash h v u \<Longrightarrow> utxo_int u = v"
  by (simp add: pays_hash_def utxo_int_def)

lemma commitment_value_pos:
  assumes "1195 * int (length is) \<le> in_total is" "is \<noteq> []" shows "0 < commitment_value is"
proof -
  have "1 \<le> int (length is)" using assms(2) by (cases "is") simp_all
  then show ?thesis using kb_fee_bounds(2)[of "pkh_size (length is) + 62"] assms(1)
    by (simp add: commitment_value_def pkh_size_def)
qed

definition all_inputs :: "bytes \<Rightarrow> utxo list \<Rightarrow> tx_input list" where
  "all_inputs h us = map (\<lambda>u. funding_input h (utxo_int u) u) us"

lemma spends_simps [simp]: "spends (cleared i) u = spends i u"
  "spends (funding_input h v w) u \<longleftrightarrow> txId w = txId u \<and> utxo_outputIndex w = utxo_outputIndex u"
  by (simp_all add: spends_def funding_input_def new_Input_def)

lemma processFunding_all:
  assumes "fundable c" "spendable h us (commitment_inputs c)" "us \<noteq> []"
    "in_total (commitment_inputs c) + sum_list (map utxo_int us) \<le> 2 ^ 53" "length (commitment_inputs c) + length us < 2 ^ 31"
    "1195 * int (length (commitment_inputs c)) \<le> in_total (commitment_inputs c)"
  shows "block (map (processFunding C) us) c = (Inr (), set_commitment (funded_commitment (outscript (commitmentTx c))
     (com_tx (commitmentTx c)) (map cleared (commitment_inputs c) @ all_inputs h us)) c)"
  using assms
proof (induction us arbitrary: c)
  case (Cons u us)
  obtain v where v: "pays_hash h v u" "1195 \<le> v" using Cons.prems(2) by (auto simp: spendable_def)
  have us: "0 \<le> sum_list (map utxo_int us)"
    using Cons.prems(2) by (intro sum_list_nonneg) (auto simp: spendable_def list_all_iff dest!: pays_hash_int)
  let ?is = "map cleared (commitment_inputs c) @ [funding_input h v u]"
  let ?c = "set_commitment (funded_commitment (outscript (commitmentTx c)) (com_tx (commitmentTx c)) ?is) c"
  have nospend: "\<not> list_ex (\<lambda>i. spends i u) (commitment_inputs c)" using Cons.prems(2) by (simp add: spendable_def)
  have total: "in_total (commitment_inputs c) + v \<le> 2 ^ 53" "length (commitment_inputs c) + 1 < 2 ^ 31"
    using Cons.prems(4,5) us pays_hash_int[OF v(1)] by simp_all
  have t: "in_total ?is = in_total (commitment_inputs c) + v" using funding_input_simps[OF v(1)] by (simp add: in_total_append)
  have "0 < commitment_value (commitment_inputs c @ [funding_input h v u])"
    using Cons.prems(6) v(2) funding_input_simps[OF v(1)] by (intro commitment_value_pos) (simp_all add: in_total_append)
  from processFunding_run[OF Cons.prems(1) v(1) nospend total this, of C]
  have step: "processFunding C u c = (Inr (), ?c)" .
  show ?case
  proof (cases "us = []")
    case True
    with step show ?thesis using pays_hash_int[OF v(1)] by (simp add: block_Cons all_inputs_def)
  next
    case False
    have ci: "commitment_inputs ?c = ?is" by (simp add: funded_commitment_def)
    have "spendable h us ?is" using Cons.prems(2) by (auto simp: spendable_def list_ex_iff)
    then have "block (map (processFunding C) us) ?c = (Inr (), set_commitment (funded_commitment (outscript (commitmentTx ?c))
       (com_tx (commitmentTx ?c)) (map cleared ?is @ all_inputs h us)) ?c)"
      using Cons.IH[of ?c] fundable_funded[OF Cons.prems(1) v(1) total] False Cons.prems(4,5,6) t v(2) pays_hash_int[OF v(1)] ci
      by (simp add: in_total_append)
    then show ?thesis using step funding_input_simps[OF v(1)] pays_hash_int[OF v(1)]
      by (simp add: block_Cons all_inputs_def funded_commitment_def o_def)
  qed
qed simp

section \<open>The refund transaction\<close>

text \<open>The amount the consumer computes for the channel once the commitment has its output.\<close>

definition refund_value :: "tx_input list \<Rightarrow> int" where
  "refund_value is = in_total is - kb_fee (pkh_size (length is) + 94)"

lemma foldl_single: "\<bar>v\<bar> \<le> 2 ^ 53 \<Longrightarrow> foldl (+) 0 [IntN v] = IntN v"
  using Int_plus[of 0 v] by (simp add: zero_jsnum_def)

lemma Output_estimateSize_p2sh: "length h = 20 \<Longrightarrow> Output_estimateSize (change_output (p2sh h) v) = Inr 32"
  by (simp add: Output_estimateSize_def output_script_def script_getter_def change_output_def toBuffer_p2sh)

definition counted_with :: "int \<Rightarrow> transaction \<Rightarrow> transaction" where
  "counted_with v tx = tx\<lparr> inputAmount_cache := Some (IntN (in_total (inputs tx))), outputAmount_cache := Some (IntN v) \<rparr>"

lemma small_div: "26 \<le> n \<Longrightarrow> (n + 32 + 999) div 1000 < kb_fee (n + 62)"
proof -
  assume n: "26 \<le> n"
  have "(n + 32 + 999) div 1000 * 1000 + (n + 32 + 999) mod 1000 = n + 32 + 999" by (rule div_mult_mod_eq)
  moreover have "0 \<le> (n + 32 + 999) mod 1000" by simp
  ultimately show ?thesis using kb_fee_bounds(3)[of "n + 62"] n by linarith
qed

lemma channel_amount_tx:
  assumes inp: "list_all pkh (inputs tx)" "list_all funded (inputs tx)" "in_total (inputs tx) \<le> 2 ^ 53" "length (inputs tx) < 2 ^ 31"
    "inputAmount_cache tx \<in> {None, Some (IntN (in_total (inputs tx)))}"
    and out: "outputs tx = [change_output (p2sh h) (commitment_value (inputs tx))]" "length h = 20"
      "outputAmount_cache tx \<in> {None, Some (IntN (commitment_value (inputs tx)))}"
    and opt: "changeScript tx = Some s" "fee_option tx = None" and pos: "0 < commitment_value (inputs tx)" "0 \<le> refund_value (inputs tx)"
  shows "bind getInputAmount (\<lambda>a. bind getFee (\<lambda>f. return (a - f))) tx
    = (Inr (IntN (refund_value (inputs tx))), counted_with (commitment_value (inputs tx)) tx)"
proof -
  let ?A = "in_total (inputs tx)" and ?n = "pkh_size (length (inputs tx))" and ?V = "commitment_value (inputs tx)"
  let ?t = "counted_with ?V tx" and ?t1 = "tx\<lparr> inputAmount_cache := Some (IntN ?A) \<rparr>"
  have n: "26 \<le> ?n" "?n < 2 ^ 38" using inp(4) by (simp_all add: pkh_size_def)
  have A: "0 \<le> ?A" by (rule in_total_nonneg[OF inp(2)])
  have F: "0 \<le> kb_fee (?n + 62)" "0 \<le> kb_fee (?n + 94)" using n by (auto intro!: kb_fee_bounds)
  have i: "getInputAmount tx = (Inr (IntN ?A), ?t1)" by (rule getInputAmount_run[OF inp(2,3,5)])
  have i1: "getInputAmount ?t1 = (Inr (IntN ?A), ?t1)" using getInputAmount_run[of ?t1] inp(2,3) by simp
  have "foldl (+) 0 (map satoshis (outputs tx)) = IntN ?V"
    using foldl_single[of ?V] pos F(1) inp(3) by (simp only: out(1) change_output_def list.map tx_output.select_convs)
       (simp add: commitment_value_def)
  then have o1: "getOutputAmount ?t1 = (Inr (IntN ?V), ?t)"
    using out(3) by (auto simp: getOutputAmount_def here_def bind_def modify_def return_def Let_def counted_with_def)
  have "IntN ?A - IntN ?V = IntN (kb_fee (?n + 62))"
    using Int_minus[of ?A ?V] F(1) A inp(3) pos(1) by (simp add: commitment_value_def)
  then have u: "getUnspentValue ?t1 = (Inr (IntN (kb_fee (?n + 62))), ?t)"
    by (simp only: getUnspentValue_def bind_def i1 prod.case sum.case o1 return_def)
  have sz: "estimateSize tx = Inr (?n + 32)"
    using sum_sizes_pkh[OF inp(1), of 26 "[Inr 32]"] out(1) Output_estimateSize_p2sh[OF out(2)]
    by (simp add: estimateSize_def pkh_size_def)
  have "estimateFee_of (?n + 32) (IntN (kb_fee (?n + 62))) = IntN (kb_fee (?n + 32 + 62))"
    using n small_div[OF n(1)] by (intro estimateFee_of_exact) simp_all
  moreover have "estimateSize ?t1 = estimateSize tx" by (simp add: estimateSize_def)
  ultimately have f: "getFee ?t1 = (Inr (IntN (kb_fee (?n + 94))), ?t)"
    using opt sz u by (simp add: getFee_def here_def estimateFee_def bind_def lift_def return_def algebra_simps)
  have "IntN ?A - IntN (kb_fee (?n + 94)) = IntN (refund_value (inputs tx))"
    using Int_minus[of ?A "kb_fee (?n + 94)"] pos(2) F inp(3) by (simp add: refund_value_def)
  then show ?thesis by (simp only: bind_def i prod.case sum.case f return_def)
qed

definition multisig_input :: "bytes list \<Rightarrow> tx_output \<Rightarrow> bytes \<Rightarrow> tx_input" where
  "multisig_input keys out txid = new_Input (Some out) txid 0 (MultiSigScriptHashInput
     \<lparr> publicKeys = keys, redeemScript = redeem_of keys, threshold = 2, signatures = [None, None] \<rparr>)"

lemma equal_chunks_refl: "equal_chunks s s"
  by (induction s) (simp_all split: option.splits)

lemma Script_equals_refl [simp]: "Script_equals s s"
  by (simp add: Script_equals_def equal_chunks_refl)

definition channel_utxo :: "crypto \<Rightarrow> bytes list \<Rightarrow> bytes \<Rightarrow> int \<Rightarrow> utxo" where
  "channel_utxo C keys txid v = \<lparr> txId = txid, utxo_outputIndex = 0, utxo_script = p2sh (channel_hash C keys), utxo_satoshis = IntN v \<rparr>"

lemma tx_from_channel:
  assumes "good_hash C" "length keys = 2" "list_all key_ok keys" "length txid = 32" "inputs tx = []" "changeScript tx = None"
  shows "tx_from C (channel_utxo C keys txid v) (Some (keys, 2)) tx
    = (Inr (), tx\<lparr> inputs := [multisig_input keys (change_output (p2sh (channel_hash C keys)) v) txid], inputAmount_cache := None \<rparr>)"
proof -
  let ?h = "channel_hash C keys" and ?u = "channel_utxo C keys txid v"
  have h: "length ?h = 20" using assms(1) by (rule channel_hash_length)
  have u: "UnspentOutput ?u = Inr ?u"
    using assms(4) p2sh_wire_length[OF h] wf_p2sh[OF h] by (intro UnspentOutput_id) (auto simp: channel_utxo_def)
  have out: "new_Output (p2sh ?h) (IntN v) = Inr (change_output (p2sh ?h) v)"
    by (rule new_Output_change[OF wf_fits[OF wf_p2sh[OF h]]])
  have "new_MultiSigScriptHashInput C (change_output (p2sh ?h) v) txid 0 keys 2
      = Inr (multisig_input keys (change_output (p2sh ?h) v) txid)"
    using two_of_two[OF assms(2,3)] channel_script[OF assms(1,2,3)] assms(2)
    by (simp add: new_MultiSigScriptHashInput_def output_script_def script_getter_def change_output_def multisig_input_def
        numeral_2_eq_2)
  then show ?thesis
    using u out assms(2,5,6)
    by (simp add: tx_from_def here_def fromMultisigUtxo_def bind_def lift_def checkArgument_def channel_utxo_def addInput_def
        uncheckedAddInput_def block_Cons modify_def updateChangeOutput_def return_def) (simp add: multisig_input_def new_Input_def)
qed

definition refund_tx_of :: "bytes list \<Rightarrow> bytes \<Rightarrow> bytes \<Rightarrow> bytes \<Rightarrow> int \<Rightarrow> int \<Rightarrow> transaction" where
  "refund_tx_of keys h txid hr v t = new_Transaction\<lparr>
     inputs := [(multisig_input keys (change_output (p2sh h) v) txid)\<lparr> sequenceNumber := 0 \<rparr>],
     outputs := [change_output (p2pkh hr) v], nLockTime := t, inputAmount_cache := Some (IntN v) \<rparr>"

lemma sum_single_input: "\<bar>v\<bar> \<le> 2 ^ 53 \<Longrightarrow> sum_inputs 0 [multisig_input keys (change_output s v) txid] = (Inr (), IntN v)"
  using Int_plus[of 0 v] by (simp add: multisig_input_def new_Input_def change_output_def zero_jsnum_def)

lemma tx_to_plain:
  assumes "length (hashBuffer a) = 20" "addr_type a = PayToPublicKeyHash" "changeScript tx = None"
  shows "tx_to a (IntN v) tx = (Inr (), addOutput_raw (change_output (p2pkh (hashBuffer a)) v) tx)"
  using fromAddress_p2pkh[OF assms(1,2)] new_Output_change[OF wf_fits[OF wf_p2pkh[OF assms(1)]], of v] assms(3)
  by (simp add: tx_to_def bind_def lift_def addOutput_def block_Cons modify_def updateChangeOutput_def here_def return_def addOutput_raw_def)

definition set_refund :: "transaction \<Rightarrow> consumer \<Rightarrow> consumer" where
  "set_refund t c = c\<lparr> refundTx := Some t \<rparr>"

lemma on_refund_run: "refundTx c = Some t \<Longrightarrow> m t = (r, t') \<Longrightarrow> on_refund m c = (r, set_refund t' c)"
  by (simp add: on_refund_def here_def zoom_def set_refund_def)

lemma set_refund_simps [simp]:
  "refundTx (set_refund t c) = Some t" "set_refund t (set_refund t' c) = set_refund t c" "refundAddress (set_refund t c) = refundAddress c"
  by (simp_all add: set_refund_def)

lemma refund_steps:
  assumes a: "length (hashBuffer (refundAddress c)) = 20" "addr_type (refundAddress c) = PayToPublicKeyHash" and v: "\<bar>v\<bar> \<le> 2 ^ 53"
    and t: "refundTx c = Some (new_Transaction\<lparr> inputs := [multisig_input keys (change_output (p2sh h) v) txid], inputAmount_cache := None \<rparr>)"
  shows "block [
     here (\<lambda>c. on_refund (bind getInputAmount (\<lambda>a. tx_to (refundAddress c) a))),
     on_refund (at_input 0 (modify (\<lambda>i. i\<lparr> sequenceNumber := 0 \<rparr>))),
     on_refund (modify (\<lambda>tx. tx\<lparr> nLockTime := lt \<rparr>))] c
    = (Inr (), set_refund (refund_tx_of keys h txid (hashBuffer (refundAddress c)) v lt) c)"
proof -
  let ?t = "new_Transaction\<lparr> inputs := [multisig_input keys (change_output (p2sh h) v) txid], inputAmount_cache := None \<rparr>"
  let ?t1 = "?t\<lparr> inputAmount_cache := Some (IntN v) \<rparr>"
  let ?t2 = "addOutput_raw (change_output (p2pkh (hashBuffer (refundAddress c))) v) ?t1"
  have "getInputAmount ?t = (Inr (IntN v), ?t1)"
    using sum_single_input[OF v, of keys "p2sh h" txid]
    by (simp add: getInputAmount_def here_def bind_def modify_def lift_def return_def new_Transaction_def)
  then have "bind getInputAmount (\<lambda>x. tx_to (refundAddress c) x) ?t = (Inr (), ?t2)"
    using tx_to_plain[OF a, of ?t1 v] by (simp add: bind_def new_Transaction_def)
  then have 1: "on_refund (bind getInputAmount (\<lambda>x. tx_to (refundAddress c) x)) c = (Inr (), set_refund ?t2 c)"
    using t by (intro on_refund_run)
  show ?thesis
    by (simp only: block_Cons here_def 1 prod.case sum.case)
       (simp add: on_refund_def here_def zoom_def at_input_def modify_def addOutput_raw_def refund_tx_of_def set_refund_def
          new_Transaction_def)
qed

lemma by_outputs:
  "in_total is = sum_list (map (\<lambda>out. int_sats (the out)) (map in_output is))"
  "list_all funded is = list_all (\<lambda>out. case out of None \<Rightarrow> False
     | Some out \<Rightarrow> satoshis out = IntN (int_sats out) \<and> 0 \<le> int_sats out) (map in_output is)"
  "list_all pkh is = list_all (\<lambda>k. k = PublicKeyHashInput) (map in_class is)"
  by (simp_all add: in_total_def funded_def pkh_def o_def list_all_iff)

lemma signed_all_totals:
  "in_total (inputs (signed_all C k tx)) = in_total (inputs tx)"
  "list_all funded (inputs (signed_all C k tx)) = list_all funded (inputs tx)"
  "list_all pkh (inputs (signed_all C k tx)) = list_all pkh (inputs tx)"
  by (simp_all only: by_outputs signed_all_simps)

text \<open>A consumer whose commitment is funded by outputs of its own funding key.\<close>

definition refundable :: "crypto \<Rightarrow> consumer \<Rightarrow> bool" where
  "refundable C c \<longleftrightarrow> (let com = commitmentTx c; tx = com_tx com; keys = com_publicKeys com in
     good_hash C \<and> good_key C (fundingKey c) \<and> length keys = 2 \<and> list_all key_ok keys
     \<and> signable C (fundingKey c) tx \<and> list_all funded (inputs tx) \<and> in_total (inputs tx) \<le> 2 ^ 53
     \<and> inputAmount_cache tx \<in> {None, Some (IntN (in_total (inputs tx)))}
     \<and> outputs tx = [change_output (p2sh (channel_hash C keys)) (commitment_value (inputs tx))]
     \<and> outputAmount_cache tx = None \<and> changeScript tx \<noteq> None \<and> fee_option tx = None
     \<and> 0 < commitment_value (inputs tx) \<and> 0 \<le> refund_value (inputs tx)
     \<and> length (hashBuffer (refundAddress c)) = 20 \<and> addr_type (refundAddress c) = PayToPublicKeyHash)"

definition signed_commitment :: "crypto \<Rightarrow> consumer \<Rightarrow> transaction" where
  "signed_commitment C c = counted_with (commitment_value (commitment_inputs c)) (signed_all C (fundingKey c) (com_tx (commitmentTx c)))"

definition commitment_id :: "crypto \<Rightarrow> consumer \<Rightarrow> bytes" where
  "commitment_id C c = rev (sha256sha256 C (tx_wire (signed_commitment C c)))"

lemma tx_wire_counted [simp]: "tx_wire (counted_with v tx) = tx_wire tx" "tx_ok (counted_with v tx) = tx_ok tx"
  "isFullySigned C (counted_with v tx) = isFullySigned C tx"
  by (simp_all add: counted_with_def tx_wire_def tx_ok_def isFullySigned_def)

lemma values_cong: "in_total is = in_total js \<Longrightarrow> length is = length js \<Longrightarrow>
   commitment_value is = commitment_value js \<and> refund_value is = refund_value js"
  by (simp add: commitment_value_def refund_value_def)

lemma channel_amount_signed:
  assumes "refundable C c" "tx = signed_all C (fundingKey c) (com_tx (commitmentTx c)) \<or> tx = signed_commitment C c"
  shows "bind getInputAmount (\<lambda>a. bind getFee (\<lambda>f. return (a - f))) tx
    = (Inr (IntN (refund_value (commitment_inputs c))), signed_commitment C c)"
proof -
  let ?tx = "com_tx (commitmentTx c)" and ?k = "fundingKey c"
  let ?s = "signed_all C ?k ?tx"
  have r: "signable C ?k ?tx" "list_all funded (inputs ?tx)" "in_total (inputs ?tx) \<le> 2 ^ 53" "good_hash C"
    "inputAmount_cache ?tx \<in> {None, Some (IntN (in_total (inputs ?tx)))}" "outputAmount_cache ?tx = None" "fee_option ?tx = None"
    "outputs ?tx = [change_output (p2sh (channel_hash C (com_publicKeys (commitmentTx c)))) (commitment_value (inputs ?tx))]"
    "0 < commitment_value (inputs ?tx)" "0 \<le> refund_value (inputs ?tx)"
    using assms(1) by (auto simp: refundable_def Let_def)
  obtain cs where cs: "changeScript ?tx = Some cs" using assms(1) by (auto simp: refundable_def Let_def)
  have pkhs: "list_all pkh (inputs ?tx)" and len: "length (inputs ?tx) < 2 ^ 31"
    using r(1) by (auto simp: signable_def list_all_iff pays_key_def tx_ok_def)
  note v = values_cong[OF signed_all_totals(1)[of C ?k ?tx] signed_all_simps(1)]
  have tx: "tx = ?s \<or> tx = counted_with (commitment_value (inputs ?s)) ?s" using assms(2) v by (simp add: signed_commitment_def)
  have sel: "inputs tx = inputs ?s" "outputs tx = outputs ?tx" "outputAmount_cache tx \<in> {None, Some (IntN (commitment_value (inputs ?s)))}"
    "inputAmount_cache tx \<in> {inputAmount_cache ?tx, Some (IntN (in_total (inputs ?s)))}" "changeScript tx = Some cs" "fee_option tx = None"
    using tx r(6,7) cs by (auto simp: counted_with_def signed_all_def)
  have "bind getInputAmount (\<lambda>a. bind getFee (\<lambda>f. return (a - f))) tx
      = (Inr (IntN (refund_value (inputs tx))), counted_with (commitment_value (inputs tx)) tx)"
    using r pkhs len sel v
    by (intro channel_amount_tx[where s = cs and h = "channel_hash C (com_publicKeys (commitmentTx c))"])
       (auto simp: signed_all_totals channel_hash_length)
  moreover have "counted_with (commitment_value (inputs tx)) tx = signed_commitment C c"
    using tx v by (auto simp: signed_commitment_def counted_with_def)
  ultimately show ?thesis using v sel(1) by simp
qed

lemma channel_amount_refundable:
  assumes "refundable C c" "com_tx (commitmentTx c') = signed_all C (fundingKey c) (com_tx (commitmentTx c)) \<or> com_tx (commitmentTx c') = signed_commitment C c"
  shows "channel_amount c' = (Inr (IntN (refund_value (commitment_inputs c))), set_commitment (signed_commitment C c) c')"
  unfolding channel_amount_def by (rule on_commitment_run) (rule channel_amount_signed[OF assms])

lemma channel_out_signed:
  assumes r: "refundable C c" and c': "com_tx (commitmentTx c') = signed_commitment C c"
  shows "channel_out C (IntN v) c' = Inr (channel_utxo C (com_publicKeys (commitmentTx c)) (commitment_id C c) v)"
proof -
  have "tx_ok (signed_commitment C c)"
    using r signable_signed_all[of C "fundingKey c" "com_tx (commitmentTx c)"]
    by (auto simp: signed_commitment_def signable_def refundable_def Let_def)
  moreover have "outputs (signed_commitment C c)
      = [change_output (p2sh (channel_hash C (com_publicKeys (commitmentTx c)))) (commitment_value (commitment_inputs c))]"
    using r by (simp add: refundable_def Let_def signed_commitment_def counted_with_def)
  ultimately show ?thesis using c'
    by (simp add: channel_out_def Transaction_hash_def toBuffer_wire commitment_id_def channel_utxo_def output_script_def
        script_getter_def change_output_def Let_def)
qed

lemma refund_value_bound:
  assumes "refundable C c" shows "\<bar>refund_value (commitment_inputs c)\<bar> \<le> 2 ^ 53"
  using assms kb_fee_bounds(1)[of "pkh_size (length (commitment_inputs c)) + 94"]
  by (simp add: refund_value_def pkh_size_def refundable_def Let_def)

lemma setupRefund_run:
  assumes r: "refundable C c"
  shows "setupRefund C now c = (Inr (), set_refund (refund_tx_of (com_publicKeys (commitmentTx c))
     (channel_hash C (com_publicKeys (commitmentTx c))) (commitment_id C c) (hashBuffer (refundAddress c))
     (refund_value (commitment_inputs c)) (seconds now + ONE_DAY)) (set_commitment (signed_commitment C c) c))"
proof -
  let ?tx = "com_tx (commitmentTx c)" and ?k = "fundingKey c" and ?keys = "com_publicKeys (commitmentTx c)"
  let ?s = "signed_all C ?k ?tx" and ?c1 = "set_commitment (signed_all C ?k ?tx) c" and ?c2 = "set_commitment (signed_commitment C c) c"
  let ?h = "channel_hash C ?keys" and ?v = "refund_value (commitment_inputs c)" and ?id = "commitment_id C c"
  let ?t = "new_Transaction\<lparr> inputs := [multisig_input ?keys (change_output (p2sh ?h) ?v) ?id], inputAmount_cache := None \<rparr>"
  have g: "good_hash C" "good_key C ?k" "signable C ?k ?tx" "length ?keys = 2" "list_all key_ok ?keys" "in_total (inputs ?tx) \<le> 2 ^ 53"
    "length (hashBuffer (refundAddress c)) = 20" "addr_type (refundAddress c) = PayToPublicKeyHash" "0 \<le> ?v"
    using r by (auto simp: refundable_def Let_def)
  have 1: "here (\<lambda>c. on_commitment (Transaction_sign C (fundingKey c) 0)) c = (Inr (), ?c1)"
    unfolding here_def by (rule on_commitment_run) (rule sign_run[OF g(2,3)])
  have 2: "bind (here (\<lambda>c. lift (isFullySigned C (com_tx (commitmentTx c))))) (\<lambda>ok. checkState ok []) ?c1 = (Inr (), ?c1)"
    using isFullySigned_signed_all[OF g(2,3)] by (simp add: bind_def here_def lift_def checkState_def)
  have out: "channel_out C (IntN ?v) ?c2 = Inr (channel_utxo C ?keys ?id ?v)" using channel_out_signed[OF r, of ?c2] by simp
  have id: "length ?id = 32" using g(1) by (simp add: commitment_id_def good_hash_def)
  have from': "tx_from C (channel_utxo C ?keys ?id ?v) (Some (?keys, 2)) new_Transaction = (Inr (), ?t)"
    using tx_from_channel[OF g(1,4,5) id, of new_Transaction ?v] by (simp add: new_Transaction_def)
  note v = refund_value_bound[OF r]
  have amount: "channel_amount ?c1 = (Inr (IntN ?v), ?c2)" using channel_amount_refundable[OF r, of ?c1] by simp
  have 3: "bind channel_amount (\<lambda>a. here (\<lambda>c. bind (lift (channel_out C a c)) (\<lambda>u.
       case tx_from C u (Some (com_publicKeys (commitmentTx c), 2)) new_Transaction of
         (Inl e, _) \<Rightarrow> throw e
       | (Inr _, tx) \<Rightarrow> modify (\<lambda>c. c\<lparr> refundTx := Some tx \<rparr>)))) ?c1 = (Inr (), set_refund ?t ?c2)"
    by (simp only: bind_def amount prod.case sum.case here_def out lift_def set_commitment_simps from')
       (simp add: modify_def set_refund_def)
  from refund_steps[of "set_refund ?t ?c2" ?v ?keys ?h ?id "seconds now + ONE_DAY"] g(7,8) v
  show ?thesis unfolding setupRefund_def
    by (simp only: block_Cons 1 2 3 prod.case sum.case set_refund_simps set_commitment_simps)
qed

lemma seconds_round:
  assumes "0 \<le> now" "now < 2147483648000" shows "seconds now = (now + 500) div 1000"
  by (simp only: seconds_def js_round_div[OF assms] jsnum.case trunc_of_int)

section \<open>Payments\<close>

definition plain_output :: "script \<Rightarrow> jsnum \<Rightarrow> tx_output" where
  "plain_output s n = \<lparr> satoshis = n, satoshisBN = bn_fromNumber n, out_scriptBuffer = concat (map chunk_wire s), out_script = Some s \<rparr>"

lemma new_Output_plain: "list_all fits_chunk s \<Longrightarrow> new_Output s n = Inr (plain_output s n)"
  by (simp add: new_Output_def fits_toBuffer plain_output_def)

definition change_of :: "payment \<Rightarrow> tx_output list" where
  "change_of p = (let refund = amount p - paid p in
     if jseq refund 0 then [] else [plain_output (p2pkh (hashBuffer (changeAddress p))) refund])"

text \<open>A payment pays nothing but the change to the consumer; before the first increment it pays nothing.\<close>

definition pays_change :: "payment \<Rightarrow> bool" where
  "pays_change p \<longleftrightarrow> outputs (pay_tx p) = (if sequence p = 0 then [] else change_of p)
     \<and> 0 \<le> sequence p \<and> inputs (pay_tx p) \<noteq> []
     \<and> length (hashBuffer (changeAddress p)) = 20 \<and> addr_type (changeAddress p) = PayToPublicKeyHash"

lemma updateValue_run:
  fixes d :: jsnum
  assumes "pays_change p"
  defines "q \<equiv> p\<lparr> paid := paid p + d, sequence := sequence p + 1 \<rparr>"
  shows "\<exists>cache. updateValue d p = (Inr (), q\<lparr> pay_tx := (pay_tx p)\<lparr> outputs := change_of q, outputAmount_cache := cache \<rparr> \<rparr>)"
proof -
  have p: "length (hashBuffer (changeAddress p)) = 20" "addr_type (changeAddress p) = PayToPublicKeyHash" "inputs (pay_tx p) \<noteq> []"
    using assms(1) by (auto simp: pays_change_def)
  note s = fromAddress_p2pkh[OF p(1,2)] new_Output_plain[OF wf_fits[OF wf_p2pkh[OF p(1)]]]
  show ?thesis
  proof (cases "jseq (amount p - (paid p + d)) 0")
    case True
    then show ?thesis using p(3)
      by (intro exI[of _ "outputAmount_cache (pay_tx p)"])
         (simp add: updateValue_def updateTransaction_def block_Cons modify_def here_def on_pay_def zoom_def return_def
            change_of_def q_def Let_def)
  next
    case False
    then show ?thesis using p(3) s
      by (intro exI[of _ None])
         (simp add: updateValue_def updateTransaction_def block_Cons modify_def here_def on_pay_def zoom_def return_def
            bind_def lift_def addOutput_raw_def change_of_def q_def Let_def)
  qed
qed

lemma updateValue_pays_change:
  assumes "pays_change p" shows "pays_change (snd (updateValue d p))" "fst (updateValue d p) = Inr ()"
  using updateValue_run[OF assms, of d] assms by (auto simp: pays_change_def change_of_def Let_def)

text \<open>Signing touches the inputs only.\<close>

definition same_but_inputs :: "transaction \<Rightarrow> transaction \<Rightarrow> bool" where
  "same_but_inputs tx tx' \<longleftrightarrow> tx'\<lparr> inputs := inputs tx \<rparr> = tx \<and> length (inputs tx') = length (inputs tx)"

lemma keeps_at_input: "keeps (same_but_inputs tx) (at_input n m)"
  by (auto simp: keeps_def at_input_def same_but_inputs_def split: prod.splits)

lemma keeps_applySignature: "keeps (same_but_inputs tx) (applySignature C g)"
  unfolding applySignature_def by (intro keeps_here keepsD[OF keeps_at_input])

lemma keeps_block: "(\<And>m. m \<in> set ms \<Longrightarrow> keeps P m) \<Longrightarrow> keeps P (block ms)"
  by (induction ms) (auto intro!: keeps_intros)

lemma keeps_sign: "keeps (same_but_inputs tx) (Transaction_sign C k ty)"
  unfolding Transaction_sign_def
  by (rule keeps_here, rule keepsD, intro keeps_intros keeps_block) (auto intro: keeps_applySignature)

lemma sign_outputs:
  "outputs (snd (Transaction_sign C k ty tx)) = outputs tx"
  "length (inputs (snd (Transaction_sign C k ty tx))) = length (inputs tx)"
proof -
  have "same_but_inputs tx (snd (Transaction_sign C k ty tx))"
    by (rule keepsD[OF keeps_sign]) (simp add: same_but_inputs_def)
  then show "outputs (snd (Transaction_sign C k ty tx)) = outputs tx"
    "length (inputs (snd (Transaction_sign C k ty tx))) = length (inputs tx)"
    by (auto simp: same_but_inputs_def dest: arg_cong[of _ _ outputs])
qed

lemma incrementPaymentBy_run:
  fixes d :: jsnum
  assumes "paymentTx c = Some p" "pays_change p"
  defines "q \<equiv> snd (updateValue d p)"
  shows "incrementPaymentBy C d ty c = (fst (Transaction_sign C (commitmentKey c) ty (pay_tx q)),
     c\<lparr> paymentTx := Some (q\<lparr> pay_tx := snd (Transaction_sign C (commitmentKey c) ty (pay_tx q)) \<rparr>) \<rparr>)"
proof -
  have "updateValue d p = (Inr (), q)" using updateValue_pays_change(2)[OF assms(2), of d] by (metis q_def prod.collapse)
  then show ?thesis using assms(1)
    by (simp add: incrementPaymentBy_def here_def block_Cons on_payment_def zoom_def on_pay_def split: prod.split sum.split)
qed

lemma paid_to_change:
  assumes "pays_change p" "a \<noteq> changeAddress p" "outputs tx = outputs (pay_tx p)"
  shows "paid_to C a None (outputs tx) = Inr None"
proof -
  have "\<lparr> hashBuffer = hashBuffer (changeAddress p), addr_type = PayToPublicKeyHash \<rparr> = changeAddress p"
    using assms(1) by (simp add: pays_change_def)
  then show ?thesis using assms getAddressInfo_p2pkh[of "hashBuffer (changeAddress p)" C]
    by (auto simp: pays_change_def change_of_def plain_output_def output_script_def script_getter_def Let_def split: if_splits)
qed

section \<open>From the keys to the refund\<close>

lemma new_Consumer_run:
  assumes "good_hash C" "key_ok (privToPub C (opt_commitmentKey opts))" "key_ok (opt_providerPublicKey opts)"
    "opt_fundingKey opts = Some fk" "opt_refundAddress opts = Some ra"
  defines "keys \<equiv> [privToPub C (opt_commitmentKey opts), opt_providerPublicKey opts]"
  shows "\<exists>c. new_Consumer C now f1 f2 opts = Inr c \<and> commitmentKey c = opt_commitmentKey opts \<and> fundingKey c = fk \<and> refundAddress c = ra \<and> com_publicKeys (commitmentTx c) = keys
    \<and> com_tx (commitmentTx c) = empty_commitment (p2sh (channel_hash C keys)) \<and> outscript (commitmentTx c) = p2sh (channel_hash C keys)"
  using new_Commitment_run[OF assms(1), of keys] assms(2-5) by (simp add: new_Consumer_def keys_def Let_def)

lemma empty_fundable:
  assumes "good_hash C" "com_tx (commitmentTx c) = empty_commitment (p2sh (channel_hash C keys))"
    "outscript (commitmentTx c) = p2sh (channel_hash C keys)"
  shows "fundable c"
  using assms wf_fits[OF wf_p2sh[OF channel_hash_length[OF assms(1)]], of keys]
  by (simp add: fundable_def empty_commitment_def new_Transaction_def change_only_def in_total_def zero_jsnum_def)

lemma refund_value_nonneg:
  assumes "1195 * int (length is) \<le> in_total is" "is \<noteq> []" shows "0 \<le> refund_value is"
proof (cases "length is = 1")
  case True
  then show ?thesis using assms by (simp add: refund_value_def pkh_size_def kb_fee_def)
next
  case False
  then have "2 \<le> int (length is)" using assms(2) by (cases "is" rule: remdups_adj.cases) simp_all
  then show ?thesis using kb_fee_bounds(2)[of "pkh_size (length is) + 94"] assms(1) by (simp add: refund_value_def pkh_size_def)
qed

lemma in_total_all:
  assumes "list_all (\<lambda>u. \<exists>v \<ge> 1195. pays_hash h v u) us"
  shows "in_total (all_inputs h us) = sum_list (map utxo_int us) \<and> 1195 * int (length us) \<le> sum_list (map utxo_int us)
    \<and> list_all (pays_key h) (all_inputs h us) \<and> list_all funded (all_inputs h us)"
  using assms
proof (induction us)
  case (Cons u us)
  then obtain v where v: "pays_hash h v u" "1195 \<le> v" by auto
  have "in_total (funding_input h v u # all_inputs h us) = v + in_total (all_inputs h us)"
    using in_total_append[of "[funding_input h v u]" "all_inputs h us"] funding_input_simps[OF v(1)] by simp
  moreover have "pays_key h (funding_input h v u)"
    by (simp add: pays_key_def pkh_def funding_input_def new_Input_def change_output_def)
  ultimately show ?case
    using Cons funding_input_simps[OF v(1)] pays_hash_int[OF v(1)] v(2) by (simp add: all_inputs_def)
qed (simp_all add: all_inputs_def in_total_def)

lemma bn_small: "0 \<le> v \<Longrightarrow> v < 2 ^ 52 \<Longrightarrow> bn_fromNumber (IntN v) = v"
  by (simp add: bn_fromNumber_def)

lemma funded_signable:
  fixes us :: "utxo list"
  assumes "list_all (\<lambda>u. \<exists>v \<ge> 1195. pays_hash (key_hash C k) v u) us" "list_all (\<lambda>u. u32 (utxo_outputIndex u)) us"
    "length us \<le> 1000000" "length hs = 20"
    "0 \<le> commitment_value (all_inputs (key_hash C k) us)" "commitment_value (all_inputs (key_hash C k) us) < 2 ^ 52"
  shows "signable C k (funded_commitment (p2sh hs) (empty_commitment cs) (all_inputs (key_hash C k) us))"
proof -
  let ?v = "commitment_value (all_inputs (key_hash C k) us)"
  have nil: "Script_fromBuffer [] = Inr []" using wf_fromBuffer[of "[]"] by simp
  have "list_all input_ok (all_inputs (key_hash C k) us)" "list_all small_script (all_inputs (key_hash C k) us)"
    using assms(1,2) nil by (auto simp: all_inputs_def list_all_iff input_ok_def funding_input_def new_Input_def pays_hash_def small_script_def)
  moreover have "output_ok (change_output (p2sh hs) ?v)" "length (output_wire (change_output (p2sh hs) ?v)) = 32"
    using assms(4-6) p2sh_wire_length[OF assms(4)] bn_small[OF assms(5,6)]
    by (simp_all add: output_ok_def change_output_def output_wire_def varbuf_wire_def varint_wire_def)
  ultimately show ?thesis
    using in_total_all[OF assms(1)] assms(3)
    by (simp add: signable_def funded_commitment_def tx_ok_def empty_commitment_def new_Transaction_def all_inputs_def)
qed

text \<open>Outputs that can fund a channel of the key \<open>k\<close>.\<close>

definition funding_ok :: "crypto \<Rightarrow> bytes \<Rightarrow> utxo list \<Rightarrow> bool" where
  "funding_ok C k us \<longleftrightarrow> us \<noteq> [] \<and> spendable (key_hash C k) us [] \<and> list_all (\<lambda>u. u32 (utxo_outputIndex u)) us
     \<and> sum_list (map utxo_int us) < 2 ^ 52 \<and> length us \<le> 1000000"

definition consumer_ok :: "crypto \<Rightarrow> bytes \<Rightarrow> consumer_opts \<Rightarrow> bool" where
  "consumer_ok C fk opts \<longleftrightarrow> good_hash C \<and> good_key C fk \<and> opt_fundingKey opts = Some fk
     \<and> key_ok (privToPub C (opt_commitmentKey opts)) \<and> key_ok (opt_providerPublicKey opts)
     \<and> (\<exists>ra. opt_refundAddress opts = Some ra \<and> length (hashBuffer ra) = 20 \<and> addr_type ra = PayToPublicKeyHash)"

definition channel_keys :: "crypto \<Rightarrow> consumer_opts \<Rightarrow> bytes list" where
  "channel_keys C opts = [privToPub C (opt_commitmentKey opts), opt_providerPublicKey opts]"

lemma funded_refundable:
  assumes o: "consumer_ok C fk opts" and us: "funding_ok C fk us" and c: "new_Consumer C now f1 f2 opts = Inr c"
  defines "cs \<equiv> p2sh (channel_hash C (channel_keys C opts))" and "is \<equiv> all_inputs (key_hash C fk) us"
  shows "\<exists>c1. block (map (processFunding C) us) c = (Inr (), c1) \<and> refundable C c1 \<and> fundingKey c1 = fk
    \<and> com_tx (commitmentTx c1) = funded_commitment cs (empty_commitment cs) is \<and> com_publicKeys (commitmentTx c1) = channel_keys C opts
    \<and> refundAddress c1 = refundAddress c \<and> commitmentKey c1 = opt_commitmentKey opts"
proof -
  obtain ra where g: "good_hash C" "good_key C fk" "opt_fundingKey opts = Some fk" "key_ok (privToPub C (opt_commitmentKey opts))"
    "key_ok (opt_providerPublicKey opts)" "opt_refundAddress opts = Some ra" "length (hashBuffer ra) = 20" "addr_type ra = PayToPublicKeyHash"
    using o by (auto simp: consumer_ok_def)
  have c': "fundingKey c = fk" "refundAddress c = ra" "com_publicKeys (commitmentTx c) = channel_keys C opts"
    "com_tx (commitmentTx c) = empty_commitment cs" "outscript (commitmentTx c) = cs" "commitmentKey c = opt_commitmentKey opts"
    using new_Consumer_run[OF g(1,4,5,3,6), of now f1 f2] c by (auto simp: channel_keys_def cs_def)
  have us': "us \<noteq> []" "spendable (key_hash C fk) us []" "list_all (\<lambda>u. u32 (utxo_outputIndex u)) us"
    "sum_list (map utxo_int us) < 2 ^ 52" "length us \<le> 1000000" using us by (auto simp: funding_ok_def)
  have pays: "list_all (\<lambda>u. \<exists>v \<ge> 1195. pays_hash (key_hash C fk) v u) us" using us'(2) by (simp add: spendable_def)
  note t = in_total_all[OF pays, folded is_def]
  have len: "length is = length us" "is \<noteq> []" using us'(1) by (auto simp: is_def all_inputs_def)
  have none: "commitment_inputs c = []" by (simp add: c'(4) empty_commitment_def new_Transaction_def)
  have "in_total [] = 0" by (simp add: in_total_def)
  with processFunding_all[of c "key_hash C fk" us C] empty_fundable[OF g(1), of c "channel_keys C opts"] us' c'(4,5) none
  have run: "block (map (processFunding C) us) c = (Inr (), set_commitment (funded_commitment cs (empty_commitment cs) is) c)"
    by (simp add: is_def flip: cs_def)
  have h: "length (channel_hash C (channel_keys C opts)) = 20" by (rule channel_hash_length[OF g(1)])
  have pos: "0 < commitment_value is" "0 \<le> refund_value is"
    using t len by (auto intro!: commitment_value_pos refund_value_nonneg)
  have "commitment_value is < 2 ^ 52"
    using t us'(4) kb_fee_bounds(1)[of "pkh_size (length is) + 62"] by (simp add: commitment_value_def pkh_size_def)
  with funded_signable[OF pays us'(3,5) h, of cs] pos(1)
  have s: "signable C fk (funded_commitment cs (empty_commitment cs) is)" by (simp add: is_def cs_def)
  have "refundable C (set_commitment (funded_commitment cs (empty_commitment cs) is) c)"
    using g s t pos c'(1,2,3) us'(4) by (simp add: refundable_def Let_def) (simp add: funded_commitment_def empty_commitment_def cs_def channel_keys_def new_Transaction_def)
  with run c' show ?thesis by simp
qed


definition sample_utxo :: "int \<Rightarrow> utxo" where
  "sample_utxo n = \<lparr> txId = replicate 32 4, utxo_outputIndex = n, utxo_script = p2pkh (key_hash sample_crypto [1]), utxo_satoshis = IntN 100000 \<rparr>"

definition sample_opts :: consumer_opts where
  "sample_opts = \<lparr> opt_expires = None, opt_commitmentKey = [2], opt_providerPublicKey = privToPub sample_crypto [3], opt_providerAddress = None,
     opt_fundingKey = Some [1], opt_refundAddress = Some \<lparr> hashBuffer = replicate 20 5, addr_type = PayToPublicKeyHash \<rparr> \<rparr>"

lemma sample_consumer_ok: "consumer_ok sample_crypto [1] sample_opts"
  using sample_good_key by (simp add: consumer_ok_def good_hash_def sample_opts_def key_ok_def) (simp add: sample_crypto_def)

lemma sample_pays: "pays_hash (key_hash sample_crypto [1]) 100000 (sample_utxo n)"
  by (simp add: pays_hash_def sample_utxo_def)

lemma sample_funding_ok: "funding_ok sample_crypto [1] [sample_utxo 0, sample_utxo 3]"
proof -
  have "\<exists>v \<ge> 1195. pays_hash (key_hash sample_crypto [1]) v (sample_utxo n)" for n using sample_pays by (intro exI[of _ 100000]) simp
  then show ?thesis using pays_hash_int[OF sample_pays] by (simp add: funding_ok_def spendable_def) (simp add: sample_utxo_def)
qed


lemma pays_change_signed:
  assumes "pays_change q" "outputs t = outputs (pay_tx q)" "length (inputs t) = length (inputs (pay_tx q))"
  shows "pays_change (q\<lparr> pay_tx := t \<rparr>)"
proof -
  have "inputs t \<noteq> []" using assms(1,3) by (cases "inputs (pay_tx q)") (auto simp: pays_change_def)
  then show ?thesis using assms(1,2) by (simp add: pays_change_def change_of_def Let_def)
qed



definition sample_payment :: payment where
  "sample_payment = \<lparr> pay_tx = sample_tx, paymentAddress = \<lparr> hashBuffer = replicate 20 8, addr_type = PayToPublicKeyHash \<rparr>,
     changeAddress = \<lparr> hashBuffer = replicate 20 5, addr_type = PayToPublicKeyHash \<rparr>, multisigOut = sample_utxo 0,
     pay_publicKeys = [], amount = IntN 199000, sequence = 0, paid = IntN 0 \<rparr>"

lemma sample_pays_change: "pays_change sample_payment"
  by (simp add: pays_change_def sample_payment_def sample_tx_def new_Transaction_def)

definition sample_consumer :: consumer where
  "sample_consumer = \<lparr> expires = NumberTime 0, commitmentKey = [2], providerPublicKey = replicate 33 3,
     providerAddress = key_address sample_crypto (replicate 33 3), fundingKey = [1], fundingAddress = key_address sample_crypto [1],
     refundAddress = \<lparr> hashBuffer = replicate 20 5, addr_type = PayToPublicKeyHash \<rparr>,
     commitmentTx = \<lparr> com_tx = sample_tx, com_publicKeys = [], outscript = [], com_address = key_address sample_crypto [1] \<rparr>,
     refundTx = None, paymentTx = Some sample_payment \<rparr>"



end
