(* ===== verification/Triples.thy ===== *)
theory Triples
  imports Prelude
begin

text \<open>
  Hoare triples for actions: from a state with \<open>P\<close> the action either returns in a state with \<open>Q\<close> or throws in a state with \<open>R\<close>.
\<close>

definition triple :: "('s \<Rightarrow> bool) \<Rightarrow> ('s, 'a) action \<Rightarrow> ('a \<Rightarrow> 's \<Rightarrow> bool) \<Rightarrow> ('s \<Rightarrow> bool) \<Rightarrow> bool" where
  "triple P m Q R \<longleftrightarrow> (\<forall>s. P s \<longrightarrow> (case m s of (Inl e, s') \<Rightarrow> R s' | (Inr x, s') \<Rightarrow> Q x s'))"

named_theorems triple_rules \<open>one rule for each combinator\<close>

lemma tripleI: "(\<And>s. P s \<Longrightarrow> case m s of (Inl e, s') \<Rightarrow> R s' | (Inr x, s') \<Rightarrow> Q x s') \<Longrightarrow> triple P m Q R"
  by (simp add: triple_def)

lemma tripleD: "triple P m Q R \<Longrightarrow> P s \<Longrightarrow> (\<exists>x s'. m s = (Inr x, s') \<and> Q x s') \<or> (\<exists>e s'. m s = (Inl e, s') \<and> R s')"
  by (cases "m s"; cases "fst (m s)") (auto simp: triple_def dest: spec[of _ s])

lemma triple_conseq: "triple P' m Q' R' \<Longrightarrow> (\<And>s. P s \<Longrightarrow> P' s) \<Longrightarrow> (\<And>x s. Q' x s \<Longrightarrow> Q x s) \<Longrightarrow> (\<And>s. R' s \<Longrightarrow> R s) \<Longrightarrow> triple P m Q R"
  unfolding triple_def by (fastforce split: prod.splits sum.splits)

lemma triple_pre: "triple P' m Q R \<Longrightarrow> (\<And>s. P s \<Longrightarrow> P' s) \<Longrightarrow> triple P m Q R"
  by (auto simp: triple_def)

lemma triple_return [triple_rules]: "(\<And>s. P s \<Longrightarrow> Q x s) \<Longrightarrow> triple P (return x) Q R"
  by (simp add: triple_def return_def)

lemma triple_throw [triple_rules]: "(\<And>s. P s \<Longrightarrow> R s) \<Longrightarrow> triple P (throw e) Q R"
  by (simp add: triple_def throw_def)

lemma triple_modify [triple_rules]: "(\<And>s. P s \<Longrightarrow> Q () (f s)) \<Longrightarrow> triple P (modify f) Q R"
  by (simp add: triple_def modify_def)

lemma triple_lift [triple_rules]:
  "(\<And>s x. P s \<Longrightarrow> r = Inr x \<Longrightarrow> Q x s) \<Longrightarrow> (\<And>s. P s \<Longrightarrow> R s) \<Longrightarrow> triple P (lift r) Q R"
  by (cases r) (auto simp: triple_def lift_def)

lemma triple_bind [triple_rules]: "triple P m Q' R \<Longrightarrow> (\<And>x. triple (Q' x) (f x) Q R) \<Longrightarrow> triple P (bind m f) Q R"
  unfolding triple_def bind_def by (fastforce split: prod.splits sum.splits)

lemma triple_Nil [triple_rules]: "(\<And>s. P s \<Longrightarrow> Q () s) \<Longrightarrow> triple P (block []) Q R"
  by (simp add: triple_def)

lemma triple_Cons [triple_rules]: "triple P m (\<lambda>_. Q') R \<Longrightarrow> triple Q' (block ms) Q R \<Longrightarrow> triple P (block (m # ms)) Q R"
  unfolding triple_def block_Cons by (fastforce split: prod.splits sum.splits)

lemma triple_here [triple_rules]: "(\<And>s0. triple (\<lambda>s. P s \<and> s = s0) (f s0) Q R) \<Longrightarrow> triple P (here f) Q R"
  by (simp add: triple_def here_def)

lemma triple_If [triple_rules]:
  "(b \<Longrightarrow> triple P m Q R) \<Longrightarrow> (\<not> b \<Longrightarrow> triple P n Q R) \<Longrightarrow> triple P (if b then m else n) Q R"
  by simp

lemma triple_option [triple_rules]:
  "(x = None \<Longrightarrow> triple P m Q R) \<Longrightarrow> (\<And>y. x = Some y \<Longrightarrow> triple P (f y) Q R) \<Longrightarrow> triple P (case x of None \<Rightarrow> m | Some y \<Rightarrow> f y) Q R"
  by (cases x) simp_all

lemma triple_keeps: "keeps P m \<Longrightarrow> triple P m (\<lambda>_. P) P"
  unfolding keeps_def triple_def by (fastforce split: prod.split sum.split)

lemma keeps_triple: "triple P m (\<lambda>_. P) P \<Longrightarrow> keeps P m"
  unfolding keeps_def triple_def by (fastforce split: prod.splits sum.splits)

lemma triple_after: "triple P m (\<lambda>_. Q) Q \<Longrightarrow> P s \<Longrightarrow> Q (snd (m s))"
  unfolding triple_def by (fastforce split: prod.splits sum.splits)

text \<open>What an action keeps may be added on both sides.\<close>

lemma triple_frame: "triple P m Q R \<Longrightarrow> keeps F m \<Longrightarrow> triple (\<lambda>s. P s \<and> F s) m (\<lambda>x s. Q x s \<and> F s) (\<lambda>s. R s \<and> F s)"
  unfolding triple_def keeps_def by (fastforce split: prod.splits sum.splits)

lemma keeps_conj: "keeps P m \<Longrightarrow> keeps Q m \<Longrightarrow> keeps (\<lambda>s. P s \<and> Q s) m"
  by (simp add: keeps_def)

lemmas keeps_steps = keeps_return keeps_throw keeps_lift keeps_checkState keeps_bind keeps_Nil keeps_Cons keeps_If
  keeps_modify keeps_here_all keeps_option keeps_prod

end
