(* ===== verification/Refund.thy ===== *)
theory Refund
  imports Channel Triples
begin

unbundle bit_operations_syntax

text \<open>
  Spending the channel's output: the two signatures of the refund and the signatures of the payments.
  The inputs of these transactions carry the signatures of both keys; each new signature rebuilds
  the input script.
\<close>

section \<open>The input of a channel transaction\<close>

definition two_keys :: "bytes list \<Rightarrow> tx_signature option list \<Rightarrow> input_class" where
  "two_keys keys sigs = MultiSigScriptHashInput \<lparr> publicKeys = keys, redeemScript = redeem_of keys, threshold = 2, signatures = sigs \<rparr>"

definition redeem_chunk :: "bytes list \<Rightarrow> chunk" where
  "redeem_chunk keys = projr (buffer_chunk (concat (map chunk_wire (redeem_of keys))))"

definition sigs_script :: "bytes list \<Rightarrow> tx_signature option list \<Rightarrow> script" where
  "sigs_script keys sigs = multisig_script (createSignatures sigs) (redeem_chunk keys)"

definition with_sigs :: "bytes list \<Rightarrow> tx_signature option list \<Rightarrow> tx_input \<Rightarrow> tx_input" where
  "with_sigs keys sigs i = i\<lparr> in_class := two_keys keys sigs, in_script := Some (sigs_script keys sigs),
     in_scriptBuffer := concat (map chunk_wire (sigs_script keys sigs)) \<rparr>"

definition good_sigs :: "tx_signature option list \<Rightarrow> bool" where
  "good_sigs sigs \<longleftrightarrow> length sigs = 2 \<and> list_all (\<lambda>g. case g of None \<Rightarrow> True | Some g \<Rightarrow> good_sig (sig_der g) (sigtype g)) sigs"

definition good_keys :: "crypto \<Rightarrow> bytes list \<Rightarrow> bool" where
  "good_keys C keys \<longleftrightarrow> length keys = 2 \<and> distinct keys \<and> list_all (good_pub C) keys"

lemma good_keys_ok: "good_keys C keys \<Longrightarrow> list_all key_ok keys \<and> length keys = 2"
  by (auto simp: good_keys_def list_all_iff good_pub_key_ok)

lemma good_keys_two: "good_keys C keys \<Longrightarrow> \<exists>k1 k2. keys = [k1, k2] \<and> good_pub C k1 \<and> good_pub C k2 \<and> k1 \<noteq> k2"
  by (cases keys rule: remdups_adj.cases) (auto simp: good_keys_def)

lemma redeem_chunk:
  assumes "good_keys C keys"
  shows "buffer_chunk (concat (map chunk_wire (redeem_of keys))) = Inr (redeem_chunk keys)"
    "wf_chunk (redeem_chunk keys)" "length (chunk_wire (redeem_chunk keys)) \<le> 145"
proof -
  let ?r = "concat (map chunk_wire (redeem_of keys))"
  obtain k1 k2 where k: "keys = [k1, k2]" "good_pub C k1" "good_pub C k2" using good_keys_two[OF assms] by blast
  have "length ?r = 3 + (1 + length k1 + (1 + length k2))"
    using length_redeem[of keys] good_keys_ok[OF assms] k(1) by simp
  then have l: "7 \<le> length ?r" "length ?r \<le> 143" using k(2,3) by (auto simp: good_pub_def)
  then show b: "buffer_chunk ?r = Inr (redeem_chunk keys)" by (simp add: redeem_chunk_def buffer_chunk_def Let_def)
  have "opcodenum (redeem_chunk keys) = (if length ?r < 76 then int (length ?r) else 76)" "buf (redeem_chunk keys) = Some ?r"
    "len (redeem_chunk keys) = int (length ?r)"
    using buffer_chunk_sel[OF b] l by auto
  then show "wf_chunk (redeem_chunk keys)" "length (chunk_wire (redeem_chunk keys)) \<le> 145"
    using l by (auto simp: wf_chunk_def chunk_wire_def push_width_def)
qed

lemma createSignatures_good:
  assumes "good_sigs sigs"
  shows "list_all (\<lambda>g. 2 \<le> length g \<and> length g < 76) (createSignatures sigs)" "length (createSignatures sigs) \<le> 2"
  using assms by (auto simp: good_sigs_def createSignatures_def list_all_iff good_sig_def split: option.splits)
    (metis length_filter_le)

lemma sigs_script_good:
  assumes "good_keys C keys" "good_sigs sigs"
  shows "list_all wf_chunk (sigs_script keys sigs)" "length (concat (map chunk_wire (sigs_script keys sigs))) \<le> 300"
proof -
  note g = createSignatures_good[OF assms(2)]
  show "list_all wf_chunk (sigs_script keys sigs)"
    using g(1) redeem_chunk(2)[OF assms(1)]
    by (auto simp: sigs_script_def multisig_script_def list_all_iff wf_chunk_def[of "data_chunk _ _ _"] wf_chunk_def[of "op_chunk _"] key_chunk_def)
  have "length (concat (map chunk_wire (map key_chunk (createSignatures sigs)))) \<le> 76 * length (createSignatures sigs)"
    unfolding map_map
    by (intro length_concat_bound) (use g(1) in \<open>auto simp: list_all_iff chunk_wire_def key_chunk_def push_width_def\<close>)
  then show "length (concat (map chunk_wire (sigs_script keys sigs))) \<le> 300"
    using g(2) redeem_chunk(3)[OF assms(1)] by (simp add: sigs_script_def multisig_script_def chunk_wire_def[of "op_chunk _"])
qed

lemma updateScript_run:
  assumes "good_keys C keys" "good_sigs sigs" "in_class i = two_keys keys sigs"
  shows "updateScript i = (Inr (), with_sigs keys sigs i)"
proof -
  note w = wf_toBuffer[OF sigs_script_good(1)[OF assms(1,2)]]
  have "addBuffers (createSignatures sigs) (addOpcode OP_0 False []) = Inr (op_chunk OP_0 # map key_chunk (createSignatures sigs))"
    using createSignatures_good(1)[OF assms(2)] by (subst addBuffers_keys) (auto simp: list_all_iff addOpcode_def insertAtPosition_def)
  moreover have "Script_toBuffer (redeem_of keys) = Inr (concat (map chunk_wire (redeem_of keys)))"
    using good_keys_ok[OF assms(1)] by (intro wf_toBuffer wf_redeem) simp
  ultimately have "buildP2SHMultisigIn keys 2 (createSignatures sigs) (Some (redeem_of keys)) True = Inr (sigs_script keys sigs)"
    using redeem_chunk(1)[OF assms(1)]
    by (simp add: buildP2SHMultisigIn_def addBuffer_def insertAtPosition_def sigs_script_def multisig_script_def)
  then show ?thesis using assms(3) w
    by (simp add: updateScript_def here_def two_keys_def bind_def lift_def Input_setScript_def block_Cons modify_def with_sigs_def)
qed

text \<open>Adding a signature by one of the two keys that covers the input.\<close>

lemma publicKeyIndex_nth: "distinct keys \<Longrightarrow> j < length keys \<Longrightarrow> length keys = 2 \<Longrightarrow> publicKeyIndex keys (keys ! j) = Some j"
  by (cases keys rule: remdups_adj.cases) (auto simp: publicKeyIndex_def less_Suc_eq numeral_2_eq_2)

lemma addSignature_run:
  assumes k: "good_keys C keys" "j < 2" and s: "good_sigs sigs" "None \<in> set sigs" and i: "in_class i = two_keys keys sigs"
    and g: "sig_publicKey g = keys ! j" "good_sig (sig_der g) (sigtype g)"
      "covers C tx (sig_inputIndex g) (redeem_of keys) (sig_publicKey g) (sig_der g) (sigtype g)"
  shows "Input_addSignature C tx g i = (Inr (), with_sigs keys (sigs[j := Some g]) i)"
proof -
  have len: "length keys = 2" "distinct keys" "length sigs = 2" using k s by (auto simp: good_keys_def good_sigs_def)
  have s': "good_sigs (sigs[j := Some g])"
    using s(1) g(2) by (auto simp: good_sigs_def list_all_iff dest!: set_update_subset_insert[THEN subsetD])
  have "length (filter (\<lambda>g. g \<noteq> None) sigs) \<noteq> 2"
    using s(2) len(3) length_filter_less[of None sigs "\<lambda>g. g \<noteq> None"] by auto
  then have n: "countSignatures \<lparr> publicKeys = keys, redeemScript = redeem_of keys, threshold = 2, signatures = sigs \<rparr> \<noteq> 2"
    by (simp add: countSignatures_def)
  let ?i = "i\<lparr> in_class := two_keys keys (sigs[j := Some g]) \<rparr>"
  have "updateScript ?i = (Inr (), with_sigs keys (sigs[j := Some g]) ?i)" by (rule updateScript_run[OF k(1) s']) simp
  moreover have "with_sigs keys (sigs[j := Some g]) ?i = with_sigs keys (sigs[j := Some g]) i" by (simp add: with_sigs_def)
  ultimately show ?thesis
    using i n publicKeyIndex_nth[OF len(2), of j] len(1) k(2) g(1,3)
    by (simp add: Input_addSignature_def here_def two_keys_def block_Cons checkState_def bind_def lift_def covers_def
        Input_isValidSignature_def modify_def set_signatures_def)
qed

section \<open>Signing\<close>

text \<open>A transaction that spends the channel's output and nothing else, with the signatures it has.\<close>

definition spends_channel :: "crypto \<Rightarrow> bytes list \<Rightarrow> tx_signature option list \<Rightarrow> transaction \<Rightarrow> bool" where
  "spends_channel C keys sigs tx \<longleftrightarrow> good_sigs sigs \<and> tx_ok tx \<and> length (concat (map output_wire (outputs tx))) < 1000
     \<and> (\<exists>i out. inputs tx = [i] \<and> in_class i = two_keys keys sigs \<and> in_output i = Some out
        \<and> output_script out = Inr (p2sh (channel_hash C keys)) \<and> length (in_scriptBuffer i) \<le> 300
        \<and> \<not> isl (Script_fromBuffer (in_scriptBuffer i)))"

lemma spends_channel_hashable:
  assumes "spends_channel C keys sigs tx" shows "hashable tx" "\<exists>i. inputs tx = [i]"
proof -
  obtain i where i: "inputs tx = [i]" "tx_ok tx" "length (in_scriptBuffer i) \<le> 300" "\<not> isl (Script_fromBuffer (in_scriptBuffer i))"
    "length (concat (map output_wire (outputs tx))) < 1000"
    using assms by (auto simp: spends_channel_def)
  then have "length (tx_wire tx) < 2 ^ 31"
    using length_varint_wire(2)[of "int (length (outputs tx))"] length_varint_wire(2)[of "int (length (in_scriptBuffer i))"]
      length_varint_wire(2)[of 1]
    by (simp add: tx_wire_def input_wire_def varbuf_wire_def tx_ok_def input_ok_def)
  with i show "hashable tx" "\<exists>i. inputs tx = [i]" by (auto simp: hashable_def scripts_parse_def)
qed

lemma hash_inputs_single: "hash_inputs ty 0 s b [i] = [with_script s b i]"
  by (simp add: hash_inputs_def clear_sequences_def Let_def)

lemma set_hash_outputs: "set (hash_outputs base 0 os) \<subseteq> set os" "length (hash_outputs base 0 os) \<le> length os"
  by (auto simp: hash_outputs_def dest: in_set_takeD)

lemma hash_copy_single_ok:
  assumes "hashable tx" "inputs tx = [i]" "length b < 2 ^ 31" shows "tx_ok (hash_copy tx ty 0 s b)"
proof -
  have o: "list_all output_ok (map strip_output (outputs tx))" "length (outputs tx) < 2 ^ 31"
    using assms(1) by (auto simp: hashable_def tx_ok_def list_all_iff output_ok_def strip_output_def)
  have "list_all output_ok (hash_outputs (ty AND 31) 0 (map strip_output (outputs tx)))"
    using o(1) set_hash_outputs(1)[of "ty AND 31" "map strip_output (outputs tx)"] unfolding list_all_iff by blast
  moreover have "length (hash_outputs (ty AND 31) 0 (map strip_output (outputs tx))) < 2 ^ 31"
    using o(2) set_hash_outputs(2)[of "ty AND 31" "map strip_output (outputs tx)"] by simp
  moreover have "input_ok (with_script s b i)"
    using assms by (simp add: hashable_def tx_ok_def input_ok_def with_script_def strip_input_def)
  ultimately show ?thesis using assms(1,2) by (simp add: hash_copy_def hash_inputs_single hashable_def tx_ok_def)
qed

lemma redeem_copy:
  assumes "good_keys C keys"
  shows "copy_subscript (redeem_of keys) = Inr (redeem_of keys)"
    "Script_toBuffer (redeem_of keys) = Inr (concat (map chunk_wire (redeem_of keys)))" "length (concat (map chunk_wire (redeem_of keys))) \<le> 143"
proof -
  have ok: "list_all key_ok keys" using good_keys_ok[OF assms] by simp
  obtain k1 k2 where k: "keys = [k1, k2]" "good_pub C k1" "good_pub C k2" using good_keys_two[OF assms] by blast
  show l: "length (concat (map chunk_wire (redeem_of keys))) \<le> 143"
    using length_redeem[OF ok] k by (auto simp: good_pub_def)
  show "Script_toBuffer (redeem_of keys) = Inr (concat (map chunk_wire (redeem_of keys)))" by (rule wf_toBuffer[OF wf_redeem[OF ok]])
  have "removeCodeseparators (redeem_of keys) = redeem_of keys"
    using k by (simp add: removeCodeseparators_def redeem_of_def key_chunk_def good_pub_def)
  then show "copy_subscript (redeem_of keys) = Inr (redeem_of keys)"
    using copy_subscript_wf[OF wf_redeem[OF ok]] l by simp
qed

lemma sighash_answers:
  assumes "good_keys C keys" "spends_channel C keys sigs tx" "0 \<le> ty" "ty < 256"
  shows "\<exists>h. sighash C tx ty 0 (redeem_of keys) = Inr h"
proof -
  obtain i where i: "inputs tx = [i]" using spends_channel_hashable(2)[OF assms(2)] by blast
  note h = spends_channel_hashable(1)[OF assms(2)]
  let ?b = "concat (map chunk_wire (redeem_of keys))"
  have "tx_ok (hash_copy tx ty 0 (redeem_of keys) ?b)"
    using redeem_copy(3)[OF assms(1)] by (intro hash_copy_single_ok[OF h i]) simp
  then show ?thesis
    using sighash_run[OF h redeem_copy(1,2)[OF assms(1)], of 0 C ty] preimage_wire[of "hash_copy tx ty 0 (redeem_of keys) ?b" ty] i assms(3,4)
    by (cases "ty AND 31 = SIGHASH_SINGLE \<and> 0 \<ge> length (outputs tx)") auto
qed

lemma spends_with_sigs:
  assumes "good_keys C keys" "spends_channel C keys sigs tx" "inputs tx = [i]" "good_sigs sigs'"
  shows "spends_channel C keys sigs' (tx\<lparr> inputs := [with_sigs keys sigs' i] \<rparr>)" "same_shape tx (tx\<lparr> inputs := [with_sigs keys sigs' i] \<rparr>)"
proof -
  note s = sigs_script_good[OF assms(1,4)]
  have "Script_fromBuffer (concat (map chunk_wire (sigs_script keys sigs'))) = Inr (sigs_script keys sigs')"
    using s by (intro wf_fromBuffer) simp_all
  then show "spends_channel C keys sigs' (tx\<lparr> inputs := [with_sigs keys sigs' i] \<rparr>)"
    using assms(2-4) s(2) by (auto simp: spends_channel_def with_sigs_def tx_ok_def input_ok_def)
  show "same_shape tx (tx\<lparr> inputs := [with_sigs keys sigs' i] \<rparr>)"
    using assms(3) by (simp add: same_shape_def blanked_def with_sigs_def strip_input_def)
qed

lemma covers_shape:
  assumes "good_keys C keys" "spends_channel C keys sigs tx" "spends_channel C keys sigs' tx'" "same_shape tx tx'"
  shows "covers C tx' 0 (redeem_of keys) pub der ty = covers C tx 0 (redeem_of keys) pub der ty"
  using sighash_shape[OF assms(4) spends_channel_hashable(1)[OF assms(2)] spends_channel_hashable(1)[OF assms(3)] _
      redeem_copy(1,2)[OF assms(1)], of 0 C ty] spends_channel_hashable(2)[OF assms(2)]
  by (auto simp: covers_def Sighash_verify_def)

text \<open>The signature that a key makes, and the transaction that carries it.\<close>

definition own_sig :: "crypto \<Rightarrow> bytes \<Rightarrow> bytes list \<Rightarrow> int \<Rightarrow> transaction \<Rightarrow> tx_signature" where
  "own_sig C k keys ty tx = \<lparr> sig_publicKey = privToPub C k, sig_prevTxId = prevTxId (hd (inputs tx)),
     sig_outputIndex = outputIndex (hd (inputs tx)), sig_inputIndex = 0,
     sig_der = ecdsa_sign C k (projr (sighash C tx ty 0 (redeem_of keys))), sigtype = ty \<rparr>"

definition add_sig :: "bytes list \<Rightarrow> tx_signature option list \<Rightarrow> nat \<Rightarrow> tx_signature \<Rightarrow> transaction \<Rightarrow> transaction" where
  "add_sig keys sigs j g tx = tx\<lparr> inputs := [with_sigs keys (sigs[j := Some g]) (hd (inputs tx))] \<rparr>"

lemma applySignature_channel:
  assumes "good_keys C keys" "spends_channel C keys sigs tx" "None \<in> set sigs" "j < 2" "sig_inputIndex g = 0"
    "sig_publicKey g = keys ! j" "good_sig (sig_der g) (sigtype g)" "covers C tx 0 (redeem_of keys) (keys ! j) (sig_der g) (sigtype g)"
  shows "applySignature C g tx = (Inr (), add_sig keys sigs j g tx)"
    "spends_channel C keys (sigs[j := Some g]) (add_sig keys sigs j g tx)" "same_shape tx (add_sig keys sigs j g tx)"
proof -
  obtain i where i: "inputs tx = [i]" "in_class i = two_keys keys sigs" "good_sigs sigs" using assms(2) by (auto simp: spends_channel_def)
  have "Input_addSignature C tx g i = (Inr (), with_sigs keys (sigs[j := Some g]) i)"
    using assms i by (intro addSignature_run) auto
  then show "applySignature C g tx = (Inr (), add_sig keys sigs j g tx)"
    using i assms(5) by (simp add: applySignature_def here_def at_input_def add_sig_def)
  have "good_sigs (sigs[j := Some g])"
    using i(3) assms(7) by (auto simp: good_sigs_def list_all_iff dest!: set_update_subset_insert[THEN subsetD])
  from spends_with_sigs[OF assms(1,2) i(1) this]
  show "spends_channel C keys (sigs[j := Some g]) (add_sig keys sigs j g tx)" "same_shape tx (add_sig keys sigs j g tx)"
    using i(1) by (simp_all add: add_sig_def)
qed

lemma own_sig_covers:
  assumes "good_keys C keys" "spends_channel C keys sigs tx" "good_key C k" "0 \<le> ty" "ty < 256"
  shows "covers C tx 0 (redeem_of keys) (privToPub C k) (sig_der (own_sig C k keys ty tx)) ty"
  using sighash_answers[OF assms(1,2,4,5)] assms(3) by (auto simp: covers_def Sighash_verify_def own_sig_def good_key_def)

lemma good_own_sig: "good_key C k \<Longrightarrow> 0 < ty \<Longrightarrow> ty < 256 \<Longrightarrow> hasDefinedHashtype ty \<Longrightarrow> good_sig (sig_der (own_sig C k keys ty tx)) ty"
  by (auto simp: good_key_def good_sig_def own_sig_def)

lemma sign_channel:
  assumes k: "good_keys C keys" "good_key C k" "j < 2" "privToPub C k = keys ! j"
    and tx: "spends_channel C keys sigs tx" "None \<in> set sigs"
    and ty: "0 < default_sigtype ty" "default_sigtype ty < 256" "hasDefinedHashtype (default_sigtype ty)"
  defines "g \<equiv> own_sig C k keys (default_sigtype ty) tx"
  shows "Transaction_sign C k ty tx = (Inr (), add_sig keys sigs j g tx)"
    "spends_channel C keys (sigs[j := Some g]) (add_sig keys sigs j g tx)" "same_shape tx (add_sig keys sigs j g tx)"
    "getSignatures C k ty tx = Inr [g]"
proof -
  obtain i out where i: "inputs tx = [i]" "in_class i = two_keys keys sigs" "in_output i = Some out" using tx(1) by (auto simp: spends_channel_def)
  obtain k1 k2 where kk: "keys = [k1, k2]" "k1 \<noteq> k2" using good_keys_two[OF k(1)] by blast
  have f: "filter (\<lambda>p. p = privToPub C k) keys = [privToPub C k]"
    using kk k(3,4) by (auto simp: less_Suc_eq numeral_2_eq_2)
  have d: "default_sigtype (default_sigtype ty) = default_sigtype ty" using ty(1) by (simp add: default_sigtype_def)
  obtain h where h: "sighash C tx (default_sigtype ty) 0 (redeem_of keys) = Inr h"
    using sighash_answers[OF k(1) tx(1), of "default_sigtype ty"] ty by auto
  have m: "make_signature C tx k 0 (default_sigtype ty) i (redeem_of keys) = Inr g"
    using h i(1) by (simp add: make_signature_def Sighash_sign_def g_def own_sig_def)
  have hd: "Input_getSignatures C tx k 0 (default_sigtype ty) hd i = Inr [g]" for hd
    using i m f d by (simp add: Input_getSignatures_def two_keys_def)
  then show gs: "getSignatures C k ty tx = Inr [g]" using i(1) by (simp add: getSignatures_def)
  have g: "sig_inputIndex g = 0" "sig_publicKey g = keys ! j" "good_sig (sig_der g) (sigtype g)"
    "covers C tx 0 (redeem_of keys) (keys ! j) (sig_der g) (sigtype g)"
    using k(4) good_own_sig[OF k(2) ty, of keys tx] own_sig_covers[OF k(1) tx(1) k(2), of "default_sigtype ty"] ty
    by (simp_all add: g_def) (simp_all add: own_sig_def)
  note a = applySignature_channel[OF k(1) tx k(3) g]
  show "Transaction_sign C k ty tx = (Inr (), add_sig keys sigs j g tx)"
    using gs a(1) i by (simp add: Transaction_sign_def here_def block_Cons checkState_def hasAllUtxoInfo_def bind_def lift_def)
  show "spends_channel C keys (sigs[j := Some g]) (add_sig keys sigs j g tx)" "same_shape tx (add_sig keys sigs j g tx)" by (rule a)+
qed

section \<open>The refund\<close>

lemma createSignatures_two: "createSignatures [Some g1, Some g2] = [sig_der g1 @ [word_of_int (sigtype g1)], sig_der g2 @ [word_of_int (sigtype g2)]]"
  by (simp add: createSignatures_def)

lemma both_signed:
  assumes k: "good_keys C keys" "good_hash C" and tx: "spends_channel C keys [Some g1, Some g2] tx"
    and s: "in_script (hd (inputs tx)) = Some (sigs_script keys [Some g1, Some g2])"
    and c: "covers C tx 0 (redeem_of keys) (keys ! 0) (sig_der g1) (sigtype g1)"
      "covers C tx 0 (redeem_of keys) (keys ! 1) (sig_der g2) (sigtype g2)"
  shows "isFullySigned C tx = Inr True" "first_input_verifies C tx = Inr True"
proof -
  obtain i out where i: "inputs tx = [i]" "in_class i = two_keys keys [Some g1, Some g2]" "in_output i = Some out"
    "output_script out = Inr (p2sh (channel_hash C keys))" using tx by (auto simp: spends_channel_def)
  have g: "good_sig (sig_der g1) (sigtype g1)" "good_sig (sig_der g2) (sigtype g2)" using tx by (auto simp: spends_channel_def good_sigs_def)
  obtain k1 k2 where kk: "keys = [k1, k2]" "good_pub C k1" "good_pub C k2" using good_keys_two[OF k(1)] by blast
  show "isFullySigned C tx = Inr True"
    using i by (simp add: isFullySigned_def two_keys_def Input_isFullySigned_def countSignatures_def)
  have h: "length (channel_hash C [k1, k2]) = 20" by (rule channel_hash_length[OF k(2)])
  have "verify_input C (sigs_script keys [Some g1, Some g2]) (p2sh (channel_hash C keys)) tx 0 channel_flags = Inr True"
    using verify_multisig[OF kk(2,3) g h refl redeem_chunk(1)[OF k(1), unfolded kk(1)], of tx 0] c
    by (simp add: sigs_script_def createSignatures_two channel_hash_def kk(1))
  then show "first_input_verifies C tx = Inr True"
    using i s by (simp add: first_input_verifies_def input_script_def script_getter_def)
qed

lemma bn_range: "0 \<le> v \<Longrightarrow> 0 \<le> bn_fromNumber (IntN v) \<and> bn_fromNumber (IntN v) < 2 ^ 64"
  by (simp add: bn_fromNumber_def)

lemma change_output_ok:
  assumes "length h = 20" "0 \<le> v"
  shows "output_ok (change_output (p2pkh h) v)" "length (output_wire (change_output (p2pkh h) v)) = 34"
  using assms bn_range[OF assms(2)] p2pkh_wire_length[OF assms(1)]
  by (simp_all add: output_ok_def change_output_def output_wire_def varbuf_wire_def varint_wire_def)

lemma refund_spends:
  assumes "length txid = 32" "length hr = 20" "0 \<le> v" "u32 t"
  shows "spends_channel C keys [None, None] (refund_tx_of keys (channel_hash C keys) txid hr v t)"
proof -
  have "Script_fromBuffer [] = Inr []" using wf_fromBuffer[of "[]"] by simp
  then show ?thesis using assms change_output_ok[OF assms(2,3)]
    by (auto simp: spends_channel_def refund_tx_of_def multisig_input_def new_Input_def two_keys_def good_sigs_def tx_ok_def input_ok_def
        new_Transaction_def output_script_def script_getter_def change_output_def)
qed

text \<open>The payment that a validated refund starts.\<close>

definition first_payment :: "crypto \<Rightarrow> consumer \<Rightarrow> bytes list \<Rightarrow> bytes \<Rightarrow> int \<Rightarrow> payment" where
  "first_payment C c keys txid v = \<lparr> pay_tx = new_Transaction\<lparr> inputs := [multisig_input keys (change_output (p2sh (channel_hash C keys)) v) txid],
       inputAmount_cache := Some (IntN v) \<rparr>,
     paymentAddress = providerAddress c, changeAddress = refundAddress c, multisigOut = channel_utxo C keys txid v,
     pay_publicKeys = keys, amount = IntN v, sequence = 0, paid = 0 \<rparr>"

lemma new_Payment_run:
  assumes "good_hash C" "good_keys C keys" "length txid = 32" "\<bar>v\<bar> \<le> 2 ^ 53"
  shows "new_Payment C (channel_utxo C keys txid v) (providerAddress c) (refundAddress c) keys = Inr (first_payment C c keys txid v)"
proof -
  let ?u = "channel_utxo C keys txid v" and ?h = "channel_hash C keys"
  let ?t = "new_Transaction\<lparr> inputs := [multisig_input keys (change_output (p2sh ?h) v) txid], inputAmount_cache := None \<rparr>"
  have h: "length ?h = 20" using assms(1) by (rule channel_hash_length)
  have u: "UnspentOutput ?u = Inr ?u"
    using assms(3) p2sh_wire_length[OF h] wf_p2sh[OF h] by (intro UnspentOutput_id) (auto simp: channel_utxo_def)
  have "tx_from C ?u (Some (keys, 2)) new_Transaction = (Inr (), ?t)"
    using tx_from_channel[OF assms(1) _ _ assms(3), of keys new_Transaction v] good_keys_ok[OF assms(2)] by (simp add: new_Transaction_def)
  moreover have "getInputAmount ?t = (Inr (IntN v), ?t\<lparr> inputAmount_cache := Some (IntN v) \<rparr>)"
    using sum_single_input[OF assms(4), of keys "p2sh ?h" txid]
    by (simp add: getInputAmount_def here_def bind_def modify_def lift_def return_def new_Transaction_def)
  ultimately show ?thesis using u by (simp add: new_Payment_def first_payment_def)
qed

text \<open>The provider's signature of the refund: by its key, over the input alone.\<close>

definition refund_signature :: "crypto \<Rightarrow> bytes list \<Rightarrow> transaction \<Rightarrow> tx_signature \<Rightarrow> bool" where
  "refund_signature C keys tx g \<longleftrightarrow> sig_inputIndex g = 0 \<and> sig_publicKey g = keys ! 1 \<and> good_sig (sig_der g) (sigtype g)
     \<and> covers C tx 0 (redeem_of keys) (keys ! 1) (sig_der g) (sigtype g)"

definition channel_refund :: "crypto \<Rightarrow> consumer \<Rightarrow> int \<Rightarrow> transaction" where
  "channel_refund C c now = refund_tx_of (com_publicKeys (commitmentTx c)) (channel_hash C (com_publicKeys (commitmentTx c)))
     (commitment_id C c) (hashBuffer (refundAddress c)) (refund_value (commitment_inputs c)) (seconds now + ONE_DAY)"

definition opened :: "crypto \<Rightarrow> consumer \<Rightarrow> int \<Rightarrow> tx_signature \<Rightarrow> consumer" where
  "opened C c now g = (let keys = com_publicKeys (commitmentTx c); t1 = add_sig keys [None, None] 1 g (channel_refund C c now);
       t2 = add_sig keys [None, Some g] 0 (own_sig C (commitmentKey c) keys 1 t1) t1 in
     (set_refund t2 (set_commitment (signed_commitment C c) c))
       \<lparr> paymentTx := Some (first_payment C c keys (commitment_id C c) (refund_value (commitment_inputs c))) \<rparr>)"

definition openable :: "crypto \<Rightarrow> consumer \<Rightarrow> int \<Rightarrow> tx_signature \<Rightarrow> bool" where
  "openable C c now g \<longleftrightarrow> refundable C c \<and> good_keys C (com_publicKeys (commitmentTx c)) \<and> good_key C (commitmentKey c)
     \<and> privToPub C (commitmentKey c) = com_publicKeys (commitmentTx c) ! 0 \<and> u32 (seconds now + ONE_DAY)
     \<and> refund_signature C (com_publicKeys (commitmentTx c)) (channel_refund C c now) g"

lemma add_sig_simps [simp]:
  "outputs (add_sig keys sigs j g tx) = outputs tx" "in_script (hd (inputs (add_sig keys sigs j g tx))) = Some (sigs_script keys (sigs[j := Some g]))"
  by (simp_all add: add_sig_def with_sigs_def)

lemma refund_signed:
  assumes o: "openable C c now g"
  defines "keys \<equiv> com_publicKeys (commitmentTx c)"
  defines "t1 \<equiv> add_sig keys [None, None] 1 g (channel_refund C c now)"
  defines "t2 \<equiv> add_sig keys [None, Some g] 0 (own_sig C (commitmentKey c) keys 1 t1) t1"
  shows "applySignature C g (channel_refund C c now) = (Inr (), t1)" "Transaction_sign C (commitmentKey c) 0 t1 = (Inr (), t2)"
    "isFullySigned C t2 = Inr True" "first_input_verifies C t2 = Inr True"
    "outputs t2 = [change_output (p2pkh (hashBuffer (refundAddress c))) (refund_value (commitment_inputs c))]" "tx_ok t2"
proof -
  let ?t = "channel_refund C c now" and ?g1 = "own_sig C (commitmentKey c) keys 1 t1"
  have r: "good_hash C" "length (hashBuffer (refundAddress c)) = 20" "0 \<le> refund_value (commitment_inputs c)"
    using o by (auto simp: openable_def refundable_def Let_def)
  have k: "good_keys C keys" "good_key C (commitmentKey c)" "privToPub C (commitmentKey c) = keys ! 0" "u32 (seconds now + ONE_DAY)"
    and g: "sig_inputIndex g = 0" "sig_publicKey g = keys ! 1" "good_sig (sig_der g) (sigtype g)"
      "covers C ?t 0 (redeem_of keys) (keys ! 1) (sig_der g) (sigtype g)"
    using o by (auto simp: openable_def refund_signature_def keys_def)
  have "length (commitment_id C c) = 32" using r(1) by (simp add: commitment_id_def good_hash_def)
  from refund_spends[OF this r(2,3) k(4)] have s0: "spends_channel C keys [None, None] ?t" by (simp add: channel_refund_def keys_def)
  have d: "(0 :: nat) < 2" "(1 :: nat) < 2" by simp_all
  note a = applySignature_channel[OF k(1) s0 _ d(2) g, folded t1_def]
  show "applySignature C g ?t = (Inr (), t1)" using a(1) by simp
  have s1: "spends_channel C keys [None, Some g] t1" "same_shape ?t t1" using a(2,3) by simp_all
  note b = sign_channel[OF k(1,2) d(1) k(3) s1(1), of 0, unfolded default_sigtype_def, simplified, folded t2_def]
  have ty: "hasDefinedHashtype 1" by (simp add: defined_hashtype)
  show "Transaction_sign C (commitmentKey c) 0 t1 = (Inr (), t2)" using b(1) ty by simp
  have s2: "spends_channel C keys [Some ?g1, Some g] t2" "same_shape t1 t2" using b(2,3) ty by simp_all
  have c1: "covers C t2 0 (redeem_of keys) (keys ! 0) (sig_der ?g1) (sigtype ?g1)"
    using own_sig_covers[OF k(1) s1(1) k(2), of 1] covers_shape[OF k(1) s1(1) s2, of "keys ! 0" "sig_der ?g1" 1] k(3)
    by simp (simp add: own_sig_def)
  have c2: "covers C t2 0 (redeem_of keys) (keys ! 1) (sig_der g) (sigtype g)"
    using covers_shape[OF k(1) s0 s1] covers_shape[OF k(1) s1(1) s2] g(4) by simp
  have "in_script (hd (inputs t2)) = Some (sigs_script keys [Some ?g1, Some g])" by (simp add: t2_def)
  from both_signed[OF k(1) r(1) s2(1) this c1 c2] show "isFullySigned C t2 = Inr True" "first_input_verifies C t2 = Inr True" .
  show "outputs t2 = [change_output (p2pkh (hashBuffer (refundAddress c))) (refund_value (commitment_inputs c))]"
    by (simp add: t2_def t1_def channel_refund_def refund_tx_of_def)
  show "tx_ok t2" using s2(1) by (simp add: spends_channel_def)
qed

lemma on_refund_set: "on_refund m (set_refund t c) = (case m t of (r, t') \<Rightarrow> (r, set_refund t' c))"
  by (simp add: on_refund_def here_def zoom_def set_refund_def split: prod.split)

lemma validateRefund_steps:
  assumes "Transaction_sign C (commitmentKey (set_refund t1 c)) 0 t1 = (Inr (), t2)" "outputs t2 = [out]" "output_script out = Inr s"
    "script_address C s = Inr (refundAddress c)" "satoshis out = v" "channel_amount (set_refund t2 c) = (Inr v, set_refund t2 c)" "jseq v v"
    "isFullySigned C t2 = Inr True" "first_input_verifies C t2 = Inr True" "channel_out C v (set_refund t2 c) = Inr u"
    "new_Payment C u (providerAddress c) (refundAddress c) (com_publicKeys (commitmentTx c)) = Inr p"
  shows "validateRefund C (set_refund t1 c) = (Inr (), (set_refund t2 c)\<lparr> paymentTx := Some p \<rparr>)"
proof -
  have sel: "providerAddress (set_refund t c) = providerAddress c" "refundAddress (set_refund t c) = refundAddress c"
    "commitmentTx (set_refund t c) = commitmentTx c" for t by (simp_all add: set_refund_def)
  show ?thesis
    unfolding validateRefund_def using assms
    by (simp add: block_Cons here_def on_refund_set bind_def lift_def checkState_def first_output_def modify_def sel)
qed

lemma validateRefund_run:
  assumes o: "openable C c now g"
  shows "block [on_refund (applySignature C g), validateRefund C]
     (set_refund (channel_refund C c now) (set_commitment (signed_commitment C c) c)) = (Inr (), opened C c now g)"
proof -
  let ?keys = "com_publicKeys (commitmentTx c)" and ?v = "refund_value (commitment_inputs c)" and ?id = "commitment_id C c"
  let ?b = "set_commitment (signed_commitment C c) c"
  note s = refund_signed[OF o]
  have r: "refundable C c" "good_hash C" "good_keys C ?keys" "length (hashBuffer (refundAddress c)) = 20"
    "addr_type (refundAddress c) = PayToPublicKeyHash"
    using o by (auto simp: openable_def refundable_def Let_def)
  have sel: "commitmentKey (set_refund t ?b) = commitmentKey c" "com_tx (commitmentTx (set_refund t ?b)) = signed_commitment C c" 
    "providerAddress ?b = providerAddress c" "set_commitment (signed_commitment C c) (set_refund t ?b) = set_refund t ?b" for t
    by (simp_all add: set_refund_def set_commitment_def)
  have addr: "script_address C (p2pkh (hashBuffer (refundAddress c))) = Inr (refundAddress c)"
    using getAddressInfo_p2pkh[OF r(4), of C] r(5) by (simp add: script_address_def)
  have oscr: "output_script (change_output s n) = Inr s" "satoshis (change_output s n) = IntN n" for s n
    by (simp_all add: output_script_def script_getter_def change_output_def)
  have amount: "channel_amount (set_refund t ?b) = (Inr (IntN ?v), set_refund t ?b)" for t
    using channel_amount_refundable[OF r(1), of "set_refund t ?b"] sel(2,4) by simp
  have id: "length ?id = 32" using r(2) by (simp add: commitment_id_def good_hash_def)
  note pay = new_Payment_run[OF r(2,3) id refund_value_bound[OF r(1)], of c]
  have eqv: "jseq (IntN ?v) (IntN ?v)" by (simp add: jseq_def)
  note out = channel_out_signed[OF r(1) sel(2), of ?v]
  have val: "validateRefund C (set_refund (add_sig ?keys [None, None] 1 g (channel_refund C c now)) ?b) = (Inr (), opened C c now g)"
    unfolding opened_def Let_def
    by (rule validateRefund_steps[OF _ s(5) oscr(1) _ oscr(2) amount eqv s(3,4) out]) (simp_all add: sel(1,3) s(2) addr pay del: One_nat_def)
  show ?thesis by (simp add: block_Cons on_refund_set s(1) val del: One_nat_def)
qed

section \<open>Payments\<close>

text \<open>
  A consumer that pays: the payment spends the channel with the consumer's signature at most, and what it returns
  fits what is left.
\<close>

definition paying :: "crypto \<Rightarrow> bytes list \<Rightarrow> int \<Rightarrow> int \<Rightarrow> consumer \<Rightarrow> bool" where
  "paying C keys a q c \<longleftrightarrow> (\<exists>p x. paymentTx c = Some p \<and> pays_change p \<and> spends_channel C keys [x, None] (pay_tx p)
     \<and> amount p = IntN a \<and> paid p = IntN q \<and> 0 \<le> q \<and> q \<le> a \<and> a \<le> 2 ^ 53)
     \<and> good_keys C keys \<and> good_key C (commitmentKey c) \<and> privToPub C (commitmentKey c) = keys ! 0"

definition channel_sigtype :: "int \<Rightarrow> bool" where
  "channel_sigtype ty \<longleftrightarrow> 0 < ty \<and> ty < 256 \<and> hasDefinedHashtype ty"

lemma spends_outputs:
  assumes "spends_channel C keys sigs tx" "list_all output_ok os" "length (concat (map output_wire os)) < 1000" "length os < 1000"
  shows "spends_channel C keys sigs (tx\<lparr> outputs := os, outputAmount_cache := r \<rparr>)"
  using assms by (auto simp: spends_channel_def tx_ok_def)

lemma plain_output_change: "plain_output s (IntN v) = change_output s v"
  by (simp add: plain_output_def change_output_def)

lemma increment_step:
  assumes c: "paying C keys a q c" and d: "0 \<le> d" "q + d \<le> a" and ty: "channel_sigtype ty"
  shows "\<exists>c' p g. incrementPaymentBy C (IntN d) ty c = (Inr (), c') \<and> paying C keys a (q + d) c' \<and> paymentTx c' = Some p
    \<and> getSignatures C (commitmentKey c') ty (pay_tx p) = Inr [g] \<and> covers C (pay_tx p) 0 (redeem_of keys) (keys ! 0) (sig_der g) ty
    \<and> map satoshis (outputs (pay_tx p)) = (if q + d = a then [] else [IntN (a - (q + d))])
    \<and> refundTx c' = refundTx c \<and> commitmentTx c' = commitmentTx c"
proof -
  obtain p x where p: "paymentTx c = Some p" "pays_change p" "spends_channel C keys [x, None] (pay_tx p)" "amount p = IntN a" "paid p = IntN q"
    "0 \<le> q" "a \<le> 2 ^ 53" and k: "good_keys C keys" "good_key C (commitmentKey c)" "privToPub C (commitmentKey c) = keys ! 0"
    using c by (auto simp: paying_def)
  let ?q = "p\<lparr> paid := IntN (q + d), sequence := sequence p + 1 \<rparr>"
  let ?os = "if q + d = a then [] else [change_output (p2pkh (hashBuffer (changeAddress p))) (a - (q + d))]"
  have sum: "IntN q + IntN d = IntN (q + d)" using p d by (intro Int_plus) simp
  have diff: "IntN a - IntN (q + d) = IntN (a - (q + d))" using p d by (intro Int_minus) simp
  have z: "jseq (IntN (a - (q + d))) 0 \<longleftrightarrow> q + d = a"
    unfolding jseq_def zero_jsnum_def jsnum.inject of_int_eq_0_iff by auto
  have sel: "amount ?q = IntN a" "paid ?q = IntN (q + d)" "changeAddress ?q = changeAddress p" using p(4) by simp_all
  have co: "change_of ?q = ?os" unfolding change_of_def Let_def by (simp only: sel diff z plain_output_change)
  obtain cache where u: "updateValue (IntN d) p = (Inr (), ?q\<lparr> pay_tx := (pay_tx p)\<lparr> outputs := ?os, outputAmount_cache := cache \<rparr> \<rparr>)"
    using updateValue_run[OF p(2), of "IntN d"] unfolding p(5) sum co by blast
  let ?t = "(pay_tx p)\<lparr> outputs := ?os, outputAmount_cache := cache \<rparr>"
  have h: "length (hashBuffer (changeAddress p)) = 20" using p(2) by (simp add: pays_change_def)
  have s: "spends_channel C keys [x, None] ?t"
    using change_output_ok[OF h, of "a - (q + d)"] d(2) by (intro spends_outputs[OF p(3)]) simp_all
  have ty': "0 < ty" "ty < 256" "hasDefinedHashtype ty" "default_sigtype ty = ty" using ty by (auto simp: channel_sigtype_def default_sigtype_def)
  let ?g = "own_sig C (commitmentKey c) keys ty ?t"
  let ?t' = "add_sig keys [x, None] 0 ?g ?t"
  have j: "(0 :: nat) < 2" "None \<in> set [x, None]" by simp_all
  note sg = sign_channel[OF k(1,2) j(1) k(3) s j(2), of ty, unfolded ty'(4), OF ty'(1-3)]
  let ?p = "?q\<lparr> pay_tx := ?t' \<rparr>"
  let ?c = "c\<lparr> paymentTx := Some ?p \<rparr>"
  have run: "incrementPaymentBy C (IntN d) ty c = (Inr (), ?c)"
    using incrementPaymentBy_run[OF p(1,2), of C "IntN d" ty] u sg(1) by simp
  have "pays_change (?q\<lparr> pay_tx := ?t \<rparr>)" using updateValue_pays_change(1)[OF p(2), of "IntN d"] u by simp
  then have "pays_change ((?q\<lparr> pay_tx := ?t \<rparr>)\<lparr> pay_tx := ?t' \<rparr>)"
    by (rule pays_change_signed) (use spends_channel_hashable(2)[OF s] in \<open>auto simp: add_sig_def\<close>)
  then have pc: "pays_change ?p" by simp
  have s': "spends_channel C keys [Some ?g, None] ?t'" using sg(2) by simp
  note sg' = sign_channel[OF k(1,2) j(1) k(3) s', of ty, unfolded ty'(4)]
  have gs: "getSignatures C (commitmentKey c) ty ?t' = Inr [own_sig C (commitmentKey c) keys ty ?t']" using sg'(4) ty' by simp
  have cov: "covers C ?t' 0 (redeem_of keys) (keys ! 0) (sig_der (own_sig C (commitmentKey c) keys ty ?t')) ty"
    using own_sig_covers[OF k(1) s' k(2), of ty] ty' k(3) by simp
  have pay: "paying C keys a (q + d) ?c"
    unfolding paying_def using pc s' p d k by (intro conjI exI[of _ ?p] exI[of _ "Some ?g"]) simp_all
  have sats: "map satoshis (outputs (pay_tx ?p)) = (if q + d = a then [] else [IntN (a - (q + d))])"
    by (simp add: change_output_def)
  show ?thesis
    by (rule exI[of _ ?c], rule exI[of _ ?p], rule exI[of _ "own_sig C (commitmentKey c) keys ty ?t'"])
       (use run pay gs cov sats in simp)
qed

lemma opened_paying:
  assumes "openable C c now g"
  shows "paying C (com_publicKeys (commitmentTx c)) (refund_value (commitment_inputs c)) 0 (opened C c now g)"
proof -
  let ?keys = "com_publicKeys (commitmentTx c)" and ?v = "refund_value (commitment_inputs c)"
  let ?p = "first_payment C c ?keys (commitment_id C c) ?v"
  have r: "refundable C c" "good_hash C" "length (hashBuffer (refundAddress c)) = 20"
    "addr_type (refundAddress c) = PayToPublicKeyHash" "0 \<le> ?v" "good_keys C ?keys" "good_key C (commitmentKey c)" "privToPub C (commitmentKey c) = ?keys ! 0"
    using assms by (auto simp: openable_def refundable_def Let_def)
  have id: "length (commitment_id C c) = 32" using r(2) by (simp add: commitment_id_def good_hash_def)
  have "Script_fromBuffer [] = Inr []" using wf_fromBuffer[of "[]"] by simp
  then have s: "spends_channel C ?keys [None, None] (pay_tx ?p)"
    using id by (simp add: spends_channel_def first_payment_def multisig_input_def new_Input_def two_keys_def good_sigs_def tx_ok_def
        input_ok_def new_Transaction_def output_script_def script_getter_def change_output_def)
  have pc: "pays_change ?p" using r by (simp add: pays_change_def first_payment_def new_Transaction_def multisig_input_def)
  have sel: "amount ?p = IntN ?v" "paid ?p = IntN 0" by (simp_all add: first_payment_def zero_jsnum_def)
  have o: "paymentTx (opened C c now g) = Some ?p" "commitmentKey (opened C c now g) = commitmentKey c"
    by (simp_all add: opened_def Let_def) (simp add: set_refund_def)
  show ?thesis
    unfolding paying_def using o r s pc sel refund_value_bound[OF r(1)] by (intro conjI exI[of _ ?p] exI[of _ None]) simp_all
qed

section \<open>Theorems\<close>

text \<open>What a returned action says about its parts.\<close>

lemma returned_iff:
  "block (m # ms) s = (Inr u, s') \<longleftrightarrow> (\<exists>t. m s = (Inr (), t) \<and> block ms t = (Inr u, s'))"
  "block [] s = (Inr u, s') \<longleftrightarrow> s' = s"
  "lift r s = (Inr y, s') \<longleftrightarrow> r = Inr y \<and> s' = s"
  "checkState b msg s = (Inr u, s') \<longleftrightarrow> b \<and> s' = s"
  "modify f s = (Inr u, s') \<longleftrightarrow> s' = f s"
  by (auto simp: block_Cons lift_def checkState_def modify_def split: prod.splits sum.splits)

lemma bind_returned_iff: "bind m f s = (Inr x, s') \<longleftrightarrow> (\<exists>y t. m s = (Inr y, t) \<and> f y t = (Inr x, s'))"
  by (auto simp: bind_def split: prod.splits sum.splits)

lemma on_refund_returned_iff:
  "on_refund m c = (Inr x, c') \<longleftrightarrow> (\<exists>t t'. refundTx c = Some t \<and> m t = (Inr x, t') \<and> c' = set_refund t' c)"
  by (auto simp: on_refund_def here_def throw_def zoom_def set_refund_def split: option.splits prod.splits)

lemma on_commitment_returned_iff:
  "on_commitment m c = (Inr x, c') \<longleftrightarrow> (\<exists>t. m (com_tx (commitmentTx c)) = (Inr x, t) \<and> c' = set_commitment t c)"
  by (auto simp: on_commitment_def zoom_def set_commitment_def split: prod.splits)

lemma set_refund_same: "refundTx c = Some t \<Longrightarrow> set_refund t c = c"
  by (simp add: set_refund_def)

lemma first_output_iff: "first_output tx = Inr out \<longleftrightarrow> (\<exists>os. outputs tx = out # os)"
  by (auto simp: first_output_def split: list.splits)

lemmas returned = returned_iff bind_returned_iff on_refund_returned_iff on_commitment_returned_iff

lemma refundTx_set_commitment [simp]: "refundTx (set_commitment t c) = refundTx c"
  by (simp add: set_commitment_def)

text \<open>Signing changes neither what the inputs spend nor the outputs.\<close>

lemma keeps_setScript_ref: "keeps (\<lambda>i. spend_ref i = r) (Input_setScript s)"
  unfolding Input_setScript_def by (intro keeps_steps) (simp_all add: spend_ref_def)

lemma keeps_updateScript_ref: "keeps (\<lambda>i. spend_ref i = r) updateScript"
  unfolding updateScript_def
  by (rule keeps_here_all, split input_class.split) (intro conjI allI impI keeps_steps keeps_setScript_ref)

lemma keeps_addSignature_ref: "keeps (\<lambda>i. spend_ref i = r) (Input_addSignature C tx g)"
  unfolding Input_addSignature_def
  by (rule keeps_here_all, split input_class.split)
     (intro conjI allI impI keeps_steps keeps_setScript_ref keeps_updateScript_ref, simp add: set_signatures_def spend_ref_def split: input_class.split)

lemma keeps_applySignature_refs: "keeps (\<lambda>t. map spend_ref (inputs t) = r) (applySignature C g)"
  unfolding applySignature_def
proof (rule keeps_here_all)
  fix tx
  have "spend_ref (snd (Input_addSignature C tx g i)) = spend_ref i" for i
    using keepsD[OF keeps_addSignature_ref, of i "spend_ref i"] by simp
  then show "keeps (\<lambda>t. map spend_ref (inputs t) = r) (at_input (sig_inputIndex g) (Input_addSignature C tx g))"
    by (auto simp: keeps_def at_input_def split: prod.split dest!: arg_cong[of _ _ snd] intro!: map_update_same)
qed

lemma keeps_sign_refs: "keeps (\<lambda>t. map spend_ref (inputs t) = r) (Transaction_sign C k ty)"
  unfolding Transaction_sign_def by (intro keeps_steps keeps_block) (auto intro: keeps_applySignature_refs)

lemma keeps_amount_bytes: "keeps (\<lambda>t. Transaction_toBuffer t = b) (bind getInputAmount (\<lambda>a. bind getFee (\<lambda>f. return (a - f))))"
proof -
  have w: "Transaction_toBuffer (tx\<lparr> inputAmount_cache := a \<rparr>) = Transaction_toBuffer tx"
    "Transaction_toBuffer (tx\<lparr> outputAmount_cache := a \<rparr>) = Transaction_toBuffer tx" for tx a
    by (simp_all add: Transaction_toBuffer_def Transaction_toBufferWriter_def)
  have i: "keeps (\<lambda>t. Transaction_toBuffer t = b) getInputAmount" 
    unfolding getInputAmount_def by (intro keeps_steps) (simp add: w)
  have out: "keeps (\<lambda>t. Transaction_toBuffer t = b) getOutputAmount"
    unfolding getOutputAmount_def Let_def by (intro keeps_steps) (simp add: w)
  show ?thesis unfolding getFee_def estimateFee_def getUnspentValue_def by (intro keeps_steps i out)
qed

lemma validateRefund_returned:
  assumes "validateRefund C c = (Inr (), c')"
  shows "\<exists>t tx out s. refundTx c = Some t \<and> Transaction_sign C (commitmentKey c) 0 t = (Inr (), tx) \<and> refundTx c' = Some tx
    \<and> outputs tx = [out] \<and> output_script out = Inr s
    \<and> script_address C s = Inr (refundAddress c') \<and> isFullySigned C tx = Inr True \<and> first_input_verifies C tx = Inr True
    \<and> paymentTx c' \<noteq> None \<and> refundAddress c' = refundAddress c
    \<and> com_tx (commitmentTx c') = snd (bind getInputAmount (\<lambda>a. bind getFee (\<lambda>f. return (a - f))) (com_tx (commitmentTx c)))"
  using assms
  by (auto simp: validateRefund_def returned here_def set_refund_same channel_amount_def first_output_iff length_Suc_conv)
     (auto simp: set_refund_def set_commitment_def bind_def return_def)

text \<open>
  C2: whenever \<^verbatim>\<open>validateRefund\<close> returns, in whatever state it was called, the refund the consumer holds pays the refund address
  alone, is fully signed, and the interpreter accepts its input: the consumer can get its money back. Only then does it have a payment.
\<close>

theorem refund_safe:
  assumes "validateRefund C c = (Inr (), c')"
  shows "\<exists>tx out s. refundTx c' = Some tx \<and> outputs tx = [out] \<and> output_script out = Inr s
    \<and> script_address C s = Inr (refundAddress c') \<and> isFullySigned C tx = Inr True \<and> first_input_verifies C tx = Inr True
    \<and> paymentTx c' \<noteq> None \<and> refundAddress c' = refundAddress c"
  using validateRefund_returned[OF assms] by blast

text \<open>Keys with which a channel can be opened and signed.\<close>

definition channel_keys_ok :: "crypto \<Rightarrow> consumer_opts \<Rightarrow> bool" where
  "channel_keys_ok C opts \<longleftrightarrow> good_keys C (channel_keys C opts) \<and> good_key C (opt_commitmentKey opts)"

lemma funded_openable:
  assumes "consumer_ok C fk opts" "channel_keys_ok C opts" "funding_ok C fk us" "0 \<le> now" "now < 2147483648000"
  obtains c c1 where "new_Consumer C now f1 f2 opts = Inr c" "block (map (processFunding C) us) c = (Inr (), c1)"
    "refundable C c1" "com_publicKeys (commitmentTx c1) = channel_keys C opts"
    "\<And>g. refund_signature C (channel_keys C opts) (channel_refund C c1 now) g \<Longrightarrow> openable C c1 now g"
    "refund_value (commitment_inputs c1) = sum_list (map utxo_int us) - kb_fee (120 + 107 * int (length us))"
    "refundAddress c1 = refundAddress c"
proof -
  obtain ra where g: "good_hash C" "opt_fundingKey opts = Some fk" "key_ok (privToPub C (opt_commitmentKey opts))"
    "key_ok (opt_providerPublicKey opts)" "opt_refundAddress opts = Some ra"
    using assms(1) by (auto simp: consumer_ok_def)
  obtain c where c: "new_Consumer C now f1 f2 opts = Inr c" using new_Consumer_run[OF g(1,3,4,2,5), of now f1 f2] by blast
  let ?cs = "p2sh (channel_hash C (channel_keys C opts))" and ?is = "all_inputs (key_hash C fk) us"
  obtain c1 where c1: "block (map (processFunding C) us) c = (Inr (), c1)" "refundable C c1"
    "com_tx (commitmentTx c1) = funded_commitment ?cs (empty_commitment ?cs) ?is" "com_publicKeys (commitmentTx c1) = channel_keys C opts"
    "refundAddress c1 = refundAddress c" "commitmentKey c1 = opt_commitmentKey opts"
    using funded_refundable[OF assms(1,3) c] by blast
  have pays: "list_all (\<lambda>u. \<exists>v \<ge> 1195. pays_hash (key_hash C fk) v u) us" using assms(3) by (simp add: funding_ok_def spendable_def)
  have v: "refund_value (commitment_inputs c1) = sum_list (map utxo_int us) - kb_fee (120 + 107 * int (length us))"
    using in_total_all[OF pays] c1(3) by (simp add: refund_value_def pkh_size_def all_inputs_def funded_commitment_def)
  have "u32 (seconds now + ONE_DAY)" using seconds_round[OF assms(4,5)] assms(4,5) by simp
  then have "openable C c1 now g" if "refund_signature C (channel_keys C opts) (channel_refund C c1 now) g" for g
    using that c1(2,4,6) assms(2) by (simp add: openable_def channel_keys_ok_def channel_keys_def)
  then show thesis by (rule that[OF c c1(1,2,4) _ v c1(5)])
qed

lemma opened_simps:
  assumes "openable C c now g"
  shows "\<exists>tx. refundTx (opened C c now g) = Some tx \<and> isFullySigned C tx = Inr True \<and> first_input_verifies C tx = Inr True
    \<and> outputs tx = outputs (channel_refund C c now)"
  using refund_signed(3,4,5)[OF assms] by (auto simp: opened_def Let_def channel_refund_def refund_tx_of_def)


text \<open>The provider's own signature over the input alone is one that the consumer accepts.\<close>

lemma provider_signature:
  assumes "good_keys C keys" "good_key C sk" "privToPub C sk = keys ! 1" "spends_channel C keys [None, None] tx"
  shows "refund_signature C keys tx (own_sig C sk keys 0x82 tx)"
proof -
  have "hasDefinedHashtype 0x82" by (simp add: hasDefinedHashtype_def)
  then show ?thesis
    using good_own_sig[OF assms(2), of "0x82" keys tx] own_sig_covers[OF assms(1,4,2), of "0x82"] assms(3)
    by (simp add: refund_signature_def) (simp add: own_sig_def)
qed

lemma channel_refund_spends:
  assumes "refundable C c" "u32 (seconds now + ONE_DAY)"
  shows "spends_channel C (com_publicKeys (commitmentTx c)) [None, None] (channel_refund C c now)"
  unfolding channel_refund_def using assms
  by (intro refund_spends) (auto simp: refundable_def Let_def commitment_id_def good_hash_def)

lemma sample_keys: "good_key sample_crypto [2]" "good_key sample_crypto [3]" "channel_keys_ok sample_crypto sample_opts"
proof -
  show k: "good_key sample_crypto [2]" "good_key sample_crypto [3]"
    using sample_is_der by (simp_all add: good_key_def) (simp_all add: sample_crypto_def sample_der_def)
  show "channel_keys_ok sample_crypto sample_opts"
    using k good_key_pub[OF k(1)] good_key_pub[OF k(2)]
    by (simp add: channel_keys_ok_def good_keys_def channel_keys_def sample_opts_def) (simp add: sample_crypto_def)
qed

abbreviation sample_now :: int where "sample_now \<equiv> 1433116800000"

lemma sample_time: "(0 :: int) \<le> sample_now" "sample_now < (2147483648000 :: int)"
  by simp_all

text \<open>A sample channel, with the consumer before its refund is made and the provider's signature of the refund.\<close>

lemma sample_openable:
  "\<exists>c g. openable sample_crypto c sample_now g \<and> com_publicKeys (commitmentTx c) = channel_keys sample_crypto sample_opts
    \<and> refund_value (commitment_inputs c) = 199000"
proof -
  obtain c c1 where c: "refundable sample_crypto c1" "com_publicKeys (commitmentTx c1) = channel_keys sample_crypto sample_opts"
    "\<And>g. refund_signature sample_crypto (channel_keys sample_crypto sample_opts) (channel_refund sample_crypto c1 sample_now) g \<Longrightarrow>
       openable sample_crypto c1 sample_now g"
    "refund_value (commitment_inputs c1) = sum_list (map utxo_int [sample_utxo 0, sample_utxo 3])
       - kb_fee (120 + 107 * int (length [sample_utxo 0, sample_utxo 3]))"
    using funded_openable[OF sample_consumer_ok sample_keys(3) sample_funding_ok sample_time, of "[]" "[]"] by metis
  have v: "refund_value (commitment_inputs c1) = 199000" using c(4) pays_hash_int[OF sample_pays] by (simp add: kb_fee_def)
  have "u32 (seconds sample_now + ONE_DAY)" using seconds_round[OF sample_time] by simp
  from channel_refund_spends[OF c(1) this] c(2)
  have s: "spends_channel sample_crypto (channel_keys sample_crypto sample_opts) [None, None] (channel_refund sample_crypto c1 sample_now)"
    by simp
  have "privToPub sample_crypto [3] = channel_keys sample_crypto sample_opts ! 1" by (simp add: channel_keys_def sample_opts_def)
  from provider_signature[OF _ sample_keys(2) this s] sample_keys(3) c(2,3) v show ?thesis unfolding channel_keys_ok_def by blast
qed

theorem refund_safe_witness:
  "\<exists>c c' tx. validateRefund sample_crypto c = (Inr (), c') \<and> refundTx c' = Some tx \<and> first_input_verifies sample_crypto tx = Inr True"
proof -
  obtain c g where o: "openable sample_crypto c sample_now g" using sample_openable by blast
  from validateRefund_run[OF this] obtain c2 where "validateRefund sample_crypto c2 = (Inr (), opened sample_crypto c sample_now g)"
    by (auto simp: block_Cons split: prod.splits sum.splits)
  with refund_safe[OF this] show ?thesis by blast
qed


lemma increments_run:
  assumes "paying C keys a q c" "list_all (\<lambda>(d, ty). 0 \<le> d \<and> channel_sigtype ty) ds" "q + sum_list (map fst ds) \<le> a"
  shows "\<exists>c'. block (map (\<lambda>(d, ty). incrementPaymentBy C (IntN d) ty) ds) c = (Inr (), c') \<and> paying C keys a (q + sum_list (map fst ds)) c'
    \<and> refundTx c' = refundTx c \<and> commitmentTx c' = commitmentTx c"
  using assms
proof (induction ds arbitrary: c q)
  case (Cons x ds)
  obtain d ty where x: "x = (d, ty)" by (cases x)
  have "0 \<le> sum_list (map fst ds)" using Cons.prems(2) by (intro sum_list_nonneg) (auto simp: list_all_iff)
  then obtain c1 where c1: "incrementPaymentBy C (IntN d) ty c = (Inr (), c1)" "paying C keys a (q + d) c1" "refundTx c1 = refundTx c"
    "commitmentTx c1 = commitmentTx c"
    using increment_step[OF Cons.prems(1), of d ty] Cons.prems(2,3) x by auto
  from Cons.IH[OF c1(2)] Cons.prems(2,3) x c1 show ?case by (auto simp: block_Cons algebra_simps)
qed simp



end
