(* ===== verification/Bitmesh.thy ===== *)
theory Bitmesh
  imports Refund
begin

unbundle bit_operations_syntax

text \<open>
  \<^verbatim>\<open>bitmesh.js\<close>, the client in the page: the states of a channel and of the page, the messages from and to
  the provider and the timers. The global variables are one record, and a handler is an action on it
  that runs to its end or throws; what it has changed by then stays. Requests and messages that
  leave the page are logged in the record. Variables that hold a Number and start undefined start as
  \<open>NaN\<close>, which every operation the code applies to them treats alike.
\<close>

section \<open>Data\<close>

datatype channel_states = BEGIN | SENT_VERSION | RECEIVED_VERSION | RECEIVED_PRICE | SENT_FUNDING_ADDRESS | RECEIVED_FUNDING
  | INITIATED | SENT_REFUND | RECEIVED_REFUND | SENT_CONTRACT | RECEIVED_CHANNEL_OPEN | RECEIVED_ERROR | SENT_ERROR
  | RECEIVED_CLOSE | SENT_CLOSE | WEBSOCKET_CLOSED

datatype ui_states = UI_BEGIN | CONNECTED | USER_DISCONNECTED | FUNDS_DEPLETED | MULTIPLE_BITMESH_TABS_OPEN

datatype output_states = UNPROCESSED | ATTACHED | DEPLETED

datatype ready_state = CONNECTING | OPEN | CLOSING | CLOSED

datatype error_code = SYNTAX_ERROR | NO_ACCEPTABLE_VERSION | BAD_TRANSACTION | OTHER

text \<open>Messages, with the fields that the client reads or writes; a missing part of an incoming message is \<open>None\<close>.\<close>

record version_msg =
  major :: int
  minor :: int

record price_msg =
  proposed_price :: long
  multisig_key :: bytes

record initiate_msg =
  min_accepted_channel_size :: long
  expire_time_secs :: long
  min_payment :: long

datatype incoming = SERVER_VERSION "version_msg option" | PRICE "price_msg option" | FUNDING "bytes option"
  | INITIATE "initiate_msg option" | RETURN_REFUND "bytes option" | CHANNEL_OPEN | PAYMENT_ACK | CLOSE | ERROR "error_code option"
  | OTHER_TYPE

datatype outgoing = CLIENT_VERSION "bytes option" | FUNDING_ADDRESS address | PROVIDE_REFUND bytes bytes
  | PROVIDE_CONTRACT bytes long bytes | UPDATE_PAYMENT long bytes | CLOSE_CHANNEL | SEND_ERROR error_code

text \<open>What the page shows. Numbers are kept as they are handed to the page, before they become text.\<close>

datatype prompt = NoPrompt | OutOfFunds | MinimumAmount jsnum jsnum | ClosedUnexpectedly | AlreadyDepleted

datatype shown = Zeros | Padded jsnum | Plain jsnum

datatype price_unit = MicroBTC | Satoshis

record page =
  repayment_prompt :: prompt
  disconnect_button :: bool
  reconnect_button :: bool
  starting_status :: bool
  online_status :: bool
  disconnected_status :: bool
  mult_tabs_status :: bool
  multiple_tabs_gif :: bool
  qr_div :: bool
  uri_string :: "address option"
  price_display :: "(jsnum \<times> price_unit \<times> jsnum option) option"
  money_spent :: "(jsnum \<times> jsnum option) option"
  time_display :: "(shown \<times> shown \<times> shown) option"
  alerts :: "prompt list"

record funding_output =
  fo_utxo :: utxo
  output_state :: output_states

text \<open>
  The variable \<^verbatim>\<open>refund_tx\<close> holds the same object as the consumer's \<^verbatim>\<open>refundTx\<close> from \<^verbatim>\<open>setupRefund\<close> on; once
  the consumer is replaced it holds the only reference to the old one.
\<close>

datatype refund_ref = NoRefund | OfConsumer | Detached transaction

record client =
  channel_state :: "channel_states option"
  ui_state :: "ui_states option"
  min_escrow :: jsnum
  min_initial_payment :: jsnum
  time_purchased :: jsnum
  total_time_purchased :: jsnum
  escrow_amount :: jsnum
  price_per_second :: jsnum
  client_key :: "bytes option"
  server_key :: "bytes option"
  refund_address :: "address option"
  refund_tx :: refund_ref
  refund_amount :: jsnum
  funding_keys :: "bytes option list"
  funding_key :: "bytes option"
  funding_address :: "address option"
  the_consumer :: "consumer option"
  coin_width :: jsnum
  payment_update_timer :: bool
  waiting_to_initiate :: bool
  open_channel :: bool
  attempt_reopen_channel :: bool
  expiration_date :: "long option"
  previous_contract_hash :: "bytes option"
  num_funding_outputs :: nat
  funding_outputs_used :: nat
  funding_outputs :: "funding_output list"
  funding_tx_hashes :: "bytes list"
  last_increment :: jsnum
  last_payment_update_time :: jsnum
  received_ack :: bool
  fullyUsedUp :: bool
  total_paid :: jsnum
  time_spent :: jsnum
  total_time_spent :: jsnum
  num_unacked_payment_updates :: nat
  websocket :: "ready_state option"
  websocket_open :: bool
  multiple_tabs_open :: bool
  num_connection_retries :: nat
  USD_price :: "jsnum option"
  the_page :: page
  sent :: "outgoing list"
  posted :: "transaction list"
  reconnects :: "jsnum list"
  ticker_requests :: nat

abbreviation (input) fee :: jsnum where "fee \<equiv> IntN 1000"
abbreviation (input) max_unacked_payment_updates :: nat where "max_unacked_payment_updates \<equiv> 5"
abbreviation (input) POLICY_VIOLATION :: int where "POLICY_VIOLATION \<equiv> 1008"

text \<open>What a handler finds around it: the functions of the crypto library, the clock in milliseconds and the random keys it may draw.\<close>

record env =
  env_crypto :: crypto
  env_now :: int
  env_fresh1 :: bytes
  env_fresh2 :: bytes

type_synonym 'a clm = "(client, 'a) action"

definition initial :: "page \<Rightarrow> client" where
  "initial p = \<lparr> channel_state = None, ui_state = None, min_escrow = IntN 1000, min_initial_payment = IntN 1000, time_purchased = 0,
     total_time_purchased = 0, escrow_amount = 0, price_per_second = 1, client_key = None, server_key = None, refund_address = None,
     refund_tx = NoRefund, refund_amount = NaN, funding_keys = [], funding_key = None, funding_address = None, the_consumer = None,
     coin_width = NaN, payment_update_timer = False, waiting_to_initiate = False, open_channel = True, attempt_reopen_channel = False,
     expiration_date = None, previous_contract_hash = None, num_funding_outputs = 0, funding_outputs_used = 0, funding_outputs = [],
     funding_tx_hashes = [], last_increment = NaN, last_payment_update_time = NaN, received_ack = False, fullyUsedUp = False,
     total_paid = 0, time_spent = 0, total_time_spent = 0, num_unacked_payment_updates = 0, websocket = None, websocket_open = False,
     multiple_tabs_open = False, num_connection_retries = 0, USD_price = None, the_page = p, sent = [], posted = [], reconnects = [],
     ticker_requests = 0 \<rparr>"

definition undefined_error :: exn where
  "undefined_error = TypeError ''undefined has no properties''"

section \<open>Tools\<close>

definition on_page :: "(page \<Rightarrow> page) \<Rightarrow> unit clm" where
  "on_page f = modify (\<lambda>s. s\<lparr> the_page := f (the_page s) \<rparr>)"

definition on_consumer :: "'a conm \<Rightarrow> 'a clm" where
  "on_consumer m = here (\<lambda>s. case the_consumer s of None \<Rightarrow> throw undefined_error
     | Some c \<Rightarrow> zoom (\<lambda>_. c) (\<lambda>c s. s\<lparr> the_consumer := Some c \<rparr>) m)"

text \<open>The consumer's payment, as far as it is only read.\<close>

definition with_payment :: "(payment \<Rightarrow> 'a clm) \<Rightarrow> 'a clm" where
  "with_payment f = here (\<lambda>s. case the_consumer s of None \<Rightarrow> throw undefined_error
     | Some c \<Rightarrow> (case paymentTx c of None \<Rightarrow> throw undefined_error | Some p \<Rightarrow> f p))"

text \<open>
  \<^verbatim>\<open>get_string_from_buffer\<close>: two digits for each byte between offset and limit. The strings it makes are
  read back as hexadecimal by their users, so the model's handlers work on the bytes themselves.
\<close>

definition byte_hex :: "byte \<Rightarrow> string" where
  "byte_hex b = (if uint b < 16 then ''0'' @ [hex_digit (uint b)] else [hex_digit (uint b div 16), hex_digit (uint b mod 16)])"

definition get_string_from_buffer :: "bytes \<Rightarrow> nat \<Rightarrow> nat \<Rightarrow> string" where
  "get_string_from_buffer b offset stop_at = concat (map (\<lambda>i. byte_hex (b ! i)) [offset..<stop_at])"

definition reverse_array :: "bytes \<Rightarrow> bytes" where
  "reverse_array b = map (\<lambda>i. b ! (length b - i - 1)) [0..<length b]"

definition send_message :: "outgoing \<Rightarrow> unit clm" where
  "send_message msg = here (\<lambda>s. case websocket s of None \<Rightarrow> throw undefined_error
     | Some r \<Rightarrow> if r = OPEN then modify (\<lambda>s. s\<lparr> sent := sent s @ [msg] \<rparr>) else return ())"

definition reset_counters :: "unit clm" where
  "reset_counters = modify (\<lambda>s. s\<lparr> num_connection_retries := 0, time_spent := 0, time_purchased := 0 \<rparr>)"

definition cancel_payments :: "unit clm" where
  "cancel_payments = modify (\<lambda>s. if payment_update_timer s then s\<lparr> payment_update_timer := False \<rparr> else s)"

definition set_funding_key :: "crypto \<Rightarrow> bytes \<Rightarrow> unit clm" where
  "set_funding_key C key = modify (\<lambda>s. s\<lparr> funding_keys := funding_keys s @ [funding_key s], funding_key := Some key,
     funding_address := Some (key_address C (privToPub C key)) \<rparr>)"

definition init_keys :: "env \<Rightarrow> unit clm" where
  "init_keys E = block [
     set_funding_key (env_crypto E) (env_fresh1 E),
     modify (\<lambda>s. s\<lparr> client_key := Some (env_fresh2 E) \<rparr>)]"

definition create_uri :: "unit clm" where
  "create_uri = here (\<lambda>s. case funding_address s of None \<Rightarrow> throw undefined_error
     | Some a \<Rightarrow> on_page (\<lambda>p. p\<lparr> uri_string := Some a \<rparr>))"

text \<open>\<^verbatim>\<open>fromWIF\<close> gets the property \<^verbatim>\<open>value\<close> of a jQuery object, which is undefined, and so draws a random key.\<close>

definition restore_wif_key :: "env \<Rightarrow> unit clm" where
  "restore_wif_key E = block [set_funding_key (env_crypto E) (env_fresh1 E), create_uri]"

definition get_bitcoin_price :: "unit clm" where
  "get_bitcoin_price = modify (\<lambda>s. s\<lparr> ticker_requests := ticker_requests s + 1 \<rparr>)"

definition start_websockets :: "unit clm" where
  "start_websockets = modify (\<lambda>s. s\<lparr> websocket := Some CONNECTING \<rparr>)"

definition convert_satoshis_to_usd :: "jsnum \<Rightarrow> jsnum \<Rightarrow> jsnum" where
  "convert_satoshis_to_usd usd n = usd * n / IntN 100000000"

definition get_time_left :: "client \<Rightarrow> jsnum" where
  "get_time_left s = escrow_amount s / price_per_second s - time_spent s"

definition pad :: "jsnum \<Rightarrow> shown" where
  "pad n = (if n < IntN 10 then Padded n else Plain n)"

definition update_display :: "unit clm" where
  "update_display = here (\<lambda>s. let time_left = get_time_left s;
       time = (if time_left > 0 then
           (pad (js_floor (time_left / IntN 3600)),
            pad (js_floor (jsrem time_left (IntN 3600) / IntN 60)),
            pad (js_floor (jsrem time_left (IntN 60))))
         else (Zeros, Zeros, Zeros));
       satoshis_per_hour = price_per_second s * IntN 3600;
       price = (if satoshis_per_hour \<ge> IntN 100 then (satoshis_per_hour / IntN 100, MicroBTC) else (price_per_second s, Satoshis))
     in on_page (\<lambda>p. p\<lparr>
          price_display := Some (fst price, snd price, map_option (\<lambda>usd. convert_satoshis_to_usd usd satoshis_per_hour) (USD_price s)),
          money_spent := Some (total_paid s / IntN 100, map_option (\<lambda>usd. convert_satoshis_to_usd usd (total_paid s)) (USD_price s)),
          time_display := Some time \<rparr>))"

definition receive_ticker :: "jsnum \<Rightarrow> unit clm" where
  "receive_ticker usd = block [modify (\<lambda>s. s\<lparr> USD_price := Some usd \<rparr>), update_display]"

text \<open>The sum over the outputs that are not used up.\<close>

fun escrow_total :: "jsnum \<Rightarrow> funding_output list \<Rightarrow> jsnum" where
  "escrow_total a [] = a"
| "escrow_total a (u # us) = escrow_total (if output_state u \<noteq> DEPLETED then a + utxo_satoshis (fo_utxo u) else a) us"

definition update_escrow_amount :: "unit clm" where
  "update_escrow_amount = modify (\<lambda>s.
     let total = escrow_total 0 (funding_outputs s); a = total - fee; w = a / IntN 100
     in s\<lparr> escrow_amount := a, coin_width := (if w < price_per_second s then price_per_second s else w) \<rparr>)"

section \<open>State changes\<close>

definition channel_transition_is_valid :: "channel_states option \<Rightarrow> channel_states \<Rightarrow> bool" where
  "channel_transition_is_valid old new \<longleftrightarrow>
     (old = None \<and> new = BEGIN) \<or>
     (old = Some BEGIN \<and> new = SENT_VERSION) \<or>
     (old = Some WEBSOCKET_CLOSED \<and> new = SENT_VERSION) \<or>
     (old = Some SENT_VERSION \<and> new = SENT_VERSION) \<or>
     (old = Some SENT_VERSION \<and> new = RECEIVED_VERSION) \<or>
     (old = Some RECEIVED_VERSION \<and> new = RECEIVED_PRICE) \<or>
     (old = Some RECEIVED_VERSION \<and> new = RECEIVED_CHANNEL_OPEN) \<or>
     (old = Some RECEIVED_PRICE \<and> new = SENT_FUNDING_ADDRESS) \<or>
     (old = Some RECEIVED_PRICE \<and> new = INITIATED) \<or>
     (old = Some SENT_FUNDING_ADDRESS \<and> new = RECEIVED_FUNDING) \<or>
     (old = Some RECEIVED_FUNDING \<and> new = INITIATED) \<or>
     (old = Some INITIATED \<and> new = SENT_REFUND) \<or>
     (old = Some SENT_REFUND \<and> new = RECEIVED_REFUND) \<or>
     (old = Some RECEIVED_REFUND \<and> new = SENT_CONTRACT) \<or>
     (old = Some SENT_CONTRACT \<and> new = RECEIVED_CHANNEL_OPEN) \<or>
     (old = Some RECEIVED_CHANNEL_OPEN \<and> new = RECEIVED_CLOSE) \<or>
     (old = Some RECEIVED_CLOSE \<and> new = SENT_VERSION) \<or>
     (old = Some SENT_CLOSE \<and> new = SENT_VERSION) \<or>
     (old = Some SENT_ERROR \<and> new = SENT_VERSION) \<or>
     new = RECEIVED_CLOSE \<or> new = RECEIVED_ERROR \<or> new = SENT_ERROR \<or> new = SENT_CLOSE \<or> new = WEBSOCKET_CLOSED \<or>
     new = RECEIVED_FUNDING"

text \<open>
  \<^verbatim>\<open>set_channel_state\<close> up to its \<^verbatim>\<open>switch\<close>. For the states whose case is empty it is all of
  it; the functions that the other cases call come first and change to such states only, or to
  \<open>INITIATED\<close>, whose case is \<open>send_refund\<close>.
\<close>

definition change_state :: "channel_states \<Rightarrow> unit clm" where
  "change_state new = here (\<lambda>s. if \<not> channel_transition_is_valid (channel_state s) new then throw IllegalTransition
     else modify (\<lambda>s. s\<lparr> channel_state := Some new \<rparr>))"

definition ui_transition_is_valid :: "ui_states option \<Rightarrow> ui_states \<Rightarrow> bool" where
  "ui_transition_is_valid old new \<longleftrightarrow>
     (old = None \<and> new = UI_BEGIN) \<or>
     (old = Some UI_BEGIN \<and> new = CONNECTED) \<or>
     new = MULTIPLE_BITMESH_TABS_OPEN \<or>
     (old = Some FUNDS_DEPLETED \<and> new = CONNECTED) \<or>
     (old = Some FUNDS_DEPLETED \<and> new = FUNDS_DEPLETED) \<or>
     (old = Some CONNECTED \<and> new = CONNECTED) \<or>
     (old = Some CONNECTED \<and> new = USER_DISCONNECTED) \<or>
     (old = Some USER_DISCONNECTED \<and> new = CONNECTED) \<or>
     (old = Some CONNECTED \<and> new = FUNDS_DEPLETED)"

definition show_state :: "ui_states \<Rightarrow> page \<Rightarrow> page" where
  "show_state new p = p\<lparr>
     repayment_prompt := (if new = FUNDS_DEPLETED then OutOfFunds else NoPrompt),
     disconnect_button := (new = CONNECTED),
     reconnect_button := (new = USER_DISCONNECTED),
     starting_status := (new = UI_BEGIN),
     online_status := (new = CONNECTED),
     disconnected_status := (new = USER_DISCONNECTED \<or> new = FUNDS_DEPLETED),
     mult_tabs_status := (new = MULTIPLE_BITMESH_TABS_OPEN),
     multiple_tabs_gif := (new = MULTIPLE_BITMESH_TABS_OPEN),
     qr_div := (new \<noteq> MULTIPLE_BITMESH_TABS_OPEN) \<rparr>"

text \<open>An illegal transition of the page's state is only logged.\<close>

definition set_ui_state :: "ui_states \<Rightarrow> unit clm" where
  "set_ui_state new = block [
     modify (\<lambda>s. s\<lparr> ui_state := Some new \<rparr>),
     (if new = UI_BEGIN then update_display else return ()),
     on_page (show_state new)]"

section \<open>Channel functions\<close>

definition send_version :: "unit clm" where
  "send_version = block [
     here (\<lambda>s. send_message (CLIENT_VERSION (if attempt_reopen_channel s then previous_contract_hash s else None))),
     change_state SENT_VERSION]"

definition start_payment_channel :: "unit clm" where
  "start_payment_channel = block [cancel_payments, send_version]"

definition exit_with_error_code :: "error_code \<Rightarrow> unit clm" where
  "exit_with_error_code code = block [
     send_message (SEND_ERROR code),
     modify (\<lambda>s. s\<lparr> attempt_reopen_channel := True \<rparr>),
     on_page (\<lambda>p. p\<lparr> disconnect_button := False, reconnect_button := False \<rparr>),
     change_state SENT_ERROR]"

definition send_funding_address :: "unit clm" where
  "send_funding_address = block [
     here (\<lambda>s. case funding_address s of None \<Rightarrow> throw undefined_error | Some a \<Rightarrow> send_message (FUNDING_ADDRESS a)),
     create_uri,
     change_state SENT_FUNDING_ADDRESS]"

definition send_refund :: "env \<Rightarrow> unit clm" where
  "send_refund E = block [
     on_consumer (setupRefund (env_crypto E) (env_now E)),
     modify (\<lambda>s. s\<lparr> refund_tx := OfConsumer \<rparr>),
     here (\<lambda>s. case client_key s of None \<Rightarrow> throw undefined_error | Some k \<Rightarrow>
       bind (on_consumer (on_refund (here (\<lambda>tx. lift (Transaction_toBuffer tx))))) (\<lambda>b.
         send_message (PROVIDE_REFUND (privToPub (env_crypto E) k) b))),
     change_state SENT_REFUND]"

text \<open>\<open>attach\<close> is the loop of \<^verbatim>\<open>create_payment_channel\<close>, from an index up.\<close>

definition attach_one :: "crypto \<Rightarrow> nat \<Rightarrow> unit clm" where
  "attach_one C i = here (\<lambda>s. if i < length (funding_outputs s)
     then block [
       on_consumer (processFunding C (fo_utxo (funding_outputs s ! i))),
       modify (\<lambda>s. s\<lparr> funding_outputs := (funding_outputs s)[i := (funding_outputs s ! i)\<lparr> output_state := ATTACHED \<rparr>] \<rparr>)]
     else throw (InvalidArgument ''Can only process an array of objects or an object''))"

definition consumer_options :: "env \<Rightarrow> bytes \<Rightarrow> client \<Rightarrow> consumer_opts" where
  "consumer_options E k s = \<lparr> opt_expires = map_option LongTime (expiration_date s),
     opt_commitmentKey = (case client_key s of Some c \<Rightarrow> c | None \<Rightarrow> env_fresh1 E),
     opt_providerPublicKey = k, opt_providerAddress = Some (key_address (env_crypto E) k),
     opt_fundingKey = funding_key s, opt_refundAddress = refund_address s \<rparr>"

definition detach_refund :: "client \<Rightarrow> refund_ref" where
  "detach_refund s = (case refund_tx s of
     OfConsumer \<Rightarrow> (case the_consumer s of None \<Rightarrow> NoRefund
       | Some c \<Rightarrow> (case refundTx c of None \<Rightarrow> NoRefund | Some t \<Rightarrow> Detached t))
   | r \<Rightarrow> r)"

definition create_payment_channel :: "env \<Rightarrow> unit clm" where
  "create_payment_channel E = block [
     here (\<lambda>s. case server_key s of None \<Rightarrow> throw undefined_error | Some k \<Rightarrow>
       bind (lift (new_Consumer (env_crypto E) (env_now E) (env_fresh1 E) (env_fresh2 E) (consumer_options E k s))) (\<lambda>c.
         modify (\<lambda>s. s\<lparr> refund_tx := detach_refund s, the_consumer := Some c \<rparr>))),
     here (\<lambda>s. block (map (attach_one (env_crypto E)) [funding_outputs_used s..<num_funding_outputs s])),
     modify (\<lambda>s. s\<lparr> funding_outputs_used := num_funding_outputs s \<rparr>)]"

definition initiate :: "env \<Rightarrow> unit clm" where
  "initiate E = block [
     update_escrow_amount,
     here (\<lambda>s. if escrow_amount s < min_escrow s
       then block [
         modify (\<lambda>s. s\<lparr> waiting_to_initiate := True \<rparr>),
         on_page (\<lambda>p. p\<lparr> repayment_prompt := MinimumAmount (min_escrow s) (escrow_amount s),
           alerts := alerts p @ [MinimumAmount (min_escrow s) (escrow_amount s)] \<rparr>)]
       else block [
         modify (\<lambda>s. s\<lparr> waiting_to_initiate := False \<rparr>),
         modify (\<lambda>s. s\<lparr> attempt_reopen_channel := True \<rparr>),
         create_payment_channel E,
         change_state INITIATED,
         send_refund E])]"

definition get_payment_update_signature :: "crypto \<Rightarrow> int \<Rightarrow> bytes clm" where
  "get_payment_update_signature C ty = here (\<lambda>s. case client_key s of None \<Rightarrow> throw undefined_error | Some k \<Rightarrow>
     with_payment (\<lambda>p. bind (lift (getSignatures C k ty (pay_tx p))) (\<lambda>gs. case gs of
       [] \<Rightarrow> throw undefined_error
     | g # _ \<Rightarrow> return (sig_der g @ [word_of_int ty]))))"

definition contract_hash :: "crypto \<Rightarrow> consumer \<Rightarrow> exn + bytes" where
  "contract_hash C c = map_sum id (\<lambda>b. reverse_array (sha256sha256 C b)) (Transaction_toBuffer (com_tx (commitmentTx c)))"

definition send_contract :: "env \<Rightarrow> unit clm" where
  "send_contract E = (let C = env_crypto E; ty = 0x83 in block [
     bind (on_consumer (here (\<lambda>c. lift (contract_hash C c)))) (\<lambda>h. modify (\<lambda>s. s\<lparr> previous_contract_hash := Some h \<rparr>)),
     here (\<lambda>s. on_consumer (incrementPaymentBy C (min_initial_payment s) ty)),
     modify (\<lambda>s. s\<lparr> last_increment := min_initial_payment s \<rparr>),
     bind (get_payment_update_signature C ty) (\<lambda>signature.
       with_payment (\<lambda>p. case outputs (pay_tx p) of [] \<Rightarrow> throw undefined_error | out # _ \<Rightarrow> block [
         modify (\<lambda>s. s\<lparr> refund_amount := satoshis out \<rparr>),
         bind (on_consumer (here (\<lambda>c. lift (Transaction_toBuffer (com_tx (commitmentTx c)))))) (\<lambda>b.
           here (\<lambda>s. send_message (PROVIDE_CONTRACT b (fromNumber (refund_amount s) True) signature)))])),
     change_state SENT_CONTRACT])"

text \<open>All of \<^verbatim>\<open>set_channel_state\<close>.\<close>

definition set_channel_state :: "env \<Rightarrow> channel_states \<Rightarrow> unit clm" where
  "set_channel_state E new = block [
     change_state new,
     (case new of
        BEGIN \<Rightarrow> block [get_bitcoin_price, init_keys E, reset_counters, start_websockets]
      | RECEIVED_PRICE \<Rightarrow> here (\<lambda>s. if num_funding_outputs s > funding_outputs_used s then initiate E else send_funding_address)
      | RECEIVED_FUNDING \<Rightarrow> here (\<lambda>s. if waiting_to_initiate s then initiate E else modify (\<lambda>s. s\<lparr> waiting_to_initiate := True \<rparr>))
      | INITIATED \<Rightarrow> send_refund E
      | RECEIVED_REFUND \<Rightarrow> send_contract E
      | RECEIVED_ERROR \<Rightarrow> start_payment_channel
      | RECEIVED_CLOSE \<Rightarrow> start_payment_channel
      | SENT_CLOSE \<Rightarrow> start_payment_channel
      | _ \<Rightarrow> return ())]"

section \<open>Messages\<close>

definition receive_version :: "env \<Rightarrow> version_msg \<Rightarrow> unit clm" where
  "receive_version E v =
    (if major v \<noteq> 1 \<or> minor v < 1 then exit_with_error_code NO_ACCEPTABLE_VERSION
     else set_channel_state E RECEIVED_VERSION)"

definition receive_price :: "env \<Rightarrow> price_msg \<Rightarrow> unit clm" where
  "receive_price E m = block [
     reset_counters,
     modify (\<lambda>s. s\<lparr> price_per_second := toNumber (proposed_price m) \<rparr>),
     here (\<lambda>s. if price_per_second s < 0 then exit_with_error_code OTHER
       else if \<not> pk_valid (env_crypto E) (multisig_key m) then throw (InvalidArgument ''Invalid DER format public key'')
       else block [
         modify (\<lambda>s. s\<lparr> server_key := Some (multisig_key m) \<rparr>),
         set_channel_state E RECEIVED_PRICE])]"

text \<open>The first input whose script satisfies a test; reading a script may throw.\<close>

fun find_input :: "(script \<Rightarrow> exn + bool) \<Rightarrow> tx_input list \<Rightarrow> exn + script option" where
  "find_input P [] = Inr None"
| "find_input P (i # is) = (case input_script i of Inl e \<Rightarrow> Inl e | Inr s \<Rightarrow>
     case P s of Inl e \<Rightarrow> Inl e | Inr b \<Rightarrow> if b then Inr (Some s) else find_input P is)"

definition refund_script :: "crypto \<Rightarrow> transaction \<Rightarrow> exn + script option" where
  "refund_script C tx = (case find_input (\<lambda>s. Inr (isPublicKeyHashIn C s)) (inputs tx) of Inl e \<Rightarrow> Inl e
     | Inr (Some s) \<Rightarrow> Inr (Some s)
     | Inr None \<Rightarrow> find_input (isScriptHashIn C) (inputs tx))"

text \<open>The loop over the outputs of a funding transaction, from index \<open>j\<close>; it answers the amount that pays us.\<close>

definition add_output :: "bytes \<Rightarrow> nat \<Rightarrow> script \<Rightarrow> tx_output \<Rightarrow> unit clm" where
  "add_output txid j scr out =
     bind (lift (UnspentOutput \<lparr> txId = txid, utxo_outputIndex = int j, utxo_script = scr, utxo_satoshis = satoshis out \<rparr>)) (\<lambda>u. block [
       modify (\<lambda>s. s\<lparr> funding_outputs := funding_outputs s @ [\<lparr> fo_utxo = u, output_state = UNPROCESSED \<rparr>] \<rparr>),
       modify (\<lambda>s. s\<lparr> funding_tx_hashes := funding_tx_hashes s @ [txid] \<rparr>),
       modify (\<lambda>s. s\<lparr> num_funding_outputs := num_funding_outputs s + 1 \<rparr>)])"

fun add_outputs :: "crypto \<Rightarrow> bytes \<Rightarrow> nat \<Rightarrow> jsnum \<Rightarrow> tx_output list \<Rightarrow> jsnum clm" where
  "add_outputs C txid j a [] = return a"
| "add_outputs C txid j a (out # os) = bind (lift (output_script out)) (\<lambda>scr. bind (lift (getAddressInfo C scr)) (\<lambda>addr. here (\<lambda>s.
     case funding_address s of None \<Rightarrow> throw undefined_error
     | Some f \<Rightarrow> if addr = Some f
         then bind (add_output txid j scr out) (\<lambda>_. add_outputs C txid (j + 1) (a + satoshis out) os)
         else add_outputs C txid (j + 1) a os)))"

definition receive_funding :: "env \<Rightarrow> bytes \<Rightarrow> unit clm" where
  "receive_funding E b = (let C = env_crypto E in
     bind (lift (Transaction_fromBuffer b)) (\<lambda>tx. bind (lift (Transaction_hash C tx)) (\<lambda>txid. here (\<lambda>s.
     if txid \<in> set (funding_tx_hashes s) then return ()
     else bind (lift (refund_script C tx)) (\<lambda>r. case r of
       None \<Rightarrow> exit_with_error_code BAD_TRANSACTION
     | Some scr \<Rightarrow> bind (lift (getAddressInfo C scr)) (\<lambda>addr. block [
         modify (\<lambda>s. s\<lparr> refund_address := addr \<rparr>),
         bind (add_outputs C txid 0 0 (outputs tx)) (\<lambda>funding_amount.
           if funding_amount \<le> 0 then exit_with_error_code BAD_TRANSACTION
           else block [update_escrow_amount, set_channel_state E RECEIVED_FUNDING])]))))))"

text \<open>\<^verbatim>\<open>min_escrow\<close> becomes a \<^verbatim>\<open>Long\<close>; comparing it with a number goes through its decimal text, whose value is that of \<^verbatim>\<open>toNumber\<close>.\<close>

definition receive_initiate :: "env \<Rightarrow> initiate_msg \<Rightarrow> unit clm" where
  "receive_initiate E m = block [
     modify (\<lambda>s. s\<lparr> min_escrow := toNumber (min_accepted_channel_size m), expiration_date := Some (expire_time_secs m),
       min_initial_payment := toNumber (min_payment m) \<rparr>),
     here (\<lambda>s. if waiting_to_initiate s then initiate E else return ())]"

text \<open>\<^verbatim>\<open>new TransactionSignature(...)\<close> from the bytes of a DER signature.\<close>

definition new_TransactionSignature :: "bytes \<Rightarrow> bytes \<Rightarrow> bytes option \<Rightarrow> int \<Rightarrow> exn + tx_signature" where
  "new_TransactionSignature der txid pub ty = (case pub of
     None \<Rightarrow> Inl (InvalidArgument ''First argument is required, please include public key data.'')
   | Some k \<Rightarrow> if der = [] then Inl (InvalidArgument ''signature'')
     else case fromDER der True of Inl e \<Rightarrow> Inl e | Inr g \<Rightarrow>
       map_sum id (\<lambda>d. \<lparr> sig_publicKey = k, sig_prevTxId = txid, sig_outputIndex = 0, sig_inputIndex = 0, sig_der = d, sigtype = ty \<rparr>)
         (toDER g))"

definition on_refund_tx :: "'a txm \<Rightarrow> 'a clm" where
  "on_refund_tx m = here (\<lambda>s. case refund_tx s of NoRefund \<Rightarrow> throw undefined_error
     | OfConsumer \<Rightarrow> on_consumer (on_refund m)
     | Detached t \<Rightarrow> zoom (\<lambda>_. t) (\<lambda>t s. s\<lparr> refund_tx := Detached t \<rparr>) m)"

text \<open>\<^verbatim>\<open>consumer.validateRefund(refund_tx, ...)\<close>: only a validated refund becomes the consumer's.\<close>

definition validate_refund :: "crypto \<Rightarrow> unit clm" where
  "validate_refund C = here (\<lambda>s. case refund_tx s of NoRefund \<Rightarrow> throw undefined_error
     | OfConsumer \<Rightarrow> on_consumer (validateRefund C)
     | Detached t \<Rightarrow> (case the_consumer s of None \<Rightarrow> throw undefined_error
         | Some c \<Rightarrow> (case validateRefund C (c\<lparr> refundTx := Some t \<rparr>) of
             (Inl e, c') \<Rightarrow> block [modify (\<lambda>s. s\<lparr> the_consumer := Some (c'\<lparr> refundTx := refundTx c \<rparr>),
                 refund_tx := (case refundTx c' of None \<Rightarrow> NoRefund | Some t' \<Rightarrow> Detached t') \<rparr>), throw e]
           | (Inr _, c') \<Rightarrow> modify (\<lambda>s. s\<lparr> the_consumer := Some c', refund_tx := OfConsumer \<rparr>))))"

definition post_refund_tx :: "crypto \<Rightarrow> unit clm" where
  "post_refund_tx C = bind (on_refund_tx (here (\<lambda>tx. bind (lift (Transaction_toBuffer tx)) (\<lambda>_. return tx)))) (\<lambda>tx.
     modify (\<lambda>s. s\<lparr> posted := posted s @ [tx] \<rparr>))"

text \<open>A \<^verbatim>\<open>try\<close> statement: the handler runs in the state the exception left.\<close>

definition try_catch :: "unit clm \<Rightarrow> unit clm \<Rightarrow> unit clm \<Rightarrow> unit clm" where
  "try_catch m handler next s = (case m s of (Inl e, s') \<Rightarrow> handler s' | (Inr _, s') \<Rightarrow> next s')"

definition receive_refund :: "env \<Rightarrow> bytes \<Rightarrow> unit clm" where
  "receive_refund E refund_sig = (let C = env_crypto E in
     bind (on_consumer (here (\<lambda>c. lift (Transaction_hash C (com_tx (commitmentTx c)))))) (\<lambda>txid. here (\<lambda>s.
     bind (lift (new_TransactionSignature (butlast refund_sig) txid (server_key s) 0x82)) (\<lambda>signature.
     try_catch (block [on_refund_tx (applySignature C signature), validate_refund C])
       (exit_with_error_code BAD_TRANSACTION)
       (block [post_refund_tx C, set_channel_state E RECEIVED_REFUND])))))"

definition receive_channel_open :: "env \<Rightarrow> unit clm" where
  "receive_channel_open E = block [
     modify (\<lambda>s. s\<lparr> fullyUsedUp := False \<rparr>),
     modify (\<lambda>s. if \<not> payment_update_timer s
       then s\<lparr> last_payment_update_time := IntN (env_now E) / IntN 1000, payment_update_timer := True \<rparr> else s),
     set_channel_state E RECEIVED_CHANNEL_OPEN,
     set_ui_state CONNECTED]"

text \<open>The increment and the signature type that \<^verbatim>\<open>increment_payment\<close> chooses, and whether the channel is now used up.\<close>

definition choose_increment :: "jsnum \<Rightarrow> payment \<Rightarrow> jsnum \<Rightarrow> bool \<Rightarrow> jsnum \<times> bool \<times> int" where
  "choose_increment w p m used =
    (let remainder = amount p - paid p - w;
         last = (remainder < m);
         used' = (used \<or> last)
     in (if last then amount p - paid p else w, used', if used' then 0x82 else 0x83))"

definition increment_payment :: "env \<Rightarrow> unit clm" where
  "increment_payment E = (let C = env_crypto E in with_payment (\<lambda>p. here (\<lambda>s.
     case choose_increment (coin_width s) p (min_initial_payment s) (fullyUsedUp s) of (increment, used, ty) \<Rightarrow> block [
       modify (\<lambda>s. s\<lparr> fullyUsedUp := used \<rparr>),
       (if increment < 0 then exit_with_error_code SYNTAX_ERROR
        else block [
          modify (\<lambda>s. s\<lparr> last_increment := increment \<rparr>),
          on_consumer (incrementPaymentBy C increment ty),
          bind (get_payment_update_signature C ty) (\<lambda>signature. with_payment (\<lambda>p. block [
            modify (\<lambda>s. s\<lparr> refund_amount := (case outputs (pay_tx p) of [] \<Rightarrow> 0 | out # _ \<Rightarrow> satoshis out) \<rparr>),
            here (\<lambda>s. send_message (UPDATE_PAYMENT (fromNumber (refund_amount s) True) signature))])),
          modify (\<lambda>s. s\<lparr> received_ack := False \<rparr>)])])))"

definition receive_payment_ack :: "unit clm" where
  "receive_payment_ack = modify (\<lambda>s. let purchase_amount = last_increment s / price_per_second s in
     s\<lparr> time_purchased := time_purchased s + purchase_amount, total_time_purchased := total_time_purchased s + purchase_amount,
       total_paid := total_paid s + last_increment s, received_ack := True \<rparr>)"

definition deplete :: "funding_output \<Rightarrow> funding_output" where
  "deplete u = (if output_state u = ATTACHED then u\<lparr> output_state := DEPLETED \<rparr> else u)"

definition receive_close :: "env \<Rightarrow> unit clm" where
  "receive_close E = block [
     here (\<lambda>s. if fullyUsedUp s then block [
         modify (\<lambda>s. s\<lparr> funding_outputs := map deplete (funding_outputs s) \<rparr>),
         (if num_funding_outputs s \<le> funding_outputs_used s
          then block [set_ui_state FUNDS_DEPLETED, on_page (\<lambda>p. p\<lparr> alerts := alerts p @ [OutOfFunds] \<rparr>)]
          else return ()),
         modify (\<lambda>s. s\<lparr> attempt_reopen_channel := False, open_channel := True \<rparr>)]
       else block [
         on_page (\<lambda>p. p\<lparr> repayment_prompt := ClosedUnexpectedly \<rparr>),
         modify (\<lambda>s. s\<lparr> attempt_reopen_channel := True, open_channel := True \<rparr>)]),
     set_channel_state E RECEIVED_CLOSE]"

definition receive_error :: "env \<Rightarrow> unit clm" where
  "receive_error E = block [
     modify (\<lambda>s. s\<lparr> attempt_reopen_channel := True \<rparr>),
     set_channel_state E RECEIVED_ERROR]"

definition need :: "'a option \<Rightarrow> ('a \<Rightarrow> unit clm) \<Rightarrow> unit clm" where
  "need x f = (case x of None \<Rightarrow> throw (TypeError ''null has no properties'') | Some y \<Rightarrow> f y)"

text \<open>\<^verbatim>\<open>websocket.onmessage\<close> past the decoding: an exception is logged, so the handler itself always returns.\<close>

definition dispatch :: "env \<Rightarrow> incoming \<Rightarrow> unit clm" where
  "dispatch E msg = (case msg of
     SERVER_VERSION v \<Rightarrow> need v (receive_version E)
   | PRICE m \<Rightarrow> need m (receive_price E)
   | FUNDING b \<Rightarrow> need b (receive_funding E)
   | INITIATE m \<Rightarrow> need m (receive_initiate E)
   | RETURN_REFUND g \<Rightarrow> need g (receive_refund E)
   | CHANNEL_OPEN \<Rightarrow> receive_channel_open E
   | PAYMENT_ACK \<Rightarrow> receive_payment_ack
   | CLOSE \<Rightarrow> receive_close E
   | ERROR c \<Rightarrow> need c (\<lambda>_. receive_error E)
   | OTHER_TYPE \<Rightarrow> return ())"

definition onmessage :: "env \<Rightarrow> incoming \<Rightarrow> unit clm" where
  "onmessage E msg = try_catch (dispatch E msg) (return ()) (return ())"

definition onopen :: "unit clm" where
  "onopen = block [
     modify (\<lambda>s. s\<lparr> websocket_open := True, waiting_to_initiate := True \<rparr>),
     here (\<lambda>s. if open_channel s then start_payment_channel else return ())]"

definition backoff :: "nat \<Rightarrow> jsnum" where
  "backoff n = IntN 1000 * rnd (2 ^ n)"

definition onclose :: "env \<Rightarrow> int \<Rightarrow> unit clm" where
  "onclose E code =
    (if code = POLICY_VIOLATION
     then block [modify (\<lambda>s. s\<lparr> multiple_tabs_open := True \<rparr>), set_ui_state MULTIPLE_BITMESH_TABS_OPEN]
     else block [
       modify (\<lambda>s. s\<lparr> websocket_open := False \<rparr>),
       modify (\<lambda>s. s\<lparr> reconnects := reconnects s @ [backoff (num_connection_retries s)] \<rparr>),
       modify (\<lambda>s. s\<lparr> num_connection_retries := num_connection_retries s + 1 \<rparr>),
       cancel_payments,
       set_channel_state E WEBSOCKET_CLOSED])"

section \<open>User and timers\<close>

definition close_channel :: "env \<Rightarrow> unit clm" where
  "close_channel E = block [
     send_message CLOSE_CHANNEL,
     modify (\<lambda>s. s\<lparr> attempt_reopen_channel := False \<rparr>),
     set_channel_state E SENT_CLOSE]"

definition user_disconnect :: "env \<Rightarrow> unit clm" where
  "user_disconnect E = with_payment (\<lambda>p. here (\<lambda>s.
     if amount p - paid p \<le> min_initial_payment s
     then on_page (\<lambda>p. p\<lparr> repayment_prompt := AlreadyDepleted \<rparr>)
     else block [
       send_message (SEND_ERROR OTHER),
       cancel_payments,
       modify (\<lambda>s. s\<lparr> open_channel := False \<rparr>),
       set_channel_state E SENT_ERROR,
       set_ui_state USER_DISCONNECTED]))"

definition user_reconnect :: "unit clm" where
  "user_reconnect = block [
     modify (\<lambda>s. s\<lparr> attempt_reopen_channel := True, fullyUsedUp := False, open_channel := True \<rparr>),
     send_version,
     set_ui_state CONNECTED]"

definition update_payment :: "env \<Rightarrow> unit clm" where
  "update_payment E = (let now = IntN (env_now E) / IntN 1000 in block [
     modify (\<lambda>s. let delta = now - last_payment_update_time s in
       s\<lparr> last_payment_update_time := now, time_spent := time_spent s + delta, total_time_spent := total_time_spent s + delta \<rparr>),
     update_display,
     here (\<lambda>s. if time_purchased s - time_spent s < IntN 5
       then if received_ack s
         then block [
           modify (\<lambda>s. s\<lparr> num_unacked_payment_updates := 0 \<rparr>),
           (if \<not> fullyUsedUp s then increment_payment E else return ())]
         else if num_unacked_payment_updates s > max_unacked_payment_updates
         then block [cancel_payments, exit_with_error_code OTHER]
         else return ()
       else return ())])"

definition document_ready :: "env \<Rightarrow> unit clm" where
  "document_ready E = block [set_ui_state UI_BEGIN, set_channel_state E BEGIN]"

end
