(* ===== verification/Session.thy ===== *)
theory Session
  imports Bitmesh
begin

text \<open>
  The client as a whole: the events that reach it as a step relation, and the invariants of its runs.
\<close>

section \<open>The refund that the consumer prepares\<close>

definition out_ref :: "tx_input \<Rightarrow> bytes \<times> int" where
  "out_ref i = (prevTxId i, outputIndex i)"

text \<open>A transaction that spends the first output of the transaction with the given bytes, and nothing else.\<close>

definition spends_contract :: "crypto \<Rightarrow> bytes \<Rightarrow> transaction \<Rightarrow> bool" where
  "spends_contract C b t \<longleftrightarrow> map out_ref (inputs t) = [(rev (sha256sha256 C b), 0)]"

lemma out_ref_spend: "map spend_ref xs = map spend_ref ys \<Longrightarrow> map out_ref xs = map out_ref ys"
proof -
  have "out_ref = (\<lambda>(a, b, c). (a, b)) \<circ> spend_ref" by (auto simp: out_ref_def spend_ref_def)
  then show "map spend_ref xs = map spend_ref ys \<Longrightarrow> map out_ref xs = map out_ref ys" by (metis map_map)
qed

definition plain_refs :: "(bytes \<times> int) list \<Rightarrow> transaction \<Rightarrow> bool" where
  "plain_refs r t \<longleftrightarrow> changeScript t = None \<and> map out_ref (inputs t) = r"

lemma map_sum_Inr_iff: "map_sum id f x = Inr y \<longleftrightarrow> (\<exists>z. x = Inr z \<and> f z = y)"
  by (cases x) auto

lemma plain_from:
  assumes "tx_from C u (Some (ks, 2)) new_Transaction = (Inr (), t)"
  shows "plain_refs [(txId u, utxo_outputIndex u)] t"
  using assms
  by (auto simp: map_sum_Inr_iff tx_from_def here_def new_Transaction_def fromMultisigUtxo_def returned UnspentOutput_def new_MultiSigScriptHashInput_def
        addInput_def uncheckedAddInput_def throw_def checkArgument_def plain_refs_def out_ref_def updateChangeOutput_def return_def new_Input_def
        split: if_splits option.splits sum.splits)

lemma keeps_plain_to: "keeps (plain_refs r) (bind getInputAmount (tx_to a))"
proof -
  have "keeps (plain_refs r) getInputAmount"
    unfolding getInputAmount_def by (intro keeps_steps) (simp add: plain_refs_def)
  moreover have "keeps (plain_refs r) (addOutput out)" for out
    by (auto simp: keeps_def addOutput_def block_Cons modify_def updateChangeOutput_def here_def plain_refs_def addOutput_raw_def return_def)
  ultimately show ?thesis unfolding tx_to_def by (intro keeps_steps)
qed

lemma plain_finish: "keeps (plain_refs r) (at_input n (modify (\<lambda>i. i\<lparr> sequenceNumber := k \<rparr>)))"
  "keeps (plain_refs r) (modify (\<lambda>tx. tx\<lparr> nLockTime := t \<rparr>))"
  by (auto simp: keeps_def at_input_def modify_def plain_refs_def out_ref_def map_update list_update_same_conv intro!: nth_equalityI)
    (simp add: nth_list_update out_ref_def)

lemma keeps_at: "keeps P m \<Longrightarrow> m s = (r, s') \<Longrightarrow> P s \<Longrightarrow> P s'"
  using keepsD by fastforce

lemma rethrow_returned_iff:
  "(case r of (Inl e, _) \<Rightarrow> throw e | (Inr x, t) \<Rightarrow> f x t) s = (Inr u, s') \<longleftrightarrow> (\<exists>x t. r = (Inr x, t) \<and> f x t s = (Inr u, s'))"
  by (auto simp: throw_def split: prod.splits sum.splits)

lemma setupRefund_returned:
  assumes "setupRefund C now c = (Inr (), c')"
  shows "\<exists>t b. refundTx c' = Some t \<and> Transaction_toBuffer (com_tx (commitmentTx c')) = Inr b \<and> spends_contract C b t"
proof -
  obtain c1 a u t0 t1 t2 ad where *: "channel_out C a c1 = Inr u" "tx_from C u (Some (com_publicKeys (commitmentTx c1), 2)) new_Transaction = (Inr (), t0)"
    "bind getInputAmount (tx_to ad) t0 = (Inr (), t1)" "at_input 0 (modify (\<lambda>i. i\<lparr> sequenceNumber := 0 \<rparr>)) t1 = (Inr (), t2)"
    "refundTx c' = Some (t2\<lparr> nLockTime := seconds now + ONE_DAY \<rparr>)" "commitmentTx c' = commitmentTx c1"
    using assms
    by (auto simp: setupRefund_def returned rethrow_returned_iff here_def set_refund_def)
  have "plain_refs [(txId u, utxo_outputIndex u)] t2"
    by (rule keeps_at[OF plain_finish(1) *(4)], rule keeps_at[OF keeps_plain_to *(3)], rule plain_from[OF *(2)])
  then have "plain_refs [(txId u, utxo_outputIndex u)] (t2\<lparr> nLockTime := seconds now + ONE_DAY \<rparr>)" by (simp add: plain_refs_def)
  moreover obtain b where "Transaction_toBuffer (com_tx (commitmentTx c1)) = Inr b" "txId u = rev (sha256sha256 C b)" "utxo_outputIndex u = 0"
    using *(1) by (auto simp: channel_out_def Let_def Transaction_hash_def map_sum_Inr_iff split: sum.splits list.splits)
  ultimately show ?thesis using *(5,6) by (auto simp: spends_contract_def plain_refs_def)
qed

section \<open>What leaves the channel alone\<close>

text \<open>The part of the client that the protocol turns on; everything else is display, accounting and keys.\<close>

definition core :: "client \<Rightarrow> channel_states option \<times> consumer option \<times> refund_ref \<times> bool \<times> ready_state option \<times> jsnum list \<times> outgoing list \<times> transaction list" where
  "core s = (channel_state s, the_consumer s, refund_tx s, waiting_to_initiate s, websocket s, reconnects s, sent s, posted s)"

definition silent :: "'a clm \<Rightarrow> bool" where
  "silent m \<longleftrightarrow> (\<forall>k. keeps (\<lambda>s. core s = k) m)"

lemma silentI: "(\<And>k. keeps (\<lambda>s. core s = k) m) \<Longrightarrow> silent m"
  by (simp add: silent_def)

lemma silent_modify: "(\<And>s. core (f s) = core s) \<Longrightarrow> silent (modify f)"
  by (simp add: silent_def keeps_def modify_def)

lemma silent_page: "silent (on_page f)"
  unfolding on_page_def by (rule silent_modify) (simp add: core_def)

lemma silent_steps: "silent (return x)" "silent (throw e)" "silent (lift r)"
  "silent m \<Longrightarrow> (\<And>x. silent (f x)) \<Longrightarrow> silent (bind m f)" "silent (block [])" "silent a \<Longrightarrow> silent (block as) \<Longrightarrow> silent (block (a # as))"
  "(\<And>s. silent (g s)) \<Longrightarrow> silent (here g)"
  "(b \<Longrightarrow> silent d) \<Longrightarrow> (\<not> b \<Longrightarrow> silent d') \<Longrightarrow> silent (if b then d else d')"
  "(z = None \<Longrightarrow> silent e') \<Longrightarrow> (\<And>y. z = Some y \<Longrightarrow> silent (h y)) \<Longrightarrow> silent (case z of None \<Rightarrow> e' | Some y \<Rightarrow> h y)"
  unfolding silent_def by (intro allI keeps_steps; blast)+

lemma silent_display: "silent update_display"
  unfolding update_display_def Let_def by (intro silent_steps silent_page)

lemma silent_tools: "silent reset_counters" "silent cancel_payments" "silent (set_funding_key C k)" "silent get_bitcoin_price"
  "silent update_escrow_amount" "silent receive_payment_ack"
  unfolding reset_counters_def cancel_payments_def set_funding_key_def get_bitcoin_price_def update_escrow_amount_def receive_payment_ack_def
  by (rule silent_modify; simp add: core_def Let_def)+

lemma silent_ops: "silent (init_keys E)" "silent create_uri" "silent (restore_wif_key E)" "silent (receive_ticker v)" "silent (set_ui_state u)"
  unfolding init_keys_def restore_wif_key_def create_uri_def receive_ticker_def set_ui_state_def
  by (intro silent_steps silent_tools silent_page silent_display silent_modify; simp add: core_def)+

lemma silent_outputs: "silent (add_output h j scr out)" "silent (add_outputs C h j a os)"
proof -
  show one: "silent (add_output h j scr out)" for j scr out
    unfolding add_output_def by (intro silent_steps silent_modify; simp add: core_def)
  show "silent (add_outputs C h j a os)"
    by (induction os arbitrary: j a) (auto intro!: silent_steps one split: option.split)
qed

lemma silent_signature: "silent (with_payment f)" if "\<And>p. silent (f p)"
  unfolding with_payment_def by (intro silent_steps that)

lemma silent_update_signature: "silent (get_payment_update_signature C ty)"
  unfolding get_payment_update_signature_def
  by (intro silent_steps silent_signature, split list.split) (intro conjI allI impI silent_steps)

lemmas silents = silent_steps silent_display silent_tools silent_ops silent_page silent_outputs silent_update_signature

lemma incrementPaymentBy_only: "\<exists>p. snd (incrementPaymentBy C n ty c) = c\<lparr> paymentTx := p \<rparr>"
proof -
  have z: "keeps (\<lambda>c'. \<exists>p. c' = c\<lparr> paymentTx := p \<rparr>) (on_payment m)" for m :: "(payment, unit) action"
    unfolding on_payment_def by (rule keeps_here) (auto simp: throw_def zoom_def split: option.split prod.split)
  have "keeps (\<lambda>c'. \<exists>p. c' = c\<lparr> paymentTx := p \<rparr>) (incrementPaymentBy C n ty)"
    unfolding incrementPaymentBy_def by (intro keeps_steps z)
  then show ?thesis by (rule keepsD) (rule exI[of _ "paymentTx c"], simp)
qed

text \<open>
  An invariant that depends on the core only, survives messages other than the contract, changes to
  states other than \<open>SENT_REFUND\<close> and new payments, survives all handlers but those that set up the refund.
\<close>

locale client_invariant =
  fixes I :: "client \<Rightarrow> bool"
  assumes core_only: "core s' = core s \<Longrightarrow> I s \<Longrightarrow> I s'"
    and sends: "I s \<Longrightarrow> (\<And>b v g. m \<noteq> PROVIDE_CONTRACT b v g) \<Longrightarrow> I (s\<lparr> sent := sent s @ [m] \<rparr>)"
    and changes: "I s \<Longrightarrow> new \<noteq> SENT_REFUND \<Longrightarrow> I (s\<lparr> channel_state := Some new \<rparr>)"
    and pays: "I s \<Longrightarrow> the_consumer s = Some c \<Longrightarrow> I (s\<lparr> the_consumer := Some (c\<lparr> paymentTx := p \<rparr>) \<rparr>)"
begin

lemma keeps_silent: "silent m \<Longrightarrow> keeps I m"
  unfolding silent_def keeps_def by (blast intro: core_only)

lemma keeps_send: "(\<And>b v g. m \<noteq> PROVIDE_CONTRACT b v g) \<Longrightarrow> keeps I (send_message m)"
  unfolding send_message_def by (intro keeps_steps) (simp add: sends)

lemma keeps_change: "new \<noteq> SENT_REFUND \<Longrightarrow> keeps I (change_state new)"
  unfolding change_state_def by (intro keeps_steps) (simp add: changes)

lemma keeps_pay: "keeps I (on_consumer (incrementPaymentBy C n ty))"
proof
  fix s assume *: "I s"
  show "I (snd (on_consumer (incrementPaymentBy C n ty) s))"
  proof (cases "the_consumer s")
    case None with * show ?thesis by (simp add: on_consumer_def here_def throw_def)
  next
    case (Some c)
    obtain p where "snd (incrementPaymentBy C n ty c) = c\<lparr> paymentTx := p \<rparr>" using incrementPaymentBy_only by blast
    with Some pays[OF * Some] show ?thesis by (auto simp: on_consumer_def here_def zoom_def split: prod.split)
  qed
qed

lemma keeps_with_payment: "(\<And>p. keeps I (f p)) \<Longrightarrow> keeps I (with_payment f)"
  unfolding with_payment_def by (intro keeps_steps)

lemma keeps_field: "(\<And>s. core (f s) = core s) \<Longrightarrow> keeps I (modify f)"
  by (rule keeps_silent) (rule silent_modify)

lemma keeps_version: "keeps I send_version" "keeps I start_payment_channel"
  unfolding send_version_def start_payment_channel_def
  by (intro keeps_steps keeps_send keeps_change keeps_silent silents; simp)+

lemma keeps_exit: "keeps I (exit_with_error_code code)"
  unfolding exit_with_error_code_def
  by (intro keeps_Cons keeps_Nil keeps_send keeps_change keeps_silent[OF silent_page] keeps_field; simp add: core_def)

lemma keeps_funding_address: "keeps I send_funding_address"
  unfolding send_funding_address_def
  by (intro keeps_Cons keeps_Nil keeps_here_all keeps_option keeps_throw keeps_send keeps_change keeps_silent[OF silent_ops(2)]; simp)

lemma keeps_plain_state: "new \<in> {RECEIVED_VERSION, SENT_ERROR, RECEIVED_CHANNEL_OPEN, WEBSOCKET_CLOSED, RECEIVED_ERROR, RECEIVED_CLOSE, SENT_CLOSE}
    \<Longrightarrow> keeps I (set_channel_state E new)"
  unfolding set_channel_state_def
  by (auto intro!: keeps_Cons keeps_Nil keeps_change keeps_version keeps_return)

lemma keeps_receive_version: "keeps I (receive_version E v)"
  unfolding receive_version_def by (intro keeps_If keeps_exit keeps_plain_state) simp

lemma keeps_receive_open: "keeps I (receive_channel_open E)"
  unfolding receive_channel_open_def
  by (intro keeps_Cons keeps_Nil keeps_plain_state keeps_silent[OF silent_ops(5)] keeps_field; simp add: core_def)

lemma keeps_increment: "keeps I (increment_payment E)"
  unfolding increment_payment_def Let_def
  by (intro keeps_with_payment keeps_here_all keeps_prod keeps_Cons keeps_Nil keeps_If keeps_exit keeps_bind keeps_pay
      keeps_silent[OF silent_update_signature] keeps_send keeps_field; simp add: core_def)

lemma keeps_receive_close: "keeps I (receive_close E)" "keeps I (receive_error E)"
  unfolding receive_close_def receive_error_def
  by (intro keeps_Cons keeps_Nil keeps_here_all keeps_If keeps_return keeps_plain_state keeps_silent[OF silent_page]
      keeps_silent[OF silent_ops(5)] keeps_field; simp add: core_def)+

lemma keeps_user: "keeps I (close_channel E)" "keeps I (user_disconnect E)" "keeps I user_reconnect"
  unfolding close_channel_def user_disconnect_def user_reconnect_def
  by (intro keeps_Cons keeps_Nil keeps_here_all keeps_If keeps_with_payment keeps_plain_state keeps_send keeps_version keeps_silent[OF silent_page]
      keeps_silent[OF silent_ops(5)] keeps_silent[OF silent_tools(2)] keeps_field; simp add: core_def)+

lemma keeps_tick: "keeps I (update_payment E)"
  unfolding update_payment_def Let_def
  by (intro keeps_Cons keeps_Nil keeps_here_all keeps_If keeps_return keeps_increment keeps_exit keeps_silent[OF silent_display]
      keeps_silent[OF silent_tools(2)] keeps_field; simp add: core_def)

end

section \<open>The contract is backed by the refund\<close>

text \<open>A refund that gives the money of a contract back: complete, accepted by the interpreter, and spending the contract's output to one output.\<close>

definition backs :: "crypto \<Rightarrow> bytes \<Rightarrow> transaction \<Rightarrow> bool" where
  "backs C b r \<longleftrightarrow> spends_contract C b r \<and> isFullySigned C r = Inr True \<and> first_input_verifies C r = Inr True
     \<and> (\<exists>out. outputs r = [out])"

definition backed :: "crypto \<Rightarrow> client \<Rightarrow> bool" where
  "backed C s \<longleftrightarrow> (\<forall>b v g. PROVIDE_CONTRACT b v g \<in> set (sent s) \<longrightarrow> (\<exists>r \<in> set (posted s). backs C b r))"

text \<open>At most one reconnection is pending, and only while the socket is closed.\<close>

definition socket_ok :: "client \<Rightarrow> bool" where
  "socket_ok s \<longleftrightarrow> length (reconnects s) \<le> 1 \<and> (websocket s \<noteq> Some CLOSED \<longrightarrow> reconnects s = []) \<and> (channel_state s = None \<longrightarrow> websocket s = None)"

definition refund_ready :: "crypto \<Rightarrow> consumer \<Rightarrow> bool" where
  "refund_ready C c \<longleftrightarrow> (\<exists>t b. refundTx c = Some t \<and> Transaction_toBuffer (com_tx (commitmentTx c)) = Inr b \<and> spends_contract C b t)"

definition prepared :: "crypto \<Rightarrow> client \<Rightarrow> bool" where
  "prepared C s \<longleftrightarrow> refund_tx s = OfConsumer \<and> (\<exists>c. the_consumer s = Some c \<and> refund_ready C c)"

text \<open>While the client waits for the signature of the refund, nothing can replace the consumer or reopen the channel.\<close>

definition awaiting :: "crypto \<Rightarrow> client \<Rightarrow> bool" where
  "awaiting C s \<longleftrightarrow> prepared C s \<and> \<not> waiting_to_initiate s \<and> reconnects s = [] \<and> websocket s \<notin> {None, Some CONNECTING}"

definition safe :: "crypto \<Rightarrow> client \<Rightarrow> bool" where
  "safe C s \<longleftrightarrow> backed C s \<and> socket_ok s \<and> (channel_state s = Some SENT_REFUND \<longrightarrow> awaiting C s)"

definition live :: "crypto \<Rightarrow> client \<Rightarrow> bool" where
  "live C s \<longleftrightarrow> safe C s \<and> websocket s = Some OPEN"

lemmas safe_defs = safe_def backed_def socket_ok_def awaiting_def prepared_def

interpretation sf: client_invariant "safe C" for C
proof
  show "core s' = core s \<Longrightarrow> safe C s \<Longrightarrow> safe C s'" for s s' by (simp add: safe_defs core_def)
  show "safe C (s\<lparr> sent := sent s @ [m] \<rparr>)" if "safe C s" "\<And>b v g. m \<noteq> PROVIDE_CONTRACT b v g" for s m
  proof -
    have "backed C (s\<lparr> sent := sent s @ [m] \<rparr>)"
      using that(1) that(2)[symmetric] by (simp add: backed_def safe_def)
    then show ?thesis using that(1) by (simp add: safe_def socket_ok_def awaiting_def prepared_def)
  qed
  show "safe C s \<Longrightarrow> new \<noteq> SENT_REFUND \<Longrightarrow> safe C (s\<lparr> channel_state := Some new \<rparr>)" for s new by (simp add: safe_defs)
  show "safe C s \<Longrightarrow> the_consumer s = Some c \<Longrightarrow> safe C (s\<lparr> the_consumer := Some (c\<lparr> paymentTx := p \<rparr>) \<rparr>)" for s c p
    by (auto simp: safe_defs refund_ready_def)
qed

interpretation lv: client_invariant "live C" for C
proof
  show "core s' = core s \<Longrightarrow> live C s \<Longrightarrow> live C s'" for s s' using sf.core_only[of s' s C] by (auto simp: live_def core_def)
  show "live C (s\<lparr> sent := sent s @ [m] \<rparr>)" if "live C s" "\<And>b v g. m \<noteq> PROVIDE_CONTRACT b v g" for s m
    using that sf.sends by (simp add: live_def)
  show "live C s \<Longrightarrow> new \<noteq> SENT_REFUND \<Longrightarrow> live C (s\<lparr> channel_state := Some new \<rparr>)" for s new
    using sf.changes by (simp add: live_def)
  show "live C s \<Longrightarrow> the_consumer s = Some c \<Longrightarrow> live C (s\<lparr> the_consumer := Some (c\<lparr> paymentTx := p \<rparr>) \<rparr>)" for s c p
    using sf.pays by (simp add: live_def)
qed

text \<open>Outside \<open>SENT_REFUND\<close> the consumer and the refund may be anything; \<open>between\<close> is such a state, \<open>fresh\<close> one in which \<^verbatim>\<open>initiate\<close> is under way.\<close>

definition between :: "crypto \<Rightarrow> client \<Rightarrow> bool" where
  "between C s \<longleftrightarrow> live C s \<and> channel_state s \<noteq> Some SENT_REFUND"

definition fresh :: "crypto \<Rightarrow> client \<Rightarrow> bool" where
  "fresh C s \<longleftrightarrow> between C s \<and> \<not> waiting_to_initiate s"

lemma keeps_fresh: "(\<And>s. core (f s) = core s) \<Longrightarrow> keeps (fresh C) (modify f)"
  "silent m \<Longrightarrow> keeps (fresh C) m" "silent m \<Longrightarrow> keeps (between C) m" "keeps (fresh C) (on_consumer n)"
proof -
  have c: "core s' = core s \<Longrightarrow> fresh C s \<Longrightarrow> fresh C s'" "core s' = core s \<Longrightarrow> between C s \<Longrightarrow> between C s'" for s s'
    using lv.core_only[of s' s C] by (auto simp: fresh_def between_def core_def)
  show "silent m \<Longrightarrow> keeps (fresh C) m" "silent m \<Longrightarrow> keeps (between C) m" for m
    unfolding silent_def keeps_def by (blast intro: c)+
  then show "(\<And>s. core (f s) = core s) \<Longrightarrow> keeps (fresh C) (modify f)" using silent_modify by blast
  show "keeps (fresh C) (on_consumer n)"
    by (auto simp: keeps_def on_consumer_def here_def throw_def zoom_def fresh_def between_def live_def safe_defs split: option.split prod.split)
qed

lemma keeps_create: "keeps (fresh C) (create_payment_channel E)"
proof -
  have m: "keeps (fresh C) (modify (\<lambda>s. s\<lparr> refund_tx := detach_refund s, the_consumer := Some c \<rparr>))" for c
    by (auto simp: keeps_def modify_def fresh_def between_def live_def safe_defs)
  have "keeps (fresh C) (attach_one (env_crypto E) i)" for i
    unfolding attach_one_def by (intro keeps_here_all keeps_If keeps_throw keeps_Cons keeps_Nil keeps_fresh) (simp add: core_def)
  then have "keeps (fresh C) (block (map (attach_one (env_crypto E)) is))" for "is" by (intro keeps_block) auto
  then show ?thesis unfolding create_payment_channel_def
    by (intro keeps_Cons keeps_Nil keeps_here_all keeps_option keeps_throw keeps_bind keeps_lift m keeps_fresh(1)) (simp_all add: core_def)
qed

lemma setup_prepares:
  "triple (fresh C) (block [on_consumer (setupRefund C n), modify (\<lambda>s. s\<lparr> refund_tx := OfConsumer \<rparr>)]) (\<lambda>_ s. fresh C s \<and> prepared C s) (live C)"
proof (rule tripleI)
  fix s assume f: "fresh C s"
  let ?m = "on_consumer (setupRefund C n)"
  have k: "fresh C (snd (?m s))" using keepsD[OF keeps_fresh(4) f] .
  show "case block [?m, modify (\<lambda>s. s\<lparr> refund_tx := OfConsumer \<rparr>)] s of (Inl e, s') \<Rightarrow> live C s' | (Inr x, s') \<Rightarrow> fresh C s' \<and> prepared C s'"
  proof (cases "the_consumer s")
    case None then show ?thesis using f by (simp add: block_Cons on_consumer_def here_def throw_def fresh_def between_def)
  next
    case (Some c)
    show ?thesis
    proof (cases "setupRefund C n c")
      case (Pair r c')
      then have m: "?m s = (r, s\<lparr> the_consumer := Some c' \<rparr>)" using Some by (simp add: on_consumer_def here_def zoom_def)
      then have k': "fresh C (s\<lparr> the_consumer := Some c' \<rparr>)" using k by simp
      show ?thesis
      proof (cases r)
        case (Inl e) with m k' show ?thesis by (simp add: block_Cons fresh_def between_def)
      next
        case (Inr u)
        then have "refund_ready C c'" using setupRefund_returned[of C n c c'] Pair by (auto simp: refund_ready_def)
        with m k' Inr show ?thesis
          by (auto simp: block_Cons modify_def fresh_def between_def live_def safe_def backed_def socket_ok_def prepared_def)
      qed
    qed
  qed
qed

lemma block_pair: "block (a # b # ms) = block (block [a, b] # ms)"
  by (rule ext) (auto simp: block_Cons split: prod.split sum.split)

lemma same_consumer: "the_consumer s = Some c \<Longrightarrow> s\<lparr> the_consumer := Some c \<rparr> = s"
  by simp

lemma keeps_read_consumer: "keeps P (on_consumer (here (\<lambda>c. lift (f c))))"
  by (auto simp: keeps_def on_consumer_def here_def throw_def zoom_def lift_def same_consumer simp del: client.surjective split: option.split)

lemma keeps_read_refund: "keeps P (on_consumer (on_refund (here (\<lambda>t. lift (f t)))))"
proof -
  have "on_refund (here (\<lambda>t. lift (f t))) = here (\<lambda>c. lift (case refundTx c of None \<Rightarrow> Inl (TypeError ''undefined has no properties'') | Some t \<Rightarrow> f t))"
    by (rule ext) (auto simp: on_refund_def here_def throw_def zoom_def lift_def split: option.split)
  then show ?thesis by (simp only: keeps_read_consumer)
qed

lemma send_refund_live:
  assumes "env_crypto E = C"
  shows "triple (fresh C) (send_refund E) (\<lambda>_. live C) (live C)"
proof -
  let ?P = "\<lambda>s. fresh C s \<and> prepared C s"
  have send: "keeps ?P (send_message (PROVIDE_REFUND k b))" for k b
    unfolding send_message_def
    by (intro keeps_steps) (auto simp: fresh_def between_def live_def safe_defs)
  have final: "triple ?P (change_state SENT_REFUND) (\<lambda>_. live C) (live C)"
    by (rule tripleI) (auto simp: change_state_def here_def throw_def modify_def fresh_def between_def live_def safe_defs)
  have live: "fresh C s \<Longrightarrow> live C s" for s by (simp add: fresh_def between_def)
  have "keeps ?P (here (\<lambda>s. case client_key s of None \<Rightarrow> throw undefined_error | Some k \<Rightarrow>
       bind (on_consumer (on_refund (here (\<lambda>tx. lift (Transaction_toBuffer tx))))) (\<lambda>b. send_message (PROVIDE_REFUND (privToPub C k) b))))"
    by (intro keeps_here_all keeps_option keeps_throw keeps_bind keeps_read_refund send)
  from triple_keeps[OF this] show ?thesis unfolding send_refund_def assms
    by (subst block_pair) (rule triple_Cons[OF setup_prepares], rule triple_Cons[of _ _ ?P], 
      erule triple_conseq; auto simp: live intro: triple_Cons final triple_Nil)
qed

lemma initiate_live:
  assumes "env_crypto E = C"
  shows "triple (between C) (initiate E) (\<lambda>_. live C) (live C)"
proof -
  have bl: "between C s \<Longrightarrow> live C s" and fl: "fresh C s \<Longrightarrow> live C s" for s by (simp_all add: fresh_def between_def)
  have w: "keeps (between C) (modify (\<lambda>s. s\<lparr> waiting_to_initiate := True \<rparr>))"
    by (rule keeps_modify) (auto simp: between_def live_def safe_defs)
  have start: "triple (between C) (modify (\<lambda>s. s\<lparr> waiting_to_initiate := False \<rparr>)) (\<lambda>_. fresh C) (live C)"
    by (rule triple_modify) (auto simp: fresh_def between_def live_def safe_defs)
  have ini: "keeps (fresh C) (change_state INITIATED)"
    unfolding change_state_def by (intro keeps_steps) (auto simp: fresh_def between_def live_def safe_defs)
  have f: "keeps (fresh C) m \<Longrightarrow> triple (fresh C) m (\<lambda>_. fresh C) (live C)" for m :: "unit clm"
    by (drule triple_keeps) (erule triple_conseq; simp add: fl)
  have b: "keeps (between C) m \<Longrightarrow> triple (between C) m (\<lambda>_. between C) (live C)" for m :: "unit clm"
    by (drule triple_keeps) (erule triple_conseq; simp add: bl)
  have r: "keeps (fresh C) (modify (\<lambda>s. s\<lparr> attempt_reopen_channel := True \<rparr>))" by (rule keeps_fresh) (simp add: core_def)
  show ?thesis unfolding initiate_def
    apply (rule triple_Cons[OF b[OF keeps_fresh(3)[OF silent_tools(5)]]])
    apply (rule triple_Cons[of _ _ "live C"])
     apply (rule triple_here, rule triple_pre[of "between C"])
      apply (rule triple_If)
       apply (rule triple_Cons[OF b[OF w]], rule triple_Cons[OF b[OF keeps_fresh(3)[OF silent_page]]], rule triple_Nil, erule bl)
      apply (rule triple_Cons[OF start], rule triple_Cons[OF f[OF r]], rule triple_Cons[OF f[OF keeps_create]],
        rule triple_Cons[OF f[OF ini]], rule triple_Cons[OF send_refund_live[OF assms]], rule triple_Nil, assumption)
     apply simp
    by (rule triple_Nil)
qed

subsection \<open>The answer to the refund\<close>

lemma keeps_on_refund: "(\<And>t :: transaction. keeps (\<lambda>t'. map spend_ref (inputs t') = map spend_ref (inputs t)) m) \<Longrightarrow> keeps (refund_ready C) (on_refund m)"
proof
  fix c assume k: "\<And>t :: transaction. keeps (\<lambda>t'. map spend_ref (inputs t') = map spend_ref (inputs t)) m" and r: "refund_ready C c"
  then obtain t b where t: "refundTx c = Some t" "Transaction_toBuffer (com_tx (commitmentTx c)) = Inr b" "spends_contract C b t"
    by (auto simp: refund_ready_def)
  have "map out_ref (inputs (snd (m t))) = map out_ref (inputs t)"
    by (rule out_ref_spend) (rule keepsD[OF k[of t]], simp)
  with t show "refund_ready C (snd (on_refund m c))"
    by (auto simp: refund_ready_def spends_contract_def on_refund_def here_def zoom_def split: prod.split)
qed

lemma keeps_amount: "keeps (refund_ready C) channel_amount"
proof
  fix c assume r: "refund_ready C c"
  let ?m = "bind getInputAmount (\<lambda>a. bind getFee (\<lambda>f. return (a - f)))"
  have "Transaction_toBuffer (snd (?m (com_tx (commitmentTx c)))) = Transaction_toBuffer (com_tx (commitmentTx c))"
    by (rule keepsD[OF keeps_amount_bytes]) simp
  with r show "refund_ready C (snd (channel_amount c))"
    by (auto simp: refund_ready_def channel_amount_def on_commitment_def zoom_def split: prod.split)
qed

lemma keeps_reading: "keeps P (here (\<lambda>t. bind (lift (f t)) (\<lambda>x. checkState (g x) msg)))" "keeps P (here (\<lambda>t. lift (h t)))"
    "keeps P (here (\<lambda>t. checkState (b t) msg))"
  by (intro keeps_steps)+

lemma keeps_validate: "keeps (refund_ready C) (validateRefund C)"
  unfolding validateRefund_def
  by (intro keeps_Cons keeps_Nil keeps_bind keeps_here_all keeps_on_refund keeps_sign_refs keeps_amount keeps_lift keeps_checkState keeps_modify)
     (auto simp: refund_ready_def)

definition refund_backs :: "crypto \<Rightarrow> consumer \<Rightarrow> bool" where
  "refund_backs C c \<longleftrightarrow> (\<exists>t b. refundTx c = Some t \<and> Transaction_toBuffer (com_tx (commitmentTx c)) = Inr b \<and> backs C b t)"

lemma validate_backs:
  assumes "validateRefund C c = (Inr (), c')" "refund_ready C c"
  shows "refund_backs C c'"
proof -
  have "refund_ready C c'" using keeps_at[OF keeps_validate assms(1)] assms(2) by blast
  with validateRefund_returned[OF assms(1)] show ?thesis
    by (auto simp: refund_backs_def refund_ready_def backs_def)
qed

text \<open>The contract's bytes are fixed and the refund for them is posted.\<close>

definition covered :: "crypto \<Rightarrow> client \<Rightarrow> bool" where
  "covered C s \<longleftrightarrow> live C s \<and> (\<exists>c b. the_consumer s = Some c \<and> Transaction_toBuffer (com_tx (commitmentTx c)) = Inr b
     \<and> (\<exists>r \<in> set (posted s). backs C b r))"

interpretation cv: client_invariant "covered C" for C
proof
  show "core s' = core s \<Longrightarrow> covered C s \<Longrightarrow> covered C s'" for s s' using lv.core_only[of s' s C] by (auto simp: covered_def core_def)
  show "covered C (s\<lparr> sent := sent s @ [m] \<rparr>)" if "covered C s" "\<And>b v g. m \<noteq> PROVIDE_CONTRACT b v g" for s m
    using that lv.sends by (simp add: covered_def)
  show "covered C s \<Longrightarrow> new \<noteq> SENT_REFUND \<Longrightarrow> covered C (s\<lparr> channel_state := Some new \<rparr>)" for s new
    using lv.changes by (simp add: covered_def)
  show "covered C s \<Longrightarrow> the_consumer s = Some c \<Longrightarrow> covered C (s\<lparr> the_consumer := Some (c\<lparr> paymentTx := p \<rparr>) \<rparr>)" for s c p
    using lv.pays by (auto simp: covered_def)
qed

lemma keeps_contract: "keeps (covered C) (bind (on_consumer (here (\<lambda>c. lift (Transaction_toBuffer (com_tx (commitmentTx c))))))
   (\<lambda>b. here (\<lambda>s. send_message (PROVIDE_CONTRACT b (v s) g))))"
proof
  fix s assume *: "covered C s"
  then obtain c b r where c: "the_consumer s = Some c" "Transaction_toBuffer (com_tx (commitmentTx c)) = Inr b" "r \<in> set (posted s)" "backs C b r"
    by (auto simp: covered_def)
  have "covered C (s\<lparr> sent := sent s @ [PROVIDE_CONTRACT b x g] \<rparr>)" for x
    using * c by (auto simp: covered_def live_def safe_defs)
  with * c show "covered C (snd (bind (on_consumer (here (\<lambda>c. lift (Transaction_toBuffer (com_tx (commitmentTx c))))))
   (\<lambda>b. here (\<lambda>s. send_message (PROVIDE_CONTRACT b (v s) g))) s))"
    by (auto simp: bind_def on_consumer_def here_def zoom_def lift_def send_message_def throw_def return_def modify_def same_consumer
        simp del: client.surjective split: option.split)
qed

lemma keeps_send_contract: "keeps (covered C) (send_contract E)"
  unfolding send_contract_def Let_def
  apply (intro keeps_Cons keeps_Nil keeps_bind keeps_read_consumer keeps_here_all cv.keeps_pay cv.keeps_silent[OF silent_update_signature] cv.keeps_with_payment cv.keeps_change)
  apply (auto simp: core_def intro!: cv.keeps_field)[2]
   apply (split list.split, intro conjI allI impI keeps_throw keeps_Cons keeps_Nil keeps_contract cv.keeps_field, simp add: core_def)
  by simp

text \<open>In any state but \<open>SENT_REFUND\<close>, the answer changes nothing that matters.\<close>

lemma keeps_between_replace: "between C s \<Longrightarrow> between C (s\<lparr> the_consumer := c, refund_tx := r \<rparr>)"
  "between C s \<Longrightarrow> between C (s\<lparr> the_consumer := c \<rparr>)" "between C s \<Longrightarrow> between C (s\<lparr> refund_tx := r \<rparr>)"
  by (auto simp: between_def live_def safe_def backed_def socket_ok_def)

lemma keeps_between_answer: "keeps (between C) (on_refund_tx m)" "keeps (between C) (validate_refund D)" "keeps (between C) (post_refund_tx D)"
proof -
  have c: "keeps (between C) (on_consumer m)" for m :: "'x conm"
    by (auto simp: keeps_def on_consumer_def here_def throw_def zoom_def keeps_between_replace split: option.split prod.split)
  have d: "keeps (between C) (zoom (\<lambda>_. t) (\<lambda>t s. s\<lparr> refund_tx := Detached t \<rparr>) m)" for t and m :: "'x txm"
    by (auto simp: keeps_def zoom_def keeps_between_replace split: prod.split)
  have r: "keeps (between C) (on_refund_tx m)" for m :: "'x txm"
    unfolding on_refund_tx_def
    by (rule keeps_here_all, split refund_ref.split) (intro conjI allI impI keeps_throw c d)
  show "keeps (between C) (on_refund_tx m)" by (rule r)
  show "keeps (between C) (validate_refund D)"
    unfolding validate_refund_def
    by (rule keeps_here_all, split refund_ref.split)
       (auto intro!: keeps_throw keeps_Cons keeps_Nil keeps_modify c keeps_between_replace split: prod.split sum.split option.split)
  have "between C s \<Longrightarrow> between C (s\<lparr> posted := posted s @ [t] \<rparr>)" for s t
    by (auto simp: between_def live_def safe_def backed_def socket_ok_def)
  then show "keeps (between C) (post_refund_tx D)"
    unfolding post_refund_tx_def by (intro keeps_bind r keeps_modify)
qed

lemma other_answer:
  "triple (between C) (block [on_refund_tx m, validate_refund D]) (\<lambda>_. between C) (live C)"
  "triple (between C) (block [post_refund_tx D, set_channel_state E RECEIVED_REFUND]) (\<lambda>_. live C) (live C)"
proof -
  have bl: "between C s \<Longrightarrow> live C s" for s by (simp add: between_def)
  have k: "keeps (between C) (block [on_refund_tx m, validate_refund D])" by (intro keeps_Cons keeps_Nil keeps_between_answer)
  show "triple (between C) (block [on_refund_tx m, validate_refund D]) (\<lambda>_. between C) (live C)"
    using triple_keeps[OF k] by (rule triple_conseq) (simp_all add: bl)
  have "triple (between C) (set_channel_state E RECEIVED_REFUND) (\<lambda>_. live C) (live C)"
    by (rule tripleI) (auto simp: set_channel_state_def block_Cons change_state_def here_def throw_def channel_transition_is_valid_def between_def)
  moreover have "triple (between C) (post_refund_tx D) (\<lambda>_. between C) (live C)"
    using triple_keeps[OF keeps_between_answer(3)[of C D]] bl by (blast intro: triple_conseq)
  ultimately show "triple (between C) (block [post_refund_tx D, set_channel_state E RECEIVED_REFUND]) (\<lambda>_. live C) (live C)"
    by (blast intro: triple_Cons triple_Nil)
qed

definition asked :: "crypto \<Rightarrow> client \<Rightarrow> bool" where
  "asked C s \<longleftrightarrow> live C s \<and> channel_state s = Some SENT_REFUND"

lemma asked_consumer: "asked C s \<Longrightarrow> \<exists>c. the_consumer s = Some c \<and> refund_ready C c \<and> refund_tx s = OfConsumer"
  "asked C s \<Longrightarrow> refund_ready C c \<Longrightarrow> asked C (s\<lparr> the_consumer := Some c \<rparr>)"
  by (auto simp: asked_def live_def safe_def backed_def socket_ok_def awaiting_def prepared_def)

lemma asked_run: "asked C s \<Longrightarrow> keeps (refund_ready C) m \<Longrightarrow> \<exists>c c' r. the_consumer s = Some c \<and> refund_ready C c \<and> m c = (r, c') \<and> refund_ready C c'
    \<and> on_consumer m s = (r, s\<lparr> the_consumer := Some c' \<rparr>) \<and> asked C (s\<lparr> the_consumer := Some c' \<rparr>)"
proof -
  assume a: "asked C s" and k: "keeps (refund_ready C) m"
  from asked_consumer(1)[OF a] obtain c where c: "the_consumer s = Some c" "refund_ready C c" by blast
  obtain r c' where m: "m c = (r, c')" by fastforce
  have "refund_ready C c'" using keeps_at[OF k m c(2)] .
  with c m asked_consumer(2)[OF a] show ?thesis by (auto simp: on_consumer_def here_def zoom_def)
qed

definition validated :: "crypto \<Rightarrow> client \<Rightarrow> bool" where
  "validated C s \<longleftrightarrow> asked C s \<and> (\<exists>c. the_consumer s = Some c \<and> refund_backs C c)"

lemma asked_answer: "triple (asked C) (block [on_refund_tx (applySignature C g), validate_refund C]) (\<lambda>_. validated C) (live C)"
proof -
  have al: "asked C s \<Longrightarrow> live C s" for s by (simp add: asked_def)
  have ap: "keeps (refund_ready C) (on_refund (applySignature C g))" by (intro keeps_on_refund keeps_applySignature_refs)
  have "triple (asked C) (on_refund_tx (applySignature C g)) (\<lambda>_. asked C) (live C)"
  proof (rule tripleI)
    fix s assume a: "asked C s"
    from asked_run[OF a ap] asked_consumer(1)[OF a]
    show "case on_refund_tx (applySignature C g) s of (Inl e, s') \<Rightarrow> live C s' | (Inr x, s') \<Rightarrow> asked C s'"
      by (auto simp: on_refund_tx_def here_def al split: sum.split)
  qed
  moreover have "triple (asked C) (validate_refund C) (\<lambda>_. validated C) (live C)"
  proof (rule tripleI)
    fix s assume a: "asked C s"
    from asked_run[OF a keeps_validate] asked_consumer(1)[OF a]
    show "case validate_refund C s of (Inl e, s') \<Rightarrow> live C s' | (Inr x, s') \<Rightarrow> validated C s'"
      by (auto simp: validate_refund_def here_def al validated_def validate_backs split: sum.split)
  qed
  ultimately show ?thesis by (blast intro: triple_Cons triple_Nil)
qed

lemma asked_contract: "triple (validated C) (block [post_refund_tx C, set_channel_state E RECEIVED_REFUND]) (\<lambda>_. live C) (live C)"
proof -
  have cl: "covered C s \<Longrightarrow> live C s" for s by (simp add: covered_def)
  have post: "triple (validated C) (post_refund_tx C) (\<lambda>_ s. covered C s \<and> channel_state s = Some SENT_REFUND) (live C)"
  proof (rule tripleI)
    fix s assume v: "validated C s"
    then obtain c t b where c: "the_consumer s = Some c" "refundTx c = Some t" "Transaction_toBuffer (com_tx (commitmentTx c)) = Inr b" "backs C b t"
      "refund_tx s = OfConsumer" "asked C s"
      using asked_consumer(1)[of C s] by (auto simp: validated_def refund_backs_def)
    have "covered C (s\<lparr> posted := posted s @ [t] \<rparr>)"
      using c by (auto simp: covered_def asked_def live_def safe_defs)
    moreover have "c\<lparr> refundTx := Some t \<rparr> = c" using c(2) by simp
    ultimately show "case post_refund_tx C s of (Inl e, s') \<Rightarrow> live C s' | (Inr x, s') \<Rightarrow> covered C s' \<and> channel_state s' = Some SENT_REFUND"
      using c by (auto simp: post_refund_tx_def bind_def on_refund_tx_def on_consumer_def on_refund_def here_def zoom_def lift_def return_def modify_def
          asked_def same_consumer simp del: client.surjective split: sum.split prod.split)
  qed
  have "triple (\<lambda>s. covered C s \<and> channel_state s = Some SENT_REFUND) (set_channel_state E RECEIVED_REFUND) (\<lambda>_. live C) (live C)"
  proof -
    have "keeps (covered C) (set_channel_state E RECEIVED_REFUND)"
      unfolding set_channel_state_def by (simp only: channel_states.case) (intro keeps_Cons keeps_Nil cv.keeps_change keeps_send_contract; simp)
    from triple_keeps[OF this] show ?thesis by (rule triple_conseq) (auto simp: cl)
  qed
  with post show ?thesis by (blast intro: triple_Cons triple_Nil)
qed

lemma triple_try: "triple P m (\<lambda>_. Q) R \<Longrightarrow> triple R h (\<lambda>_. S) T \<Longrightarrow> triple Q n (\<lambda>_. S) T \<Longrightarrow> triple P (try_catch m h n) (\<lambda>_. S) T"
  unfolding triple_def try_catch_def by (fastforce split: prod.splits sum.splits)

lemma keeps_receive_refund:
  assumes "env_crypto E = C"
  shows "keeps (live C) (receive_refund E g)"
proof -
  have ex: "triple (live C) (exit_with_error_code BAD_TRANSACTION) (\<lambda>_. live C) (live C)" by (rule triple_keeps[OF lv.keeps_exit])
  have "keeps (live C) (try_catch (block [on_refund_tx (applySignature C sig), validate_refund C]) (exit_with_error_code BAD_TRANSACTION)
      (block [post_refund_tx C, set_channel_state E RECEIVED_REFUND]))" (is "keeps _ ?m") for sig
  proof
    fix s assume l: "live C s"
    show "live C (snd (?m s))"
    proof (cases "channel_state s = Some SENT_REFUND")
      case True
      then show ?thesis using l by (intro triple_after[OF triple_try[OF asked_answer ex asked_contract]]) (simp add: asked_def)
    next
      case False
      then show ?thesis using l by (intro triple_after[OF triple_try[OF other_answer(1) ex other_answer(2)]]) (simp add: between_def)
    qed
  qed
  then show ?thesis unfolding receive_refund_def Let_def assms
    by (intro keeps_bind keeps_read_consumer keeps_here_all keeps_lift)
qed

subsection \<open>The other messages\<close>

lemma change_between: "new \<noteq> SENT_REFUND \<Longrightarrow> triple (live C) (change_state new) (\<lambda>_. between C) (live C)"
  by (rule tripleI) (use lv.changes in \<open>auto simp: change_state_def here_def throw_def modify_def between_def\<close>)

lemma between_run: "keeps (live C) m \<Longrightarrow> triple (between C) m (\<lambda>_. live C) (live C)"
  by (drule triple_keeps) (erule triple_pre, simp add: between_def)

lemma keeps_state_initiating:
  assumes "env_crypto E = C" "new \<in> {RECEIVED_PRICE, RECEIVED_FUNDING}"
  shows "keeps (live C) (set_channel_state E new)"
proof -
  have i: "triple (\<lambda>s. between C s \<and> s = s0) (initiate E) (\<lambda>_. live C) (live C)" for s0
    using initiate_live[OF assms(1)] by (rule triple_pre) simp
  have a: "triple (\<lambda>s. between C s \<and> s = s0) send_funding_address (\<lambda>_. live C) (live C)" for s0
    using between_run[OF lv.keeps_funding_address] by (rule triple_pre) simp
  have w: "triple (\<lambda>s. between C s \<and> s = s0) (modify (\<lambda>s. s\<lparr> waiting_to_initiate := True \<rparr>)) (\<lambda>_. live C) (live C)" for s0
    by (rule triple_modify) (auto simp: between_def live_def safe_defs)
  have p: "triple (between C) (here (\<lambda>s. if num_funding_outputs s > funding_outputs_used s then initiate E else send_funding_address)) (\<lambda>_. live C) (live C)"
    by (intro triple_here triple_If i a)
  have f: "triple (between C) (here (\<lambda>s. if waiting_to_initiate s then initiate E else modify (\<lambda>s. s\<lparr> waiting_to_initiate := True \<rparr>)))
      (\<lambda>_. live C) (live C)"
    by (intro triple_here triple_If i w)
  have fin: "triple (live C) (block []) (\<lambda>_. live C) (live C)" by (rule triple_Nil)
  have "triple (live C) (set_channel_state E new) (\<lambda>_. live C) (live C)"
    using assms(2) triple_Cons[OF change_between triple_Cons[OF p fin]] triple_Cons[OF change_between triple_Cons[OF f fin]]
    by (auto simp: set_channel_state_def)
  then show ?thesis by (rule keeps_triple)
qed

lemma keeps_receive_price: "env_crypto E = C \<Longrightarrow> keeps (live C) (receive_price E m)"
  unfolding receive_price_def
  by (intro keeps_Cons keeps_Nil keeps_here_all keeps_If keeps_throw lv.keeps_exit lv.keeps_silent[OF silent_tools(1)] lv.keeps_field
      keeps_state_initiating; simp add: core_def)

lemma keeps_receive_funding: "env_crypto E = C \<Longrightarrow> keeps (live C) (receive_funding E b)"
  unfolding receive_funding_def Let_def
  by (intro keeps_bind keeps_lift keeps_here_all keeps_If keeps_return keeps_option keeps_Cons keeps_Nil lv.keeps_exit
      lv.keeps_silent[OF silent_outputs(2)] lv.keeps_silent[OF silent_tools(5)] lv.keeps_field keeps_state_initiating; simp add: core_def)

lemma keeps_receive_initiate:
  assumes "env_crypto E = C"
  shows "keeps (live C) (receive_initiate E m)"
proof -
  have "keeps (live C) (here (\<lambda>s. if waiting_to_initiate s then initiate E else return ()))"
  proof (rule keeps_here)
    fix s assume l: "live C s"
    show "live C (snd ((if waiting_to_initiate s then initiate E else return ()) s))"
    proof (cases "waiting_to_initiate s")
      case True
      with l have "between C s" by (auto simp: between_def live_def safe_def awaiting_def)
      with True show ?thesis by (simp add: triple_after[OF initiate_live[OF assms]])
    qed (simp add: l return_def)
  qed
  then show ?thesis unfolding receive_initiate_def
    by (intro keeps_Cons keeps_Nil lv.keeps_field) (simp_all add: core_def)
qed

lemma keeps_need: "(\<And>y. keeps P (f y)) \<Longrightarrow> keeps P (need x f)"
  unfolding need_def by (intro keeps_option keeps_throw)

lemma keeps_message:
  assumes "env_crypto E = C"
  shows "keeps (live C) (onmessage E msg)"
proof -
  have "keeps (live C) (dispatch E msg)"
    unfolding dispatch_def
    by (split incoming.split)
       (intro conjI allI impI keeps_need keeps_return lv.keeps_receive_version keeps_receive_price[OF assms] keeps_receive_funding[OF assms]
         keeps_receive_initiate[OF assms] keeps_receive_refund[OF assms] lv.keeps_receive_open lv.keeps_silent[OF silent_tools(6)]
         lv.keeps_receive_close)
  from triple_keeps[OF this] show ?thesis unfolding onmessage_def
    by (rule keeps_triple[OF triple_try]) (rule triple_return, assumption)+
qed

section \<open>Runs\<close>

text \<open>
  The events that call into the client: the page has loaded, the socket opens, starts to close, closes or brings a message, a timer
  fires, the user clicks or leaves, the price of a bitcoin arrives. Clock and random keys may differ at each.
\<close>

abbreviation after :: "'a clm \<Rightarrow> client \<Rightarrow> client" where
  "after m s \<equiv> snd (m s)"

inductive client_step :: "crypto \<Rightarrow> client \<Rightarrow> client \<Rightarrow> bool" for C where
  ready: "channel_state s = None \<Longrightarrow> env_crypto E = C \<Longrightarrow> client_step C s (after (document_ready E) s)"
| opens: "websocket s = Some CONNECTING \<Longrightarrow> client_step C s (after onopen (s\<lparr> websocket := Some OPEN \<rparr>))"
| message: "websocket s = Some OPEN \<Longrightarrow> env_crypto E = C \<Longrightarrow> client_step C s (after (onmessage E m) s)"
| closing: "websocket s = Some OPEN \<Longrightarrow> client_step C s (s\<lparr> websocket := Some CLOSING \<rparr>)"
| closes: "websocket s \<notin> {None, Some CLOSED} \<Longrightarrow> env_crypto E = C \<Longrightarrow> client_step C s (after (onclose E code) (s\<lparr> websocket := Some CLOSED \<rparr>))"
| reconnect: "reconnects s = xs @ d # ys \<Longrightarrow> client_step C s (after start_websockets (s\<lparr> reconnects := xs @ ys \<rparr>))"
| tick: "payment_update_timer s \<Longrightarrow> env_crypto E = C \<Longrightarrow> client_step C s (after (update_payment E) s)"
| disconnect_click: "env_crypto E = C \<Longrightarrow> client_step C s (after (user_disconnect E) s)"
| reconnect_click: "client_step C s (after user_reconnect s)"
| restore_click: "env_crypto E = C \<Longrightarrow> client_step C s (after (restore_wif_key E) s)"
| unload: "env_crypto E = C \<Longrightarrow> client_step C s (after (close_channel E) s)"
| ticker: "ticker_requests s > 0 \<Longrightarrow> client_step C s (after (receive_ticker usd) (s\<lparr> ticker_requests := ticker_requests s - 1 \<rparr>))"

inductive reachable :: "crypto \<Rightarrow> page \<Rightarrow> client \<Rightarrow> bool" for C p where
  loaded: "reachable C p (initial p)"
| stepped: "reachable C p s \<Longrightarrow> client_step C s s' \<Longrightarrow> reachable C p s'"

definition unconnected :: "bool \<Rightarrow> crypto \<Rightarrow> client \<Rightarrow> bool" where
  "unconnected begun C s \<longleftrightarrow> safe C s \<and> websocket s = None \<and> (begun \<longrightarrow> channel_state s \<noteq> None)"

lemma keeps_unconnected: "silent m \<Longrightarrow> keeps (unconnected b C) m"
proof -
  have "core s' = core s \<Longrightarrow> unconnected b C s \<Longrightarrow> unconnected b C s'" for s s'
    using sf.core_only[of s' s C] by (auto simp: unconnected_def core_def)
  then show "silent m \<Longrightarrow> keeps (unconnected b C) m" unfolding silent_def keeps_def by blast
qed

text \<open>Loading the page opens the socket, at the end; before that there is none.\<close>

lemma safe_ready:
  assumes "safe C s" "channel_state s = None"
  shows "safe C (after (document_ready E) s)"
proof -
  let ?N = "unconnected False C" and ?U = "unconnected True C"
  have us: "unconnected b C s \<Longrightarrow> safe C s" for b s by (simp add: unconnected_def)
  have k: "keeps (unconnected b C) m \<Longrightarrow> triple (unconnected b C) m (\<lambda>_. unconnected b C) (safe C)" for b and m :: "unit clm"
    by (drule triple_keeps) (erule triple_conseq; simp add: us)
  have b: "triple ?N (change_state BEGIN) (\<lambda>_. ?U) (safe C)"
    by (rule tripleI) (auto simp: change_state_def here_def throw_def modify_def sf.changes unconnected_def)
  have sw: "triple ?U start_websockets (\<lambda>_. safe C) (safe C)"
    unfolding start_websockets_def by (rule triple_modify) (auto simp: unconnected_def safe_defs)
  have fin: "triple (safe C) (block []) (\<lambda>_. safe C) (safe C)" by (rule triple_Nil)
  have body: "triple ?U (block [get_bitcoin_price, init_keys E, reset_counters, start_websockets]) (\<lambda>_. safe C) (safe C)"
    by (rule triple_Cons[OF k[OF keeps_unconnected[OF silent_tools(4)]] triple_Cons[OF k[OF keeps_unconnected[OF silent_ops(1)]]
        triple_Cons[OF k[OF keeps_unconnected[OF silent_tools(1)]] triple_Cons[OF sw fin]]]])
  have "triple ?N (set_channel_state E BEGIN) (\<lambda>_. safe C) (safe C)"
    using triple_Cons[OF b triple_Cons[OF body fin]] by (simp add: set_channel_state_def)
  then have "triple ?N (document_ready E) (\<lambda>_. safe C) (safe C)"
    unfolding document_ready_def
    by (rule triple_Cons[OF k[OF keeps_unconnected[OF silent_ops(5)]] triple_Cons[OF _ fin]])
  moreover have "?N s" using assms by (simp add: unconnected_def safe_def socket_ok_def)
  ultimately show ?thesis by (rule triple_after)
qed

text \<open>A socket that opens finds a client that waits for no signature.\<close>

lemma safe_opens:
  assumes "safe C s" "websocket s = Some CONNECTING"
  shows "safe C (after onopen (s\<lparr> websocket := Some OPEN \<rparr>))"
proof -
  have "keeps (live C) (here (\<lambda>s. if open_channel s then start_payment_channel else return ()))"
    by (intro keeps_here_all keeps_If lv.keeps_version keeps_return)
  moreover have "between C (s\<lparr> websocket := Some OPEN \<rparr>)"
    using assms by (auto simp: between_def live_def safe_defs)
  then have "live C (s\<lparr> websocket := Some OPEN, websocket_open := True, waiting_to_initiate := True \<rparr>)"
    by (auto simp: between_def live_def safe_defs)
  ultimately show ?thesis
    unfolding onopen_def by (auto simp: block_Cons modify_def keeps_def live_def split: prod.split sum.split)
qed

lemma safe_closes:
  assumes "safe C s" "websocket s \<notin> {None, Some CLOSED}"
  shows "safe C (after (onclose E code) (s\<lparr> websocket := Some CLOSED \<rparr>))"
proof (cases "code = POLICY_VIOLATION")
  case True
  have "safe C (s\<lparr> websocket := Some CLOSED \<rparr>)" using assms by (auto simp: safe_defs)
  moreover have "keeps (safe C) (onclose E POLICY_VIOLATION)" unfolding onclose_def if_True simp_thms
    by (intro keeps_Cons keeps_Nil sf.keeps_field sf.keeps_silent[OF silent_ops(5)]; simp add: core_def)
  ultimately show ?thesis using True by (simp add: keeps_def)
next
  case False
  then show ?thesis using assms
    by (auto simp: onclose_def block_Cons modify_def cancel_payments_def set_channel_state_def change_state_def here_def
        channel_transition_is_valid_def return_def safe_defs)
qed

lemma safe_step: "client_step C s s' \<Longrightarrow> safe C s \<Longrightarrow> safe C s'"
proof (induction rule: client_step.induct)
  case (ready s E)
  from ready.prems ready.hyps(1) show ?case by (rule safe_ready)
next
  case (opens s)
  from opens.prems opens.hyps show ?case by (rule safe_opens)
next
  case (message s E m)
  then have "live C (after (onmessage E m) s)" by (intro keepsD[OF keeps_message]) (simp_all add: live_def)
  then show ?case by (simp add: live_def)
next
  case (closing s)
  then show ?case by (auto simp: safe_defs)
next
  case (closes s E code)
  from closes.prems closes.hyps(1) show ?case by (rule safe_closes)
next
  case (reconnect s xs d ys)
  then show ?case by (auto simp: start_websockets_def modify_def safe_defs)
next
  case (tick s E)
  from tick.prems show ?case by (rule keepsD[OF sf.keeps_tick])
next
  case (disconnect_click E s)
  from disconnect_click.prems show ?case by (rule keepsD[OF sf.keeps_user(2)])
next
  case (reconnect_click s)
  then show ?case by (rule keepsD[OF sf.keeps_user(3)])
next
  case (restore_click E s)
  from restore_click.prems show ?case by (rule keepsD[OF sf.keeps_silent[OF silent_ops(3)]])
next
  case (unload E s)
  from unload.prems show ?case by (rule keepsD[OF sf.keeps_user(1)])
next
  case (ticker s usd)
  have "safe C (s\<lparr> ticker_requests := ticker_requests s - 1 \<rparr>)" by (rule sf.core_only[OF _ ticker.prems]) (simp add: core_def)
  then show ?case by (rule keepsD[OF sf.keeps_silent[OF silent_ops(4)]])
qed

lemma reachable_safe: "reachable C p s \<Longrightarrow> safe C s"
proof (induction rule: reachable.induct)
  case loaded
  show ?case by (simp add: initial_def safe_defs)
qed (rule safe_step)

end
