(* ===== verification/Opening.thy ===== *)
theory Opening
  imports Session
begin

text \<open>
  A session of the client with a provider, from the loading of the page to the open channel.
\<close>

section \<open>Up to the request for funds\<close>

definition greeted :: "env \<Rightarrow> client \<Rightarrow> bool" where
  "greeted E s \<longleftrightarrow> websocket s = Some OPEN \<and> waiting_to_initiate s \<and> funding_key s = Some (env_fresh1 E)
     \<and> funding_address s = Some (key_address (env_crypto E) (privToPub (env_crypto E) (env_fresh1 E))) \<and> client_key s = Some (env_fresh2 E)
     \<and> num_funding_outputs s = 0 \<and> funding_outputs_used s = 0 \<and> funding_outputs s = [] \<and> funding_tx_hashes s = []
     \<and> min_escrow s = IntN 1000 \<and> min_initial_payment s = IntN 1000 \<and> expiration_date s = None \<and> \<not> payment_update_timer s
     \<and> posted s = []"

lemma greeted_opened:
  "greeted E (after onopen ((after (document_ready E) (initial p))\<lparr> websocket := Some OPEN \<rparr>))"
  "channel_state (after onopen ((after (document_ready E) (initial p))\<lparr> websocket := Some OPEN \<rparr>)) = Some SENT_VERSION"
  "sent (after onopen ((after (document_ready E) (initial p))\<lparr> websocket := Some OPEN \<rparr>)) = [CLIENT_VERSION None]"
  "websocket (after (document_ready E) (initial p)) = Some CONNECTING"
  by (simp_all add: document_ready_def set_ui_state_def block_Cons modify_def update_display_def on_page_def Let_def here_def initial_def
      set_channel_state_def change_state_def channel_transition_is_valid_def get_bitcoin_price_def init_keys_def set_funding_key_def
      reset_counters_def start_websockets_def onopen_def start_payment_channel_def cancel_payments_def send_version_def send_message_def
      greeted_def)

lemma message_run: "dispatch E m s = (r, s') \<Longrightarrow> after (onmessage E m) s = s'"
  by (cases r) (auto simp: onmessage_def try_catch_def return_def)

lemma greeted_version:
  assumes "greeted E s" "channel_state s = Some SENT_VERSION" "major v = 1" "1 \<le> minor v"
  shows "\<exists>s'. after (onmessage E' (SERVER_VERSION (Some v))) s = s' \<and> greeted E s' \<and> channel_state s' = Some RECEIVED_VERSION \<and> sent s' = sent s"
proof -
  have "dispatch E' (SERVER_VERSION (Some v)) s = (Inr (), s\<lparr> channel_state := Some RECEIVED_VERSION \<rparr>)"
    using assms(2-4) by (simp add: dispatch_def need_def receive_version_def set_channel_state_def block_Cons change_state_def here_def modify_def
        channel_transition_is_valid_def return_def)
  from message_run[OF this] assms(1) show ?thesis by (simp add: greeted_def)
qed

lemma greeted_price:
  assumes "greeted E s" "channel_state s = Some RECEIVED_VERSION" "\<not> toNumber (proposed_price m) < 0" "pk_valid (env_crypto E') (multisig_key m)"
  shows "\<exists>s'. after (onmessage E' (PRICE (Some m))) s = s' \<and> greeted E s' \<and> channel_state s' = Some SENT_FUNDING_ADDRESS
    \<and> sent s' = sent s @ [FUNDING_ADDRESS (key_address (env_crypto E) (privToPub (env_crypto E) (env_fresh1 E)))]
    \<and> server_key s' = Some (multisig_key m)"
proof -
  let ?m = "receive_price E' m s"
  have "\<exists>s'. ?m = (Inr (), s') \<and> greeted E s' \<and> channel_state s' = Some SENT_FUNDING_ADDRESS
    \<and> sent s' = sent s @ [FUNDING_ADDRESS (key_address (env_crypto E) (privToPub (env_crypto E) (env_fresh1 E)))]
    \<and> server_key s' = Some (multisig_key m)"
    using assms by (simp add: receive_price_def reset_counters_def block_Cons modify_def here_def set_channel_state_def change_state_def
        channel_transition_is_valid_def greeted_def send_funding_address_def send_message_def create_uri_def on_page_def)
  then obtain s' where "?m = (Inr (), s')" "greeted E s'" "channel_state s' = Some SENT_FUNDING_ADDRESS"
    "sent s' = sent s @ [FUNDING_ADDRESS (key_address (env_crypto E) (privToPub (env_crypto E) (env_fresh1 E)))]"
    "server_key s' = Some (multisig_key m)" by blast
  then show ?thesis using message_run[of E' "PRICE (Some m)" s "Inr ()" s'] by (auto simp: dispatch_def need_def)
qed

section \<open>Funding\<close>

text \<open>The outputs of a transaction that pay an address, and a transaction all of whose outputs can be read.\<close>

fun our_outputs :: "crypto \<Rightarrow> address \<Rightarrow> bytes \<Rightarrow> nat \<Rightarrow> tx_output list \<Rightarrow> utxo list" where
  "our_outputs C a txid j [] = []"
| "our_outputs C a txid j (out # os) = (case output_script out of Inl _ \<Rightarrow> [] | Inr scr \<Rightarrow> if getAddressInfo C scr = Inr (Some a)
      then [\<lparr> txId = txid, utxo_outputIndex = int j, utxo_script = scr, utxo_satoshis = satoshis out \<rparr>] else [])
    @ our_outputs C a txid (j + 1) os"

definition readable :: "crypto \<Rightarrow> tx_output \<Rightarrow> bool" where
  "readable C out \<longleftrightarrow> (case output_script out of Inl _ \<Rightarrow> False | Inr scr \<Rightarrow> \<not> isl (getAddressInfo C scr))"

definition with_outputs :: "utxo list \<Rightarrow> bytes \<Rightarrow> client \<Rightarrow> client" where
  "with_outputs us txid s = s\<lparr> funding_outputs := funding_outputs s @ map (\<lambda>u. \<lparr> fo_utxo = u, output_state = UNPROCESSED \<rparr>) us,
     funding_tx_hashes := funding_tx_hashes s @ replicate (length us) txid, num_funding_outputs := num_funding_outputs s + length us \<rparr>"

lemma add_outputs_run:
  assumes "list_all (readable C) os" "funding_address s = Some a" "list_all (\<lambda>u. UnspentOutput u = Inr u) (our_outputs C a txid j os)"
  shows "add_outputs C txid j x os s = (Inr (foldl (+) x (map utxo_satoshis (our_outputs C a txid j os))),
    with_outputs (our_outputs C a txid j os) txid s)"
  using assms
proof (induction os arbitrary: j x s)
  case Nil
  then show ?case by (simp add: with_outputs_def return_def)
next
  case (Cons out os)
  obtain scr ad where o: "output_script out = Inr scr" "getAddressInfo C scr = Inr ad"
    using Cons.prems(1) by (cases "output_script out"; cases "getAddressInfo C (projr (output_script out))") (auto simp: readable_def)
  let ?u = "\<lparr> txId = txid, utxo_outputIndex = int j, utxo_script = scr, utxo_satoshis = satoshis out \<rparr>"
  show ?case
  proof (cases "ad = Some a")
    case True
    then have one: "add_output txid j scr out s = (Inr (), with_outputs [?u] txid s)"
      using Cons.prems(3) o by (simp add: add_output_def bind_def lift_def block_Cons modify_def with_outputs_def)
    have "funding_address (with_outputs [?u] txid s) = Some a" using Cons.prems(2) by (simp add: with_outputs_def)
    from Cons.IH[OF _ this, of "j + 1" "x + satoshis out"] Cons.prems o True
    have "add_outputs C txid (j + 1) (x + satoshis out) os (with_outputs [?u] txid s)
      = (Inr (foldl (+) (x + satoshis out) (map utxo_satoshis (our_outputs C a txid (j + 1) os))),
         with_outputs (our_outputs C a txid (j + 1) os) txid (with_outputs [?u] txid s))" by simp
    with one o True Cons.prems(2) show ?thesis
      by (simp add: bind_def lift_def here_def with_outputs_def)
  next
    case False
    with Cons.IH[of s "j + 1" x] Cons.prems o show ?thesis by (simp add: bind_def lift_def here_def)
  qed
qed

lemma foldl_ints: "list_all (\<lambda>u. \<exists>v \<ge> 1195. pays_hash h v u) us \<Longrightarrow> 0 \<le> n \<Longrightarrow> n + sum_list (map utxo_int us) < 2 ^ 53 \<Longrightarrow>
    foldl (+) (IntN n) (map utxo_satoshis us) = IntN (n + sum_list (map utxo_int us)) \<and> 0 \<le> sum_list (map utxo_int us)"
proof (induction us arbitrary: n)
  case (Cons u us)
  obtain v where v: "v \<ge> 1195" "pays_hash h v u" using Cons.prems(1) by auto
  have "0 \<le> utxo_int x" if "x \<in> set us" for x
    using that Cons.prems(1) pays_hash_int[of h _ x] by (fastforce simp: list_all_iff)
  then have pos: "0 \<le> sum_list (map utxo_int us)" by (intro sum_list_nonneg) auto
  have "utxo_satoshis u = IntN v" using v(2) by (simp add: pays_hash_def)
  moreover have "IntN n + IntN v = IntN (n + v)" using v Cons.prems(2,3) pos pays_hash_int[OF v(2)] by (intro Int_plus) auto
  moreover have "foldl (+) (IntN (n + v)) (map utxo_satoshis us) = IntN (n + v + sum_list (map utxo_int us))"
    using Cons.IH[of "n + v"] Cons.prems v pays_hash_int[OF v(2)] by auto
  ultimately show ?case using pays_hash_int[OF v(2)] pos v(1) by (simp add: algebra_simps)
qed simp

lemma escrow_total_foldl: "list_all (\<lambda>f. output_state f \<noteq> DEPLETED) fs \<Longrightarrow> escrow_total a fs = foldl (+) a (map (\<lambda>f. utxo_satoshis (fo_utxo f)) fs)"
  by (induction fs arbitrary: a) auto

lemma attach_run:
  assumes "block (map (processFunding C) (map fo_utxo (drop i (funding_outputs s)))) c = (Inr (), c1)" "the_consumer s = Some c" "i \<le> length (funding_outputs s)"
  shows "\<exists>fs. block (map (attach_one C) [i..<length (funding_outputs s)]) s = (Inr (), s\<lparr> the_consumer := Some c1, funding_outputs := fs \<rparr>)"
  using assms
proof (induction "length (funding_outputs s) - i" arbitrary: i s c)
  case 0
  then have "c1 = c" by simp
  with 0 have "s\<lparr> the_consumer := Some c1, funding_outputs := funding_outputs s \<rparr> = s" by simp
  moreover have "block (map (attach_one C) [i..<length (funding_outputs s)]) s = (Inr (), s)" using 0 by simp
  ultimately show ?case by (intro exI[of _ "funding_outputs s"]) (simp only:)
next
  case (Suc n)
  let ?fs = "funding_outputs s"
  have i: "i < length ?fs" using Suc.hyps(2) by simp
  then have "drop i ?fs = ?fs ! i # drop (Suc i) ?fs" by (rule Cons_nth_drop_Suc[symmetric])
  with Suc.prems(1) obtain c' where c': "processFunding C (fo_utxo (?fs ! i)) c = (Inr (), c')"
    "block (map (processFunding C) (map fo_utxo (drop (Suc i) ?fs))) c' = (Inr (), c1)" by (auto simp: returned)
  let ?s = "s\<lparr> the_consumer := Some c', funding_outputs := ?fs[i := (?fs ! i)\<lparr> output_state := ATTACHED \<rparr>] \<rparr>"
  have one: "attach_one C i s = (Inr (), ?s)"
    using i c'(1) Suc.prems(2) by (simp add: attach_one_def here_def on_consumer_def zoom_def block_Cons modify_def)
  have "block (map (processFunding C) (map fo_utxo (drop (Suc i) (funding_outputs ?s)))) c' = (Inr (), c1)" using c'(2) by simp
  from Suc.hyps(1)[OF _ this] Suc.hyps(2) i
  have "\<exists>fs. block (map (attach_one C) [Suc i..<length ?fs]) ?s = (Inr (), ?s\<lparr> the_consumer := Some c1, funding_outputs := fs \<rparr>)" by simp
  moreover have "[i..<length ?fs] = i # [Suc i..<length ?fs]" using i by (rule upt_conv_Cons)
  ultimately show ?case using one by (auto simp: block_Inr)
qed

lemma new_Consumer_key: "new_Consumer C now f1 f2 opts = Inr c \<Longrightarrow> commitmentKey c = opt_commitmentKey opts"
  by (auto simp: new_Consumer_def Let_def map_sum_Inr_iff)

lemma processFunding_key: "block (map (processFunding C) us) c = (Inr (), c') \<Longrightarrow> commitmentKey c' = commitmentKey c"
proof -
  have z: "keeps (\<lambda>c. commitmentKey c = k) (on_commitment m)" for k and m :: "unit txm"
    by (auto simp: keeps_def on_commitment_def zoom_def split: prod.split)
  have "keeps (\<lambda>c. commitmentKey c = k) (processFunding C u)" for k u
    unfolding processFunding_def by (intro keeps_Cons keeps_Nil keeps_here_all z)
  then have "keeps (\<lambda>c. commitmentKey c = k) (block (map (processFunding C) us))" for k by (intro keeps_block) auto
  then show "block (map (processFunding C) us) c = (Inr (), c') \<Longrightarrow> commitmentKey c' = commitmentKey c" by (rule keeps_at) auto
qed

text \<open>The options with which the client makes its consumer.\<close>

definition session_opts :: "crypto \<Rightarrow> bytes \<Rightarrow> bytes \<Rightarrow> bytes \<Rightarrow> address \<Rightarrow> consumer_opts" where
  "session_opts C fk ck k ra = \<lparr> opt_expires = None, opt_commitmentKey = ck, opt_providerPublicKey = k, opt_providerAddress = Some (key_address C k),
     opt_fundingKey = Some fk, opt_refundAddress = Some ra \<rparr>"

text \<open>A channel that the client can open with a provider: keys, the outputs that pay it, and a clock.\<close>

definition session_ok :: "env \<Rightarrow> bytes \<Rightarrow> bytes \<Rightarrow> bytes \<Rightarrow> address \<Rightarrow> utxo list \<Rightarrow> bool" where
  "session_ok E fk ck k ra us \<longleftrightarrow> consumer_ok (env_crypto E) fk (session_opts (env_crypto E) fk ck k ra)
     \<and> channel_keys_ok (env_crypto E) (session_opts (env_crypto E) fk ck k ra) \<and> funding_ok (env_crypto E) fk us
     \<and> 2000 \<le> sum_list (map utxo_int us) \<and> 1000 < sum_list (map utxo_int us) - kb_fee (120 + 107 * int (length us))
     \<and> 0 \<le> env_now E \<and> env_now E < 2147483648000"

text \<open>The client has sent the refund of the consumer \<open>c\<close> and waits.\<close>

definition asks :: "env \<Rightarrow> consumer \<Rightarrow> bytes \<Rightarrow> bytes \<Rightarrow> utxo list \<Rightarrow> client \<Rightarrow> bool" where
  "asks E c ck k us s \<longleftrightarrow> channel_state s = Some SENT_REFUND \<and> websocket s = Some OPEN \<and> refund_tx s = OfConsumer
     \<and> the_consumer s = Some (set_refund (channel_refund (env_crypto E) c (env_now E)) (set_commitment (signed_commitment (env_crypto E) c) c))
     \<and> client_key s = Some ck \<and> server_key s = Some k \<and> min_initial_payment s = IntN 1000
     \<and> refundable (env_crypto E) c \<and> commitmentKey c = ck \<and> com_publicKeys (commitmentTx c) = [privToPub (env_crypto E) ck, k]
     \<and> (\<forall>g. refund_signature (env_crypto E) [privToPub (env_crypto E) ck, k] (channel_refund (env_crypto E) c (env_now E)) g
          \<longrightarrow> openable (env_crypto E) c (env_now E) g)
     \<and> refund_value (commitment_inputs c) = sum_list (map utxo_int us) - kb_fee (120 + 107 * int (length us))
     \<and> 1000 < refund_value (commitment_inputs c)"

lemma create_run:
  assumes ok: "session_ok E fk ck k ra us"
    and s: "server_key s = Some k" "client_key s = Some ck" "funding_key s = Some fk" "refund_address s = Some ra" "expiration_date s = None"
    "funding_outputs_used s = 0" "num_funding_outputs s = length us" "funding_outputs s = map (\<lambda>u. \<lparr> fo_utxo = u, output_state = UNPROCESSED \<rparr>) us"
  shows "\<exists>c1 fs r. create_payment_channel E s = (Inr (), s\<lparr> refund_tx := r, the_consumer := Some c1, funding_outputs := fs, funding_outputs_used := length us \<rparr>)
    \<and> refundable (env_crypto E) c1 \<and> commitmentKey c1 = ck \<and> com_publicKeys (commitmentTx c1) = [privToPub (env_crypto E) ck, k]
    \<and> (\<forall>g. refund_signature (env_crypto E) [privToPub (env_crypto E) ck, k] (channel_refund (env_crypto E) c1 (env_now E)) g
          \<longrightarrow> openable (env_crypto E) c1 (env_now E) g)
    \<and> refund_value (commitment_inputs c1) = sum_list (map utxo_int us) - kb_fee (120 + 107 * int (length us))"
proof -
  let ?C = "env_crypto E" let ?o = "session_opts ?C fk ck k ra"
  have o: "consumer_options E k s = ?o" using s by (simp add: consumer_options_def session_opts_def)
  have ks: "channel_keys ?C ?o = [privToPub ?C ck, k]" by (simp add: channel_keys_def session_opts_def)
  obtain c c1 where c: "new_Consumer ?C (env_now E) (env_fresh1 E) (env_fresh2 E) ?o = Inr c" "block (map (processFunding ?C) us) c = (Inr (), c1)"
    "refundable ?C c1" "com_publicKeys (commitmentTx c1) = channel_keys ?C ?o"
    "\<And>g. refund_signature ?C (channel_keys ?C ?o) (channel_refund ?C c1 (env_now E)) g \<Longrightarrow> openable ?C c1 (env_now E) g"
    "refund_value (commitment_inputs c1) = sum_list (map utxo_int us) - kb_fee (120 + 107 * int (length us))"
    using funded_openable[of ?C fk ?o us "env_now E" "env_fresh1 E" "env_fresh2 E"] ok unfolding session_ok_def by metis
  let ?s = "s\<lparr> refund_tx := detach_refund s, the_consumer := Some c \<rparr>"
  have key: "commitmentKey c1 = ck" using processFunding_key[OF c(2)] new_Consumer_key[OF c(1)] by (simp add: session_opts_def)
  have "block (map (processFunding ?C) (map fo_utxo (drop 0 (funding_outputs ?s)))) c = (Inr (), c1)" using c(2) s(8) by (simp add: o_def)
  from attach_run[OF this] s(8) obtain fs where
    "block (map (attach_one ?C) [0..<length us]) ?s = (Inr (), ?s\<lparr> the_consumer := Some c1, funding_outputs := fs \<rparr>)" by auto
  with c(1) s(1,6,7) have "create_payment_channel E s = (Inr (), s\<lparr> refund_tx := detach_refund s, the_consumer := Some c1, funding_outputs := fs,
      funding_outputs_used := length us \<rparr>)"
    by (simp add: create_payment_channel_def block_Cons here_def o bind_def lift_def modify_def)
  with c key ks show ?thesis by metis
qed

lemma send_refund_run:
  assumes "refundable (env_crypto E) c" "0 \<le> env_now E" "env_now E < 2147483648000" "the_consumer s = Some c" "client_key s = Some ck"
    "websocket s = Some OPEN" "channel_state s = Some INITIATED"
  shows "send_refund E s = (Inr (), s\<lparr> channel_state := Some SENT_REFUND, refund_tx := OfConsumer,
    the_consumer := Some (set_refund (channel_refund (env_crypto E) c (env_now E)) (set_commitment (signed_commitment (env_crypto E) c) c)),
    sent := sent s @ [PROVIDE_REFUND (privToPub (env_crypto E) ck) (tx_wire (channel_refund (env_crypto E) c (env_now E)))] \<rparr>)"
proof -
  let ?C = "env_crypto E" let ?t = "channel_refund ?C c (env_now E)"
  let ?c = "set_refund ?t (set_commitment (signed_commitment ?C c) c)"
  have "u32 (seconds (env_now E) + ONE_DAY)" using seconds_round[OF assms(2,3)] assms(2,3) by simp
  from channel_refund_spends[OF assms(1) this] have "Transaction_toBuffer ?t = Inr (tx_wire ?t)"
    by (simp add: spends_channel_def toBuffer_wire)
  moreover have "setupRefund ?C (env_now E) c = (Inr (), ?c)" unfolding channel_refund_def by (rule setupRefund_run[OF assms(1)])
  ultimately show ?thesis using assms
    by (simp add: send_refund_def block_Cons on_consumer_def here_def zoom_def modify_def bind_def on_refund_set lift_def send_message_def
        change_state_def channel_transition_is_valid_def)
qed

text \<open>The client has the outputs \<open>us\<close> and enough money; \<^verbatim>\<open>initiate\<close> sends the refund.\<close>

lemma initiate_run:
  assumes ok: "session_ok E fk ck k ra us"
    and s: "server_key s = Some k" "client_key s = Some ck" "funding_key s = Some fk" "refund_address s = Some ra" "expiration_date s = None"
    "funding_outputs_used s = 0" "num_funding_outputs s = length us" "funding_outputs s = map (\<lambda>u. \<lparr> fo_utxo = u, output_state = UNPROCESSED \<rparr>) us"
    "min_escrow s = IntN 1000" "min_initial_payment s = IntN 1000" "websocket s = Some OPEN" "channel_state s = Some RECEIVED_FUNDING"
  shows "\<exists>c s'. initiate E s = (Inr (), s') \<and> asks E c ck k us s' \<and> payment_update_timer s' = payment_update_timer s \<and> posted s' = posted s
    \<and> sent s' = sent s @ [PROVIDE_REFUND (privToPub (env_crypto E) ck) (tx_wire (channel_refund (env_crypto E) c (env_now E)))]"
proof -
  let ?n = "sum_list (map utxo_int us)"
  have f: "list_all (\<lambda>u. \<exists>v \<ge> 1195. pays_hash (key_hash (env_crypto E) fk) v u) us" "?n < 2 ^ 52" "2000 \<le> ?n"
    using ok by (simp_all add: session_ok_def funding_ok_def spendable_def)
  have "escrow_total (IntN 0) (funding_outputs s) = IntN ?n"
    using foldl_ints[OF f(1), of 0] f(2) s(8) by (simp add: escrow_total_foldl list_all_iff o_def)
  then have t: "escrow_total 0 (funding_outputs s) = IntN ?n" by (simp add: zero_jsnum_def)
  have d: "IntN ?n - IntN 1000 = IntN (?n - 1000)" using f by (intro Int_minus) simp
  obtain w where u: "update_escrow_amount s = (Inr (), s\<lparr> escrow_amount := IntN (?n - 1000), coin_width := w \<rparr>)"
    using t d by (simp add: update_escrow_amount_def modify_def Let_def del: of_int_diff)
  let ?s1 = "s\<lparr> escrow_amount := IntN (?n - 1000), coin_width := w, waiting_to_initiate := False, attempt_reopen_channel := True \<rparr>"
  obtain c fs r where c: "create_payment_channel E ?s1 = (Inr (), ?s1\<lparr> refund_tx := r, the_consumer := Some c, funding_outputs := fs, funding_outputs_used := length us \<rparr>)"
    "refundable (env_crypto E) c" "commitmentKey c = ck" "com_publicKeys (commitmentTx c) = [privToPub (env_crypto E) ck, k]"
    "\<forall>g. refund_signature (env_crypto E) [privToPub (env_crypto E) ck, k] (channel_refund (env_crypto E) c (env_now E)) g
          \<longrightarrow> openable (env_crypto E) c (env_now E) g"
    "refund_value (commitment_inputs c) = ?n - kb_fee (120 + 107 * int (length us))"
    using create_run[OF ok, of ?s1] s by auto
  let ?s2 = "?s1\<lparr> refund_tx := r, the_consumer := Some c, funding_outputs := fs, funding_outputs_used := length us, channel_state := Some INITIATED \<rparr>"
  have now: "0 \<le> env_now E" "env_now E < 2147483648000" using ok by (simp_all add: session_ok_def)
  note sr = send_refund_run[OF c(2) now, of ?s2 ck]
  have big: "\<not> IntN (?n - 1000) < IntN 1000" using f(3) by (simp add: less_jsnum_def)
  have "initiate E s = send_refund E ?s2"
    using u c(1) big s(9,12)
    by (simp add: initiate_def block_Cons here_def modify_def change_state_def channel_transition_is_valid_def del: of_int_diff split: prod.split sum.split)
  with sr s c ok show ?thesis by (auto simp: asks_def session_ok_def)
qed

text \<open>A funding transaction of which the outputs \<open>us\<close> pay the client, with a refund address in its inputs.\<close>

definition funds :: "crypto \<Rightarrow> bytes \<Rightarrow> bytes \<Rightarrow> address \<Rightarrow> utxo list \<Rightarrow> bool" where
  "funds C fk b ra us \<longleftrightarrow> (\<exists>tx txid scr. Transaction_fromBuffer b = Inr tx \<and> Transaction_hash C tx = Inr txid
     \<and> refund_script C tx = Inr (Some scr) \<and> getAddressInfo C scr = Inr (Some ra) \<and> list_all (readable C) (outputs tx)
     \<and> us = our_outputs C (key_address C (privToPub C fk)) txid 0 (outputs tx))"

lemma funding_run:
  assumes ok: "session_ok E fk ck k ra us" and f: "funds (env_crypto E) fk b ra us" and g: "greeted E0 s"
    and s: "channel_state s = Some SENT_FUNDING_ADDRESS" "server_key s = Some k" "env_crypto E0 = env_crypto E" "env_fresh1 E0 = fk" "env_fresh2 E0 = ck"
  shows "\<exists>c s'. after (onmessage E (FUNDING (Some b))) s = s' \<and> asks E c ck k us s' \<and> \<not> payment_update_timer s' \<and> posted s' = []
    \<and> sent s' = sent s @ [PROVIDE_REFUND (privToPub (env_crypto E) ck) (tx_wire (channel_refund (env_crypto E) c (env_now E)))]"
proof -
  let ?C = "env_crypto E" let ?a = "key_address ?C (privToPub ?C fk)" let ?n = "sum_list (map utxo_int us)"
  obtain tx txid scr where t: "Transaction_fromBuffer b = Inr tx" "Transaction_hash ?C tx = Inr txid" "refund_script ?C tx = Inr (Some scr)"
    "getAddressInfo ?C scr = Inr (Some ra)" "list_all (readable ?C) (outputs tx)" "us = our_outputs ?C ?a txid 0 (outputs tx)"
    using f by (auto simp: funds_def)
  have p: "list_all (\<lambda>u. \<exists>v \<ge> 1195. pays_hash (key_hash ?C fk) v u) us" "?n < 2 ^ 52" "2000 \<le> ?n"
    using ok by (simp_all add: session_ok_def funding_ok_def spendable_def)
  have u: "list_all (\<lambda>u. UnspentOutput u = Inr u) us" using p(1) by (auto simp: list_all_iff dest: UnspentOutput_pays)
  have "foldl (+) (IntN 0) (map utxo_satoshis us) = IntN ?n" using foldl_ints[OF p(1), of 0] p(2) by simp
  then have sum: "foldl (+) 0 (map utxo_satoshis us) = IntN ?n" by (simp add: zero_jsnum_def)
  let ?s1 = "s\<lparr> refund_address := Some ra \<rparr>"
  have "funding_address ?s1 = Some ?a" using g s by (simp add: greeted_def)
  from add_outputs_run[OF t(5) this] u have ad: "add_outputs ?C txid 0 0 (outputs tx) ?s1 = (Inr (IntN ?n), with_outputs us txid ?s1)"
    using t(6) sum by simp
  obtain e w where ue: "update_escrow_amount (with_outputs us txid ?s1) = (Inr (), (with_outputs us txid ?s1)\<lparr> escrow_amount := e, coin_width := w \<rparr>)"
    by (simp add: update_escrow_amount_def modify_def Let_def)
  let ?s2 = "(with_outputs us txid ?s1)\<lparr> escrow_amount := e, coin_width := w, channel_state := Some RECEIVED_FUNDING \<rparr>"
  have init: "\<exists>c s'. initiate E ?s2 = (Inr (), s') \<and> asks E c ck k us s' \<and> payment_update_timer s' = payment_update_timer ?s2 \<and> posted s' = posted ?s2
    \<and> sent s' = sent ?s2 @ [PROVIDE_REFUND (privToPub ?C ck) (tx_wire (channel_refund ?C c (env_now E)))]"
    by (rule initiate_run[OF ok]) (use g s in \<open>simp_all add: with_outputs_def greeted_def\<close>)
  have "\<not> IntN ?n \<le> 0" using p(3) by (simp add: less_eq_jsnum_def zero_jsnum_def)
  moreover have "waiting_to_initiate ?s2" "funding_tx_hashes s = []" using g by (simp_all add: with_outputs_def greeted_def)
  ultimately have "dispatch E (FUNDING (Some b)) s = (case initiate E ?s2 of (Inl e, s') \<Rightarrow> (Inl e, s') | (Inr _, s') \<Rightarrow> (Inr (), s'))"
    using t ad ue
    by (simp add: dispatch_def need_def receive_funding_def Let_def bind_def lift_def here_def block_Cons modify_def set_channel_state_def
        change_state_def channel_transition_is_valid_def split: prod.split sum.split)
  with init obtain c s' where *: "dispatch E (FUNDING (Some b)) s = (Inr (), s')" "asks E c ck k us s'" "payment_update_timer s' = payment_update_timer ?s2"
    "posted s' = posted ?s2" "sent s' = sent ?s2 @ [PROVIDE_REFUND (privToPub ?C ck) (tx_wire (channel_refund ?C c (env_now E)))]" by auto
  have "posted ?s2 = []" "\<not> payment_update_timer ?s2" "sent ?s2 = sent s" using g by (simp_all add: with_outputs_def greeted_def)
  with message_run[OF *(1)] *(2-5) show ?thesis by auto
qed

section \<open>The contract\<close>

lemma refund_signature_parsed:
  assumes "is_der d" shows "new_TransactionSignature d txid (Some k) ty = Inr
    \<lparr> sig_publicKey = k, sig_prevTxId = txid, sig_outputIndex = 0, sig_inputIndex = 0, sig_der = d, sigtype = ty \<rparr>"
proof -
  obtain g where g: "sig_ok g" "toDER g = Inr d" using assms by (auto simp: is_der_def)
  then have "fromDER d True = Inr g" using fromDER_wire[OF g(1), of True] toDER_wire[OF g(1)] by simp
  moreover have "d \<noteq> []" using g toDER_wire[OF g(1)] by (auto simp: der_wire_def)
  ultimately show ?thesis using g(2) by (simp add: new_TransactionSignature_def)
qed

lemma opened_fields:
  assumes "openable C c now g"
  shows "com_tx (commitmentTx (opened C c now g)) = signed_commitment C c" "commitmentKey (opened C c now g) = commitmentKey c"
    "Transaction_toBuffer (signed_commitment C c) = Inr (tx_wire (signed_commitment C c))"
    "\<exists>t. refundTx (opened C c now g) = Some t \<and> Transaction_toBuffer t = Inr (tx_wire t)"
proof -
  have r: "refundable C c" using assms by (simp add: openable_def)
  have "tx_ok (signed_commitment C c)"
    using r signable_signed_all[of C "fundingKey c" "com_tx (commitmentTx c)"]
    by (auto simp: signed_commitment_def signable_def refundable_def Let_def)
  then show "Transaction_toBuffer (signed_commitment C c) = Inr (tx_wire (signed_commitment C c))" by (rule toBuffer_wire)
  show "\<exists>t. refundTx (opened C c now g) = Some t \<and> Transaction_toBuffer t = Inr (tx_wire t)"
    using toBuffer_wire[OF refund_signed(6)[OF assms]] by (simp add: opened_def Let_def)
qed (simp_all add: opened_def Let_def set_refund_def set_commitment_def)

text \<open>The first payment of \<open>d\<close> and the message with the contract.\<close>

lemma send_contract_run:
  assumes p: "paying (env_crypto E) keys a 0 c" "0 \<le> d" "d < a" and b: "Transaction_toBuffer (com_tx (commitmentTx c)) = Inr b"
    and s: "the_consumer s = Some c" "client_key s = Some (commitmentKey c)" "min_initial_payment s = IntN d" "websocket s = Some OPEN"
      "channel_state s = Some RECEIVED_REFUND"
  shows "\<exists>c' g s'. send_contract E s = (Inr (), s') \<and> channel_state s' = Some SENT_CONTRACT \<and> websocket s' = Some OPEN
    \<and> the_consumer s' = Some c' \<and> client_key s' = Some (commitmentKey c') \<and> paying (env_crypto E) keys a d c' \<and> posted s' = posted s \<and> payment_update_timer s' = payment_update_timer s
    \<and> sent s' = sent s @ [PROVIDE_CONTRACT b (fromNumber (IntN (a - d)) True) (g @ [0x83])]
    \<and> (\<exists>p. paymentTx c' = Some p \<and> covers (env_crypto E) (pay_tx p) 0 (redeem_of keys) (keys ! 0) g 0x83)"
proof -
  let ?C = "env_crypto E"
  have ty: "channel_sigtype 0x83" by (simp add: channel_sigtype_def hasDefinedHashtype_def)
  obtain c' q g where i: "incrementPaymentBy ?C (IntN d) 0x83 c = (Inr (), c')" "paying ?C keys a d c'" "paymentTx c' = Some q"
    "getSignatures ?C (commitmentKey c') 0x83 (pay_tx q) = Inr [g]" "covers ?C (pay_tx q) 0 (redeem_of keys) (keys ! 0) (sig_der g) 0x83"
    "map satoshis (outputs (pay_tx q)) = [IntN (a - d)]" "commitmentTx c' = commitmentTx c"
    using increment_step[OF p(1,2) _ ty] p(2,3) by auto
  have k: "commitmentKey c' = commitmentKey c" using incrementPaymentBy_only[of ?C "IntN d" "0x83" c] i(1) by auto
  obtain out os where o: "outputs (pay_tx q) = out # os" "satoshis out = IntN (a - d)" using i(6) by auto
  show ?thesis
    using i(1-5,7) k o b s
    by (simp add: send_contract_def Let_def block_Cons bind_def on_consumer_def here_def zoom_def lift_def contract_hash_def modify_def
        get_payment_update_signature_def with_payment_def return_def send_message_def change_state_def channel_transition_is_valid_def del: of_int_diff)
qed

text \<open>A signature of the refund that the provider may answer with, as the bytes of the message.\<close>

definition refund_answer :: "crypto \<Rightarrow> bytes list \<Rightarrow> transaction \<Rightarrow> bytes \<Rightarrow> bool" where
  "refund_answer C keys t d \<longleftrightarrow> good_sig d 0x82 \<and> covers C t 0 (redeem_of keys) (keys ! 1) d 0x82"

text \<open>The client pays on a channel of amount \<open>a\<close>, of which \<open>q\<close> is paid; its refund and its contract are out.\<close>

definition contracted :: "crypto \<Rightarrow> bytes list \<Rightarrow> int \<Rightarrow> int \<Rightarrow> client \<Rightarrow> bool" where
  "contracted C keys a q s \<longleftrightarrow> websocket s = Some OPEN \<and> (\<exists>c r. the_consumer s = Some c \<and> client_key s = Some (commitmentKey c) \<and> paying C keys a q c
     \<and> posted s = [r] \<and> first_input_verifies C r = Inr True)"

lemma post_run:
  assumes "refund_tx s = OfConsumer" "the_consumer s = Some c" "refundTx c = Some t" "Transaction_toBuffer t = Inr b"
  shows "post_refund_tx C s = (Inr (), s\<lparr> posted := posted s @ [t] \<rparr>)"
proof -
  have "c\<lparr> refundTx := Some t \<rparr> = c" using assms(3) by simp
  moreover have "s\<lparr> the_consumer := Some c \<rparr> = s" using assms(2) by simp
  ultimately show ?thesis using assms
    by (simp add: post_refund_tx_def bind_def on_refund_tx_def on_consumer_def on_refund_def here_def zoom_def lift_def return_def modify_def
        del: client.surjective consumer.surjective)
qed

lemma answer_run:
  assumes a: "asks E c ck k us s" and d: "refund_answer (env_crypto E) [privToPub (env_crypto E) ck, k] (channel_refund (env_crypto E) c (env_now E)) d"
    and s: "\<not> payment_update_timer s" "posted s = []"
  shows "\<exists>s' b g. after (onmessage E (RETURN_REFUND (Some (d @ [x])))) s = s' \<and> channel_state s' = Some SENT_CONTRACT \<and> \<not> payment_update_timer s'
    \<and> contracted (env_crypto E) [privToPub (env_crypto E) ck, k] (sum_list (map utxo_int us) - kb_fee (120 + 107 * int (length us))) 1000 s'
    \<and> sent s' = sent s @ [PROVIDE_CONTRACT b (fromNumber (IntN (sum_list (map utxo_int us) - kb_fee (120 + 107 * int (length us)) - 1000)) True) (g @ [0x83])]"
proof -
  let ?C = "env_crypto E" let ?keys = "[privToPub ?C ck, k]" let ?t = "channel_refund ?C c (env_now E)"
  let ?v = "sum_list (map utxo_int us) - kb_fee (120 + 107 * int (length us))" let ?id = "commitment_id ?C c"
  let ?g = "\<lparr> sig_publicKey = k, sig_prevTxId = ?id, sig_outputIndex = 0, sig_inputIndex = 0, sig_der = d, sigtype = 0x82 \<rparr>"
  let ?c2 = "set_refund ?t (set_commitment (signed_commitment ?C c) c)" let ?c3 = "opened ?C c (env_now E) ?g"
  have "refund_signature ?C ?keys ?t ?g" using d by (simp add: refund_signature_def refund_answer_def)
  then have op: "openable ?C c (env_now E) ?g" using a by (simp add: asks_def)
  note f = opened_fields[OF op]
  obtain t where t: "refundTx ?c3 = Some t" "Transaction_toBuffer t = Inr (tx_wire t)" "first_input_verifies ?C t = Inr True"
    using f(4) opened_simps[OF op] by auto
  have sig: "new_TransactionSignature d ?id (Some k) 0x82 = Inr ?g" using d by (intro refund_signature_parsed) (simp add: refund_answer_def good_sig_def)
  have id: "Transaction_hash ?C (com_tx (commitmentTx ?c2)) = Inr ?id"
    using f(3) by (simp add: Transaction_hash_def commitment_id_def set_refund_def set_commitment_def)
  obtain c2' where run: "on_refund (applySignature ?C ?g) ?c2 = (Inr (), c2')" "validateRefund ?C c2' = (Inr (), ?c3)"
    using validateRefund_run[OF op] by (auto simp: returned)
  let ?s3 = "s\<lparr> the_consumer := Some ?c3, posted := [t], channel_state := Some RECEIVED_REFUND \<rparr>"
  have "paying ?C ?keys ?v 0 ?c3" using opened_paying[OF op] a by (simp add: asks_def)
  moreover have "1000 < ?v" using a by (simp add: asks_def)
  moreover have "Transaction_toBuffer (com_tx (commitmentTx ?c3)) = Inr (tx_wire (signed_commitment ?C c))" using f by simp
  moreover have "client_key ?s3 = Some (commitmentKey ?c3)" "min_initial_payment ?s3 = IntN 1000" "websocket ?s3 = Some OPEN"
    using a f(2) by (simp_all add: asks_def)
  ultimately obtain c' g s' where c: "send_contract E ?s3 = (Inr (), s')" "channel_state s' = Some SENT_CONTRACT" "websocket s' = Some OPEN"
    "the_consumer s' = Some c'" "client_key s' = Some (commitmentKey c')" "paying ?C ?keys ?v 1000 c'" "posted s' = posted ?s3" "payment_update_timer s' = payment_update_timer ?s3"
    "sent s' = sent ?s3 @ [PROVIDE_CONTRACT (tx_wire (signed_commitment ?C c)) (fromNumber (IntN (?v - 1000)) True) (g @ [0x83])]"
    using send_contract_run[of E ?keys ?v ?c3 1000 _ ?s3] by auto
  have post: "post_refund_tx ?C (s\<lparr> the_consumer := Some ?c3 \<rparr>) = (Inr (), s\<lparr> the_consumer := Some ?c3, posted := [t] \<rparr>)"
    using post_run[OF _ _ t(1,2), of "s\<lparr> the_consumer := Some ?c3 \<rparr>" ?C] a s(2) by (simp add: asks_def)
  have "dispatch E (RETURN_REFUND (Some (d @ [x]))) s = (Inr (), s')"
    using a s(2) sig id run post c(1)
    by (simp add: asks_def dispatch_def need_def receive_refund_def Let_def bind_def on_consumer_def here_def zoom_def lift_def try_catch_def block_Cons
        on_refund_tx_def validate_refund_def modify_def set_channel_state_def change_state_def
        channel_transition_is_valid_def)
  with message_run[OF this] c s t(3) show ?thesis by (auto simp: contracted_def)
qed

lemma open_run:
  assumes "contracted C keys a q s" "channel_state s = Some SENT_CONTRACT"
  shows "\<exists>s'. after (onmessage E CHANNEL_OPEN) s = s' \<and> channel_state s' = Some RECEIVED_CHANNEL_OPEN \<and> ui_state s' = Some CONNECTED
    \<and> payment_update_timer s' \<and> \<not> fullyUsedUp s' \<and> contracted C keys a q s' \<and> sent s' = sent s"
proof -
  obtain s' where d: "dispatch E CHANNEL_OPEN s = (Inr (), s')" "channel_state s' = Some RECEIVED_CHANNEL_OPEN" "ui_state s' = Some CONNECTED"
     "payment_update_timer s'" "\<not> fullyUsedUp s'" "contracted C keys a q s'" "sent s' = sent s"
    using assms by (cases "payment_update_timer s") (auto simp: dispatch_def receive_channel_open_def block_Cons modify_def set_channel_state_def change_state_def here_def
        channel_transition_is_valid_def return_def set_ui_state_def on_page_def contracted_def)
  from message_run[OF d(1)] d(2-7) show ?thesis by auto
qed

section \<open>The session\<close>

text \<open>The page loads, the socket opens and messages arrive.\<close>

definition session :: "env \<Rightarrow> env \<Rightarrow> page \<Rightarrow> incoming list \<Rightarrow> client" where
  "session E0 E p ms = fold (\<lambda>m. after (onmessage E m)) ms (after onopen ((after (document_ready E0) (initial p))\<lparr> websocket := Some OPEN \<rparr>))"

lemma session_snoc: "session E0 E p (ms @ [m]) = after (onmessage E m) (session E0 E p ms)"
  by (simp add: session_def)

lemma session_reachable:
  assumes "env_crypto E0 = C" "env_crypto E = C"
  shows "reachable C p (session E0 E p ms) \<and> websocket (session E0 E p ms) = Some OPEN"
proof (induction ms rule: rev_induct)
  case Nil
  have "reachable C p (after (document_ready E0) (initial p))"
    by (rule stepped[OF loaded ready]) (simp_all add: initial_def assms)
  from stepped[OF this opens] greeted_opened(4)[of E0 p] have "reachable C p (session E0 E p [])" by (simp add: session_def)
  with greeted_opened(1)[of E0 p] show ?case by (simp add: session_def greeted_def)
next
  case (snoc m ms)
  then have "live C (session E0 E p ms)" using reachable_safe by (auto simp: live_def)
  then have "live C (session E0 E p (ms @ [m]))" unfolding session_snoc using keepsD[OF keeps_message[OF assms(2)]] by blast
  moreover have "reachable C p (session E0 E p (ms @ [m]))" unfolding session_snoc
    using snoc.IH assms(2) by (blast intro: stepped message)
  ultimately show ?case by (simp add: live_def)
qed

lemma session_asks:
  fixes p :: page
  assumes ok: "session_ok E fk ck k ra us" "funds (env_crypto E) fk b ra us"
    and e: "env_crypto E0 = env_crypto E" "env_fresh1 E0 = fk" "env_fresh2 E0 = ck"
    and m: "major v = 1" "1 \<le> minor v" "\<not> toNumber (proposed_price m) < 0" "multisig_key m = k"
  defines "s \<equiv> session E0 E p [SERVER_VERSION (Some v), PRICE (Some m), FUNDING (Some b)]"
  shows "\<exists>c. asks E c ck k us s \<and> \<not> payment_update_timer s \<and> posted s = []
    \<and> sent s = [CLIENT_VERSION None, FUNDING_ADDRESS (key_address (env_crypto E) (privToPub (env_crypto E) fk)),
        PROVIDE_REFUND (privToPub (env_crypto E) ck) (tx_wire (channel_refund (env_crypto E) c (env_now E)))]"
proof -
  have pk: "pk_valid (env_crypto E) (multisig_key m)"
    using ok(1) m(4) by (simp add: session_ok_def channel_keys_ok_def channel_keys_def session_opts_def good_keys_def good_pub_def)
  let ?s0 = "session E0 E p []"
  have s0: "greeted E0 ?s0" "channel_state ?s0 = Some SENT_VERSION" "sent ?s0 = [CLIENT_VERSION None]"
    using greeted_opened[of E0 p] by (simp_all add: session_def)
  obtain s1 where s1: "after (onmessage E (SERVER_VERSION (Some v))) ?s0 = s1" "greeted E0 s1" "channel_state s1 = Some RECEIVED_VERSION" "sent s1 = sent ?s0"
    using greeted_version[OF s0(1,2) m(1,2)] by blast
  obtain s2 where s2: "after (onmessage E (PRICE (Some m))) s1 = s2" "greeted E0 s2" "channel_state s2 = Some SENT_FUNDING_ADDRESS"
    "sent s2 = sent s1 @ [FUNDING_ADDRESS (key_address (env_crypto E) (privToPub (env_crypto E) fk))]" "server_key s2 = Some (multisig_key m)"
    using greeted_price[OF s1(2,3) m(3) pk] e by metis
  have "s = after (onmessage E (FUNDING (Some b))) s2" using s1(1) s2(1) by (simp add: s_def session_def)
  with funding_run[OF ok s2(2,3) _ e] s2(4,5) s1(4) s0(3) m(4) show ?thesis by auto
qed

lemma session_answers:
  assumes a: "asks E c ck k us s" and ok: "session_ok E fk ck k ra us" and sk: "good_key (env_crypto E) sk" "privToPub (env_crypto E) sk = k"
  shows "refund_answer (env_crypto E) [privToPub (env_crypto E) ck, k] (channel_refund (env_crypto E) c (env_now E))
    (sig_der (own_sig (env_crypto E) sk [privToPub (env_crypto E) ck, k] 0x82 (channel_refund (env_crypto E) c (env_now E))))"
proof -
  let ?C = "env_crypto E" let ?keys = "[privToPub ?C ck, k]"
  have keys: "good_keys ?C ?keys" using ok by (simp add: session_ok_def channel_keys_ok_def channel_keys_def session_opts_def)
  have now: "0 \<le> env_now E" "env_now E < 2147483648000" using ok by (simp_all add: session_ok_def)
  have "u32 (seconds (env_now E) + ONE_DAY)" using seconds_round[OF now] now by simp
  then have "spends_channel ?C ?keys [None, None] (channel_refund ?C c (env_now E))"
    using channel_refund_spends[of ?C c "env_now E"] a by (simp add: asks_def)
  from provider_signature[OF keys sk(1) _ this] sk(2) show ?thesis
    by (simp add: refund_answer_def refund_signature_def) (simp add: own_sig_def)
qed


subsection \<open>A sample session\<close>

text \<open>A transaction that pays a key's address with a single output, signed by another key.\<close>

definition payer_script :: "crypto \<Rightarrow> bytes \<Rightarrow> script" where
  "payer_script C k = sig_script (privToPub C k) (ecdsa_sign C k []) 1"

definition funding_tx :: "crypto \<Rightarrow> bytes \<Rightarrow> bytes \<Rightarrow> int \<Rightarrow> transaction" where
  "funding_tx C payer fk v = new_Transaction\<lparr>
     inputs := [\<lparr> prevTxId = replicate 32 4, outputIndex = 0, sequenceNumber = DEFAULT_SEQNUMBER,
       in_scriptBuffer = concat (map chunk_wire (payer_script C payer)), in_script = None, in_output = None, in_class = PlainInput \<rparr>],
     outputs := [change_output (p2pkh (key_hash C fk)) v] \<rparr>"

lemma funding_tx_funds:
  assumes g: "good_hash C" "good_key C payer" "length (tx_wire (funding_tx C payer fk v)) < 2 ^ 31"
    and v: "0 \<le> v" "bn_fromNumber (IntN v) = v" "bn_toNumber v = IntN v" "v < 2 ^ 64"
  shows "\<exists>txid. length txid = 32 \<and> funds C fk (tx_wire (funding_tx C payer fk v)) (key_address C (privToPub C payer))
    [\<lparr> txId = txid, utxo_outputIndex = 0, utxo_script = p2pkh (key_hash C fk), utxo_satoshis = IntN v \<rparr>]"
proof -
  let ?t = "funding_tx C payer fk v" let ?scr = "payer_script C payer" let ?h = "key_hash C fk"
  have k: "pk_valid C (privToPub C payer)" "length (privToPub C payer) < 76" "privToPub C payer \<noteq> []"
    "70 \<le> length (ecdsa_sign C payer [])" "length (ecdsa_sign C payer []) \<le> 72"
    using g(2) by (auto simp: good_key_def)
  have h: "length ?h = 20" using g(1) by (simp add: good_hash_def)
  have ps: "list_all wf_chunk ?scr" "length (concat (map chunk_wire ?scr)) < 2 ^ 31"
    using k wf_sig_script[of "ecdsa_sign C payer []" "privToPub C payer" 1]
    by (simp_all add: payer_script_def sig_script_def key_chunk_def chunk_wire_def push_width_def)
  have parsed: "Script_fromBuffer (concat (map chunk_wire ?scr)) = Inr ?scr" by (rule wf_fromBuffer[OF ps])
  have out: "Script_fromBuffer (concat (map chunk_wire (p2pkh ?h))) = Inr (p2pkh ?h)"
    using wf_p2pkh[OF h] p2pkh_wire_length[OF h] by (intro wf_fromBuffer) auto
  have pin: "isPublicKeyHashIn C ?scr" using k by (simp add: payer_script_def isPublicKeyHashIn_def sig_script_def key_chunk_def pk_isValid_def)
  have addr: "getAddressInfo C ?scr = Inr (Some (key_address C (privToPub C payer)))"
    using pin wf_toBuffer[OF ps(1)] k
    by (simp add: getAddressInfo_def isScriptHashOut_def isPublicKeyHashOut_def buf_or_throw_def key_address_def)
       (simp add: payer_script_def sig_script_def key_chunk_def chunk_wire_def push_width_def)
  have ok: "tx_ok ?t" using ps(2) v p2pkh_wire_length[OF h]
    by (simp add: funding_tx_def tx_ok_def input_ok_def output_ok_def new_Transaction_def change_output_def)
  have "Transaction_fromBuffer (tx_wire ?t) = Inr (strip ?t)" by (rule fromBuffer_wire[OF ok g(3)])
  moreover have "Transaction_hash C (strip ?t) = Inr (rev (sha256sha256 C (tx_wire ?t)))" using ok by (simp add: Transaction_hash_def toBuffer_wire)
  moreover have "refund_script C (strip ?t) = Inr (Some ?scr)"
    using parsed pin by (simp add: refund_script_def strip_def funding_tx_def new_Transaction_def input_script_def script_getter_def strip_input_def)
  moreover have "output_script (strip_output (change_output (p2pkh ?h) v)) = Inr (p2pkh ?h)" "satoshis (strip_output (change_output (p2pkh ?h) v)) = IntN v"
    using out v by (simp_all add: output_script_def strip_output_def change_output_def script_getter_def)
  ultimately show ?thesis using addr getAddressInfo_p2pkh[OF h, of C] g(1)
    by (intro exI[of _ "rev (sha256sha256 C (tx_wire ?t))"])
       (simp add: funds_def good_hash_def strip_def funding_tx_def new_Transaction_def readable_def key_address_def)
qed

definition sample_env :: env where
  "sample_env = \<lparr> env_crypto = sample_crypto, env_now = sample_now, env_fresh1 = [1], env_fresh2 = [2] \<rparr>"

definition sample_page :: page where
  "sample_page = \<lparr> repayment_prompt = NoPrompt, disconnect_button = False, reconnect_button = False, starting_status = False, online_status = False,
     disconnected_status = False, mult_tabs_status = False, multiple_tabs_gif = False, qr_div = False, uri_string = None, price_display = None,
     money_spent = None, time_display = None, alerts = [] \<rparr>"

definition sample_version :: version_msg where
  "sample_version = \<lparr> major = 1, minor = 1 \<rparr>"

definition sample_price :: price_msg where
  "sample_price = \<lparr> proposed_price = \<lparr> low = 25, high = 0, is_unsigned = True \<rparr>, multisig_key = privToPub sample_crypto [3] \<rparr>"

lemma sample_session:
  "\<exists>b ra us. funds sample_crypto [1] b ra us \<and> session_ok sample_env [1] [2] (privToPub sample_crypto [3]) ra us
    \<and> sum_list (map utxo_int us) - kb_fee (120 + 107 * int (length us)) = 199000"
proof -
  let ?C = sample_crypto
  have gh: "good_hash ?C" using sample_consumer_ok by (simp add: consumer_ok_def)
  have b: "bn_fromNumber (IntN 200000) = 200000" "bn_toNumber 200000 = IntN 200000"
    using bn_small[of 200000] bn_toNumber_exact[of 200000] by simp_all
  have l: "length (ecdsa_sign ?C [2] []) = 71" "length (privToPub ?C [2]) = 33" by (simp_all add: sample_crypto_def sample_der_def)
  have "length (tx_wire (funding_tx ?C [2] [1] 200000)) < 2 ^ 31"
    using b(1) l by (simp add: funding_tx_def tx_wire_def input_wire_def output_wire_def varbuf_wire_def varint_wire_def new_Transaction_def change_output_def
        payer_script_def sig_script_def key_chunk_def chunk_wire_def push_width_def p2pkh_def)
  from funding_tx_funds[OF gh sample_keys(1) this] b obtain txid where
    f: "length txid = 32" "funds ?C [1] (tx_wire (funding_tx ?C [2] [1] 200000)) (key_address ?C (privToPub ?C [2]))
      [\<lparr> txId = txid, utxo_outputIndex = 0, utxo_script = p2pkh (key_hash ?C [1]), utxo_satoshis = IntN 200000 \<rparr>]" by auto
  let ?us = "[\<lparr> txId = txid, utxo_outputIndex = 0, utxo_script = p2pkh (key_hash ?C [1]), utxo_satoshis = IntN 200000 \<rparr>]"
  have p: "pays_hash (key_hash ?C [1]) 200000 (hd ?us)" using f(1) by (simp add: pays_hash_def)
  have v: "sum_list (map utxo_int ?us) = 200000" using pays_hash_int[OF p] by simp
  have kb: "kb_fee (120 + 107 * int (length ?us)) = 1000" by (simp add: kb_fee_def)
  have "\<exists>v\<ge>1195. pays_hash (key_hash ?C [1]) v (hd ?us)" using p by (intro exI[of _ 200000]) simp
  then have "funding_ok ?C [1] ?us" using v by (simp add: funding_ok_def spendable_def)
  moreover have "consumer_ok ?C [1] (session_opts ?C [1] [2] (privToPub ?C [3]) (key_address ?C (privToPub ?C [2])))"
    using sample_consumer_ok by (simp add: consumer_ok_def session_opts_def sample_opts_def key_address_def)
  moreover have "channel_keys_ok ?C (session_opts ?C [1] [2] (privToPub ?C [3]) (key_address ?C (privToPub ?C [2])))"
    using sample_keys(3) by (simp add: channel_keys_ok_def channel_keys_def session_opts_def sample_opts_def)
  ultimately have "session_ok sample_env [1] [2] (privToPub ?C [3]) (key_address ?C (privToPub ?C [2])) ?us"
    using v kb sample_time by (simp add: session_ok_def sample_env_def del: list.map sum_list.Cons)
  moreover have "sum_list (map utxo_int ?us) - kb_fee (120 + 107 * int (length ?us)) = 199000" using v kb by (simp only:)
  ultimately show ?thesis using f(2) by blast
qed

lemma sample_price_ok: "\<not> toNumber (proposed_price sample_price) < 0" "major sample_version = 1" "1 \<le> minor sample_version"
  "multisig_key sample_price = privToPub sample_crypto [3]"
proof -
  have "toNumber (proposed_price sample_price) = IntN 25"
    using rnd_int[of 25] by (simp add: toNumber_rounds long_int_def long_bits_def sample_price_def)
  then show "\<not> toNumber (proposed_price sample_price) < 0" by (simp add: zero_jsnum_def less_jsnum_def)
qed (simp_all add: sample_price_def sample_version_def)

lemma sample_contract: "\<exists>s b v g. reachable sample_crypto sample_page s \<and> PROVIDE_CONTRACT b v g \<in> set (sent s)
    \<and> contracted sample_crypto [privToPub sample_crypto [2], privToPub sample_crypto [3]] 199000 1000 s"
proof -
  obtain b ra us where f: "funds sample_crypto [1] b ra us" "session_ok sample_env [1] [2] (privToPub sample_crypto [3]) ra us"
    "sum_list (map utxo_int us) - kb_fee (120 + 107 * int (length us)) = 199000"
    using sample_session by blast
  have e: "env_crypto sample_env = sample_crypto" "env_fresh1 sample_env = [1]" "env_fresh2 sample_env = [2]" by (simp_all add: sample_env_def)
  let ?ms = "[SERVER_VERSION (Some sample_version), PRICE (Some sample_price), FUNDING (Some b)]"
  obtain c where c: "asks sample_env c [2] (privToPub sample_crypto [3]) us (session sample_env sample_env sample_page ?ms)"
    "\<not> payment_update_timer (session sample_env sample_env sample_page ?ms)" "posted (session sample_env sample_env sample_page ?ms) = []"
    using session_asks[OF f(2) _ _ e(2,3) sample_price_ok(2,3,1,4), of b sample_page] f(1) e(1) by auto
  have "good_key (env_crypto sample_env) [3]" "privToPub (env_crypto sample_env) [3] = privToPub sample_crypto [3]"
    using sample_keys(2) e(1) by simp_all
  from answer_run[OF c(1) session_answers[OF c(1) f(2) this] c(2,3), of 0, folded session_snoc, unfolded f(3) e(1)] obtain d m v g where
    d: "sent (session sample_env sample_env sample_page (?ms @ [RETURN_REFUND (Some (d @ [0]))]))
      = sent (session sample_env sample_env sample_page ?ms) @ [PROVIDE_CONTRACT m v g]"
    "contracted sample_crypto [privToPub sample_crypto [2], privToPub sample_crypto [3]] 199000 1000
      (session sample_env sample_env sample_page (?ms @ [RETURN_REFUND (Some (d @ [0]))]))" by blast
  then have "PROVIDE_CONTRACT m v g \<in> set (sent (session sample_env sample_env sample_page (?ms @ [RETURN_REFUND (Some (d @ [0]))])))"
    by (simp del: append.simps)
  with session_reachable[OF e(1,1)] d(2) show ?thesis by blast
qed


text \<open>
  C1: in every run of the client, whatever the provider, the network, the user and the timers do, a contract
  is sent only when a refund for it is posted: a transaction that spends exactly the contract's output, that is fully signed and that
  the interpreter accepts. The client's money is never committed without the way back.
\<close>

theorem contract_after_refund:
  assumes "reachable C p s" "PROVIDE_CONTRACT b v g \<in> set (sent s)"
  shows "\<exists>r \<in> set (posted s). map out_ref (inputs r) = [(rev (sha256sha256 C b), 0)] \<and> isFullySigned C r = Inr True
    \<and> first_input_verifies C r = Inr True \<and> (\<exists>out. outputs r = [out])"
  using reachable_safe[OF assms(1)] assms(2) unfolding safe_def backed_def backs_def spends_contract_def by blast

theorem contract_after_refund_witness:
  "\<exists>s b v g. reachable sample_crypto sample_page s \<and> PROVIDE_CONTRACT b v g \<in> set (sent s)
    \<and> (\<exists>r \<in> set (posted s). map out_ref (inputs r) = [(rev (sha256sha256 sample_crypto b), 0)])"
proof -
  obtain s b v g where s: "reachable sample_crypto sample_page s" "PROVIDE_CONTRACT b v g \<in> set (sent s)" using sample_contract by blast
  with contract_after_refund[OF s] show ?thesis by metis
qed

end
