(* ===== verification/Paying.thy ===== *)
theory Paying
  imports Opening
begin

text \<open>
  The open channel: what the client pays, that it comes to an end, and the bookkeeping of its funds.
\<close>

section \<open>One payment\<close>

lemma choose_increment_ints:
  assumes "amount p = IntN a" "paid p = IntN q" "0 \<le> q" "q \<le> a" "a \<le> 2 ^ 53" "0 \<le> w" "w \<le> 2 ^ 52" "0 \<le> m"
  shows "choose_increment (IntN w) p (IntN m) False = (IntN (if a - q - w < m then a - q else w), a - q - w < m, if a - q - w < m then 0x82 else 0x83)"
proof -
  have d: "IntN a - IntN q = IntN (a - q)" "IntN (a - q) - IntN w = IntN (a - q - w)" using assms by (intro Int_minus; simp)+
  then show ?thesis using assms(1,2) by (simp add: choose_increment_def Let_def less_jsnum_def del: of_int_diff)
qed

lemma increment_run:
  assumes c: "contracted (env_crypto E) keys a q s"
    and s: "coin_width s = IntN w" "min_initial_payment s = IntN m" "\<not> fullyUsedUp s" and n: "0 \<le> w" "w \<le> 2 ^ 52" "0 \<le> m"
  defines "used \<equiv> a - q - w < m"
  defines "q' \<equiv> (if used then a else q + w)" and "ty \<equiv> (if used then 0x82 else 0x83)"
  shows "\<exists>s' c' p g. increment_payment E s = (Inr (), s') \<and> contracted (env_crypto E) keys a q' s' \<and> fullyUsedUp s' = used
    \<and> coin_width s' = coin_width s \<and> min_initial_payment s' = min_initial_payment s \<and> last_increment s' = IntN (q' - q)
    \<and> \<not> received_ack s' \<and> channel_state s' = channel_state s
    \<and> the_consumer s' = Some c' \<and> paymentTx c' = Some p \<and> covers (env_crypto E) (pay_tx p) 0 (redeem_of keys) (keys ! 0) g ty
    \<and> sent s' = sent s @ [UPDATE_PAYMENT (fromNumber (IntN (a - q')) True) (g @ [word_of_int ty])]"
proof -
  let ?C = "env_crypto E" let ?d = "if used then a - q else w"
  obtain c r where c': "websocket s = Some OPEN" "the_consumer s = Some c" "client_key s = Some (commitmentKey c)" "paying ?C keys a q c" "posted s = [r]"
    "first_input_verifies ?C r = Inr True" using c by (auto simp: contracted_def)
  obtain p where p: "paymentTx c = Some p" "amount p = IntN a" "paid p = IntN q" "0 \<le> q" "q \<le> a" "a \<le> 2 ^ 53"
    using c'(4) by (auto simp: paying_def)
  have ch: "choose_increment (coin_width s) p (min_initial_payment s) (fullyUsedUp s) = (IntN ?d, used, ty)"
    using choose_increment_ints[OF p(2-6) n] s by (simp add: used_def ty_def del: of_int_diff)
  have d: "0 \<le> ?d" "q + ?d \<le> a" "q' = q + ?d" using n p by (auto simp: used_def q'_def)
  have t: "channel_sigtype ty" by (simp add: ty_def channel_sigtype_def hasDefinedHashtype_def)
  obtain c2 p2 g where i: "incrementPaymentBy ?C (IntN ?d) ty c = (Inr (), c2)" "paying ?C keys a (q + ?d) c2" "paymentTx c2 = Some p2"
    "getSignatures ?C (commitmentKey c2) ty (pay_tx p2) = Inr [g]" "covers ?C (pay_tx p2) 0 (redeem_of keys) (keys ! 0) (sig_der g) ty"
    "map satoshis (outputs (pay_tx p2)) = (if q + ?d = a then [] else [IntN (a - (q + ?d))])"
    using increment_step[OF c'(4) d(1,2) t] by blast
  have k: "commitmentKey c2 = commitmentKey c" using incrementPaymentBy_only[of ?C "IntN ?d" ty c] i(1) by auto
  have v: "(case outputs (pay_tx p2) of [] \<Rightarrow> 0 | out # _ \<Rightarrow> satoshis out) = IntN (a - q')"
    using i(6) d(3) by (auto simp: zero_jsnum_def split: list.splits if_splits)
  have nn: "\<not> IntN ?d < 0" using d(1) by (simp add: less_jsnum_def zero_jsnum_def)
  let ?s = "s\<lparr> fullyUsedUp := used, last_increment := IntN ?d, the_consumer := Some c2, refund_amount := IntN (a - q'),
    sent := sent s @ [UPDATE_PAYMENT (fromNumber (IntN (a - q')) True) (sig_der g @ [word_of_int ty])], received_ack := False \<rparr>"
  have run: "increment_payment E s = (Inr (), ?s)"
    unfolding increment_payment_def with_payment_def here_def c'(2) option.case p(1) Let_def ch prod.case
    using nn i(1,3,4) k v c'(1-3)
    by (simp add: block_Cons modify_def on_consumer_def here_def zoom_def bind_def get_payment_update_signature_def with_payment_def lift_def return_def
        send_message_def del: of_int_diff)
  have "contracted ?C keys a q' ?s" using c' i(2) d(3) k by (simp add: contracted_def)
  with run i d(3) show ?thesis by (intro exI[of _ ?s] exI[of _ c2] exI[of _ p2] exI[of _ "sig_der g"]) simp
qed

section \<open>All payments\<close>

text \<open>A payment that the provider acknowledges.\<close>

abbreviation paid_round :: "env \<Rightarrow> unit clm" where
  "paid_round E \<equiv> block [increment_payment E, receive_payment_ack]"

lemma paid_round_run:
  assumes "contracted (env_crypto E) keys a q s" "coin_width s = IntN w" "min_initial_payment s = IntN m" "\<not> fullyUsedUp s" "0 \<le> w" "w \<le> 2 ^ 52" "0 \<le> m"
  shows "\<exists>s'. paid_round E s = (Inr (), s') \<and> contracted (env_crypto E) keys a (if a - q - w < m then a else q + w) s' \<and> fullyUsedUp s' = (a - q - w < m)
    \<and> coin_width s' = IntN w \<and> min_initial_payment s' = IntN m \<and> length (sent s') = Suc (length (sent s)) \<and> received_ack s'"
proof -
  obtain s1 where s1: "increment_payment E s = (Inr (), s1)" "contracted (env_crypto E) keys a (if a - q - w < m then a else q + w) s1"
    "fullyUsedUp s1 = (a - q - w < m)" "coin_width s1 = IntN w" "min_initial_payment s1 = IntN m" "length (sent s1) = Suc (length (sent s))"
    using increment_run[OF assms] assms(2,3) by auto
  let ?d = "last_increment s1 / price_per_second s1"
  have "receive_payment_ack s1 = (Inr (), s1\<lparr> time_purchased := time_purchased s1 + ?d, total_time_purchased := total_time_purchased s1 + ?d,
      total_paid := total_paid s1 + last_increment s1, received_ack := True \<rparr>)"
    by (simp add: receive_payment_ack_def modify_def Let_def)
  with s1 show ?thesis by (auto simp: block_Cons contracted_def)
qed

lemma rounds_run:
  assumes "contracted (env_crypto E) keys a q s" "coin_width s = IntN w" "min_initial_payment s = IntN m" "\<not> fullyUsedUp s" "0 < w" "w \<le> 2 ^ 52" "0 < m"
  shows "\<exists>n s'. int n \<le> (a - q) div w + 1 \<and> block (replicate n (paid_round E)) s = (Inr (), s') \<and> contracted (env_crypto E) keys a a s'
    \<and> fullyUsedUp s' \<and> length (sent s') = length (sent s) + n"
  using assms(1-4)
proof (induction "nat (a - q)" arbitrary: q s rule: less_induct)
  case less
  have q: "0 \<le> q" "q \<le> a" using less.prems(1) by (auto simp: contracted_def paying_def)
  obtain s1 where s1: "paid_round E s = (Inr (), s1)" "contracted (env_crypto E) keys a (if a - q - w < m then a else q + w) s1"
    "fullyUsedUp s1 = (a - q - w < m)" "coin_width s1 = IntN w" "min_initial_payment s1 = IntN m" "length (sent s1) = Suc (length (sent s))"
    using paid_round_run[OF less.prems] assms(5-7) by fastforce
  show ?case
  proof (cases "a - q - w < m")
    case True
    have "0 \<le> (a - q) div w" using q assms(5) by (simp add: pos_imp_zdiv_nonneg_iff)
    with True s1 show ?thesis by (intro exI[of _ 1] exI[of _ s1]) (simp add: block_Inr)
  next
    case False
    then have "w \<le> a - q" using assms(7) by simp
    then have "nat (a - (q + w)) < nat (a - q)" and div: "(a - (q + w)) div w + 1 = (a - q) div w"
      using assms(5) div_pos_geq[of w "a - q"] by (auto simp: algebra_simps)
    from less.hyps[OF this(1) _ s1(4,5)] False s1(2,3) obtain n s' where
      "int n \<le> (a - (q + w)) div w + 1" "block (replicate n (paid_round E)) s1 = (Inr (), s')" "contracted (env_crypto E) keys a a s'"
      "fullyUsedUp s'" "length (sent s') = length (sent s1) + n" by auto
    with s1(1,6) div show ?thesis by (intro exI[of _ "Suc n"] exI[of _ s']) (simp add: block_Inr)
  qed
qed



lemma sample_contracted:
  "\<exists>s. contracted (env_crypto sample_env) [privToPub sample_crypto [2], privToPub sample_crypto [3]] 199000 1000 s \<and> coin_width s = IntN 1990
    \<and> min_initial_payment s = IntN 1000 \<and> \<not> fullyUsedUp s"
proof -
  obtain s where "contracted sample_crypto [privToPub sample_crypto [2], privToPub sample_crypto [3]] 199000 1000 s" using sample_contract by blast
  then show ?thesis
    by (intro exI[of _ "s\<lparr> coin_width := IntN 1990, min_initial_payment := IntN 1000, fullyUsedUp := False \<rparr>"]) (simp add: contracted_def sample_env_def)
qed



end
