(* ===== verification/Books.thy ===== *)
theory Books
  imports Opening
begin

text \<open>
  The client's books: the outputs that fund it, which of them are used, and the counter of payments without an answer.
\<close>

definition book :: "client \<Rightarrow> nat \<times> nat \<times> nat \<times> funding_output list \<times> bytes list" where
  "book s = (num_unacked_payment_updates s, num_funding_outputs s, funding_outputs_used s, funding_outputs s, funding_tx_hashes s)"

text \<open>
  The count is the number of outputs, with one transaction hash for each; the outputs before \<^verbatim>\<open>funding_outputs_used\<close> are attached or
  used up. No payment is ever counted as unanswered.
\<close>

definition books_ok :: "client \<Rightarrow> bool" where
  "books_ok s \<longleftrightarrow> num_funding_outputs s = length (funding_outputs s) \<and> length (funding_tx_hashes s) = length (funding_outputs s)
     \<and> funding_outputs_used s \<le> num_funding_outputs s \<and> (\<forall>i < funding_outputs_used s. output_state (funding_outputs s ! i) \<noteq> UNPROCESSED)
     \<and> num_unacked_payment_updates s = 0"

lemma keeps_other: "(\<And>s. book (f s) = book s) \<Longrightarrow> keeps books_ok (modify f)"
  by (simp add: keeps_def modify_def books_ok_def book_def)

lemma books_zoom: "keeps books_ok (on_consumer m)"
  by (auto simp: keeps_def on_consumer_def here_def throw_def zoom_def books_ok_def split: option.split prod.split)

lemma books_page: "keeps books_ok (on_page f)"
  unfolding on_page_def by (rule keeps_other) (simp add: book_def)

lemma books_display: "keeps books_ok update_display"
  unfolding update_display_def Let_def by (intro keeps_here_all books_page)

lemma books_payment: "(\<And>p. keeps books_ok (f p)) \<Longrightarrow> keeps books_ok (with_payment f)"
  unfolding with_payment_def by (intro keeps_steps)

lemma books_signature: "keeps books_ok (get_payment_update_signature C ty)"
  unfolding get_payment_update_signature_def
  by (intro keeps_steps books_payment, split list.split) (intro conjI allI impI keeps_steps)

lemmas books_base = books_zoom books_page books_display books_signature keeps_return keeps_throw keeps_lift keeps_checkState

lemma books_tools:
  "keeps books_ok (send_message m)" "keeps books_ok reset_counters" "keeps books_ok cancel_payments" "keeps books_ok (set_funding_key C k)"
  "keeps books_ok create_uri" "keeps books_ok get_bitcoin_price" "keeps books_ok start_websockets" "keeps books_ok update_escrow_amount"
  "keeps books_ok (change_state new)" "keeps books_ok receive_payment_ack"
  unfolding send_message_def reset_counters_def cancel_payments_def set_funding_key_def create_uri_def get_bitcoin_price_def start_websockets_def
    update_escrow_amount_def change_state_def receive_payment_ack_def
  by (intro keeps_here_all keeps_option keeps_If keeps_return keeps_throw books_page keeps_other; simp add: book_def Let_def)+

lemma books_ops:
  "keeps books_ok (init_keys E)" "keeps books_ok (restore_wif_key E)" "keeps books_ok (receive_ticker v)" "keeps books_ok (set_ui_state u)"
  "keeps books_ok send_version" "keeps books_ok start_payment_channel" "keeps books_ok (exit_with_error_code e)" "keeps books_ok send_funding_address"
  "keeps books_ok (send_refund E)"
proof -
  show v: "keeps books_ok send_version" unfolding send_version_def by (intro keeps_Cons keeps_Nil keeps_here_all books_tools)
  show "keeps books_ok start_payment_channel" unfolding start_payment_channel_def by (intro keeps_Cons keeps_Nil books_tools v)
  show "keeps books_ok (send_refund E)" unfolding send_refund_def
    by (intro keeps_Cons keeps_Nil keeps_here_all keeps_option keeps_throw keeps_bind books_zoom books_tools keeps_other) (simp add: book_def)
qed (unfold init_keys_def restore_wif_key_def receive_ticker_def set_ui_state_def exit_with_error_code_def send_funding_address_def,
     (intro keeps_Cons keeps_Nil keeps_here_all keeps_option keeps_If keeps_return keeps_throw books_tools books_page books_display keeps_other; simp add: book_def)+)

text \<open>The outputs that have been attached, and the loop that attaches them.\<close>

definition processed :: "client \<Rightarrow> nat set" where
  "processed s = {i. i < length (funding_outputs s) \<and> output_state (funding_outputs s ! i) \<noteq> UNPROCESSED}"

definition attached_to :: "nat \<Rightarrow> nat set \<Rightarrow> client \<Rightarrow> bool" where
  "attached_to n A s \<longleftrightarrow> books_ok s \<and> num_funding_outputs s = n \<and> A \<subseteq> processed s"

lemma attach_one_books: "triple (attached_to n A) (attach_one C i) (\<lambda>_. attached_to n (insert i A)) books_ok"
proof -
  have z: "triple (attached_to n A) (on_consumer m) (\<lambda>_. attached_to n A) books_ok" for m :: "unit conm"
    by (rule tripleI) (auto simp: attached_to_def processed_def on_consumer_def here_def throw_def zoom_def books_ok_def split: option.split prod.split sum.split)
  have m: "triple (\<lambda>s. attached_to n A s \<and> i < n) (modify (\<lambda>s. s\<lparr> funding_outputs := (funding_outputs s)[i := (funding_outputs s ! i)\<lparr> output_state := ATTACHED \<rparr>] \<rparr>))
      (\<lambda>_. attached_to n (insert i A)) books_ok"
  proof (rule triple_modify)
    fix s assume a: "attached_to n A s \<and> i < n"
    let ?fs = "(funding_outputs s)[i := (funding_outputs s ! i)\<lparr> output_state := ATTACHED \<rparr>]"
    have st: "output_state (funding_outputs s ! j) \<noteq> UNPROCESSED \<or> j = i \<Longrightarrow> j < n \<Longrightarrow> output_state (?fs ! j) \<noteq> UNPROCESSED" for j
      using a by (auto simp: attached_to_def books_ok_def nth_list_update)
    have "length (funding_outputs s) = n" using a by (simp add: attached_to_def books_ok_def)
    with st a show "attached_to n (insert i A) (s\<lparr> funding_outputs := ?fs \<rparr>)"
      by (auto simp: attached_to_def processed_def books_ok_def subset_iff)
  qed
  show ?thesis
  proof (rule tripleI)
    fix s assume a: "attached_to n A s"
    show "case attach_one C i s of (Inl e, s') \<Rightarrow> books_ok s' | (Inr x, s') \<Rightarrow> attached_to n (insert i A) s'"
    proof (cases "i < length (funding_outputs s)")
      case True
      then have "i < n" using a by (simp add: attached_to_def books_ok_def)
      with z have "triple (attached_to n A) (on_consumer (processFunding C (fo_utxo (funding_outputs s ! i)))) (\<lambda>_ s. attached_to n A s \<and> i < n) books_ok" by simp
      from triple_Cons[OF this triple_Cons[OF m triple_Nil]] True a show ?thesis by (auto simp: attach_one_def here_def triple_def)
    next
      case False
      then show ?thesis using a by (simp add: attach_one_def here_def throw_def attached_to_def)
    qed
  qed
qed

lemma attach_books: "triple (attached_to n A) (block (map (attach_one C) is)) (\<lambda>_. attached_to n (A \<union> set is)) books_ok"
proof (induction "is" arbitrary: A)
  case (Cons i "is")
  from triple_Cons[OF attach_one_books Cons.IH[of "insert i A"]] show ?case by simp
qed (simp add: triple_Nil)

lemma books_create: "keeps books_ok (create_payment_channel E)"
proof (rule keeps_triple)
  have n: "triple books_ok (modify (\<lambda>s. s\<lparr> refund_tx := detach_refund s, the_consumer := Some c \<rparr>)) (\<lambda>_. books_ok) books_ok" for c
    by (rule triple_keeps) (rule keeps_other, simp add: book_def)
  have new: "triple books_ok (here (\<lambda>s. case server_key s of None \<Rightarrow> throw undefined_error | Some k \<Rightarrow>
       bind (lift (new_Consumer (env_crypto E) (env_now E) (env_fresh1 E) (env_fresh2 E) (consumer_options E k s))) (\<lambda>c.
         modify (\<lambda>s. s\<lparr> refund_tx := detach_refund s, the_consumer := Some c \<rparr>)))) (\<lambda>_. books_ok) books_ok"
    by (rule triple_keeps) (intro keeps_here_all keeps_option keeps_throw keeps_bind keeps_lift keeps_other, simp add: book_def)
  have loop: "triple books_ok (here (\<lambda>s. block (map (attach_one (env_crypto E)) [funding_outputs_used s..<num_funding_outputs s])))
      (\<lambda>_ s. attached_to (num_funding_outputs s) {..<num_funding_outputs s} s) books_ok"
  proof (rule triple_here)
    fix s0 :: client
    have "triple (attached_to (num_funding_outputs s0) {..<funding_outputs_used s0}) (block (map (attach_one (env_crypto E)) [funding_outputs_used s0..<num_funding_outputs s0]))
      (\<lambda>_. attached_to (num_funding_outputs s0) ({..<funding_outputs_used s0} \<union> {funding_outputs_used s0..<num_funding_outputs s0})) books_ok"
      using attach_books[of "num_funding_outputs s0" "{..<funding_outputs_used s0}" "env_crypto E" "[funding_outputs_used s0..<num_funding_outputs s0]"] by simp
    then show "triple (\<lambda>s. books_ok s \<and> s = s0) (block (map (attach_one (env_crypto E)) [funding_outputs_used s0..<num_funding_outputs s0]))
      (\<lambda>_ s. attached_to (num_funding_outputs s) {..<num_funding_outputs s} s) books_ok"
    proof (rule triple_conseq)
      show "attached_to (num_funding_outputs s) {..<num_funding_outputs s} s"
        if "attached_to (num_funding_outputs s0) ({..<funding_outputs_used s0} \<union> {funding_outputs_used s0..<num_funding_outputs s0}) s" for s
      proof -
        have "{..<num_funding_outputs s0} \<subseteq> {..<funding_outputs_used s0} \<union> {funding_outputs_used s0..<num_funding_outputs s0}" by auto
        with that show ?thesis by (auto simp: attached_to_def)
      qed
    qed (auto simp: attached_to_def books_ok_def processed_def)
  qed
  have fin: "triple (\<lambda>s. attached_to (num_funding_outputs s) {..<num_funding_outputs s} s) (modify (\<lambda>s. s\<lparr> funding_outputs_used := num_funding_outputs s \<rparr>)) (\<lambda>_. books_ok) books_ok"
    by (rule triple_modify) (auto simp: attached_to_def books_ok_def processed_def)
  show "triple books_ok (create_payment_channel E) (\<lambda>_. books_ok) books_ok" unfolding create_payment_channel_def
    by (rule triple_Cons[OF new triple_Cons[OF loop triple_Cons[OF fin triple_Nil]]])
qed

section \<open>All handlers\<close>

lemma books_initiate: "keeps books_ok (initiate E)"
  unfolding initiate_def
  by (intro keeps_Cons keeps_Nil keeps_here_all keeps_If books_tools books_page books_create books_ops(9) keeps_other; simp add: book_def)

lemma books_contract: "keeps books_ok (send_contract E)"
proof -
  have "keeps books_ok (case outputs (pay_tx p) of [] \<Rightarrow> throw undefined_error | out # _ \<Rightarrow> block [
         modify (\<lambda>s. s\<lparr> refund_amount := satoshis out \<rparr>),
         bind (on_consumer (here (\<lambda>c. lift (Transaction_toBuffer (com_tx (commitmentTx c)))))) (\<lambda>b.
           here (\<lambda>s. send_message (PROVIDE_CONTRACT b (fromNumber (refund_amount s) True) g)))])" for p g
    by (split list.split) (intro conjI allI impI keeps_throw keeps_Cons keeps_Nil keeps_bind keeps_here_all books_zoom books_tools keeps_other, simp add: book_def)
  then show ?thesis unfolding send_contract_def Let_def
    by (intro keeps_Cons keeps_Nil keeps_bind keeps_here_all books_zoom books_signature books_payment books_tools keeps_other) (simp_all add: book_def)
qed

lemma books_state: "keeps books_ok (set_channel_state E new)"
proof -
  have w: "keeps books_ok (modify (\<lambda>s. s\<lparr> waiting_to_initiate := True \<rparr>))" by (rule keeps_other) (simp add: book_def)
  show ?thesis unfolding set_channel_state_def
    by (intro keeps_Cons keeps_Nil books_tools, split channel_states.split)
       (intro conjI impI keeps_Cons keeps_Nil keeps_return keeps_here_all keeps_If books_tools books_ops books_initiate books_contract w)
qed

lemma books_add: "keeps books_ok (add_output h j scr out)" "keeps books_ok (add_outputs C h j a os)"
proof -
  show one: "keeps books_ok (add_output h j scr out)" for j scr out
    by (auto simp: keeps_def add_output_def bind_def lift_def block_Cons modify_def books_ok_def nth_append split: sum.split)
  show "keeps books_ok (add_outputs C h j a os)"
    by (induction os arbitrary: j a) (auto intro!: keeps_return keeps_bind keeps_lift keeps_here_all keeps_throw one split: option.split)
qed

lemma books_funding: "keeps books_ok (receive_funding E b)"
  unfolding receive_funding_def Let_def
  by (intro keeps_bind keeps_lift keeps_here_all keeps_If keeps_return keeps_option keeps_Cons keeps_Nil books_ops(7) books_add(2) books_tools
      books_state keeps_other; simp add: book_def)

lemma books_refund: "keeps books_ok (receive_refund E g)"
proof -
  have z: "keeps books_ok (zoom (\<lambda>_. t) (\<lambda>t s. s\<lparr> refund_tx := Detached t \<rparr>) m)" for t and m :: "'x txm"
    by (auto simp: keeps_def zoom_def books_ok_def split: prod.split)
  have r: "keeps books_ok (on_refund_tx m)" for m :: "'x txm"
    unfolding on_refund_tx_def by (rule keeps_here_all, split refund_ref.split) (intro conjI allI impI keeps_throw books_zoom z)
  have v: "keeps books_ok (validate_refund C)" for C
    unfolding validate_refund_def by (rule keeps_here_all, split refund_ref.split)
      (auto intro!: keeps_throw keeps_Cons keeps_Nil books_zoom keeps_other simp: book_def split: prod.split sum.split option.split)
  have p: "keeps books_ok (post_refund_tx C)" for C
    unfolding post_refund_tx_def by (intro keeps_bind r keeps_other) (simp add: book_def)
  have t: "keeps books_ok (try_catch m h n)" if "keeps books_ok m" "keeps books_ok h" "keeps books_ok n" for m h n
    by (rule keeps_triple, rule triple_try[of _ _ books_ok books_ok]) (rule triple_keeps, rule that)+
  show ?thesis unfolding receive_refund_def Let_def
    by (intro keeps_bind keeps_here_all keeps_lift books_zoom t keeps_Cons keeps_Nil r v p books_state books_ops(7))
qed

lemma books_close: "keeps books_ok (receive_close E)" "keeps books_ok (receive_error E)"
proof -
  have d: "keeps books_ok (modify (\<lambda>s. s\<lparr> funding_outputs := map deplete (funding_outputs s) \<rparr>))"
    by (auto simp: keeps_def modify_def books_ok_def deplete_def)
  show "keeps books_ok (receive_close E)" unfolding receive_close_def
    by (intro keeps_Cons[OF d] keeps_Cons keeps_Nil keeps_here_all keeps_If keeps_return books_page books_ops(4) books_state keeps_other; simp add: book_def)
  show "keeps books_ok (receive_error E)" unfolding receive_error_def
    by (intro keeps_Cons keeps_Nil books_state keeps_other) (simp add: book_def)
qed

lemma books_increment: "keeps books_ok (increment_payment E)"
  unfolding increment_payment_def Let_def
  by (intro books_payment keeps_here_all keeps_prod keeps_Cons keeps_Nil keeps_If keeps_bind books_zoom books_signature books_tools books_ops(7)
      keeps_other; simp add: book_def)

lemma books_events:
  "keeps books_ok (update_payment E)" "keeps books_ok (close_channel E)" "keeps books_ok (user_disconnect E)" "keeps books_ok user_reconnect"
  "keeps books_ok onopen" "keeps books_ok (onclose E code)" "keeps books_ok (document_ready E)"
proof -
  have u: "keeps books_ok (modify (\<lambda>s. s\<lparr> num_unacked_payment_updates := 0 \<rparr>))" by (rule keeps_modify) (simp add: books_ok_def)
  show "keeps books_ok (update_payment E)" unfolding update_payment_def Let_def
    by (intro keeps_Cons keeps_Nil keeps_here_all keeps_If keeps_return books_display books_tools books_ops(7) books_increment u keeps_other; simp add: book_def)
qed (unfold close_channel_def user_disconnect_def user_reconnect_def onopen_def onclose_def document_ready_def,
     (intro keeps_Cons keeps_Nil keeps_here_all keeps_If keeps_return books_payment books_page books_tools books_ops books_state keeps_other; simp add: book_def)+)

lemma books_message: "keeps books_ok (onmessage E msg)"
proof -
  have "keeps books_ok (receive_version E v)" for v
    unfolding receive_version_def by (intro keeps_If books_ops(7) books_state)
  moreover have "keeps books_ok (receive_price E m)" for m
    unfolding receive_price_def
    by (intro keeps_Cons keeps_Nil keeps_here_all keeps_If keeps_throw books_tools books_ops(7) books_state keeps_other; simp add: book_def)
  moreover have "keeps books_ok (receive_initiate E m)" for m
    unfolding receive_initiate_def
    by (intro keeps_Cons keeps_Nil keeps_here_all keeps_If keeps_return books_initiate keeps_other; simp add: book_def)
  moreover have "keeps books_ok (receive_channel_open E)"
    unfolding receive_channel_open_def
    by (intro keeps_Cons keeps_Nil books_ops(4) books_state keeps_other; simp add: book_def)
  ultimately have "keeps books_ok (dispatch E msg)" unfolding dispatch_def
    by (split incoming.split) (intro conjI allI impI keeps_need keeps_return books_funding books_refund books_close books_tools)
  from triple_keeps[OF this] show ?thesis unfolding onmessage_def
    by (rule keeps_triple[OF triple_try]) (rule triple_return, assumption)+
qed

lemma books_step: "client_step C s s' \<Longrightarrow> books_ok s \<Longrightarrow> books_ok s'"
proof (induction rule: client_step.induct)
  case (opens s)
  then show ?case by (intro keepsD[OF books_events(5)]) (simp add: books_ok_def)
next
  case (closes s E code)
  from closes.prems show ?case by (intro keepsD[OF books_events(6)]) (simp add: books_ok_def)
next
  case (reconnect s xs d ys)
  from reconnect.prems show ?case by (intro keepsD[OF books_tools(7)]) (simp add: books_ok_def)
next
  case (ticker s usd)
  from ticker.prems show ?case by (intro keepsD[OF books_ops(3)]) (simp add: books_ok_def)
qed (auto simp: books_ok_def[of "_\<lparr> websocket := _ \<rparr>"] books_ok_def[symmetric] intro: keepsD[OF books_events(1)] keepsD[OF books_events(2)] keepsD[OF books_events(3)]
     keepsD[OF books_events(4)] keepsD[OF books_events(7)] keepsD[OF books_message] keepsD[OF books_ops(2)])

lemma reachable_books: "reachable C p s \<Longrightarrow> books_ok s"
proof (induction rule: reachable.induct)
  case loaded
  show ?case by (simp add: initial_def books_ok_def)
qed (rule books_step)

section \<open>What the books show\<close>

text \<open>
  C9: in every run of the client its books are right: it knows how many outputs fund it, holds one transaction hash for each, has
  used no more than it has, and everything it has used was attached to a channel.
\<close>

theorem books_kept:
  assumes "reachable C p s"
  shows "num_funding_outputs s = length (funding_outputs s) \<and> length (funding_tx_hashes s) = length (funding_outputs s)
    \<and> funding_outputs_used s \<le> num_funding_outputs s \<and> list_all (\<lambda>u. output_state u \<noteq> UNPROCESSED) (take (funding_outputs_used s) (funding_outputs s))"
  using reachable_books[OF assms] by (auto simp: books_ok_def list_all_length)

theorem books_kept_witness:
  "\<exists>s. reachable sample_crypto sample_page s \<and> num_funding_outputs s = length (funding_outputs s) \<and> sent s \<noteq> []"
proof -
  obtain s b v g where s: "reachable sample_crypto sample_page s" "PROVIDE_CONTRACT b v g \<in> set (sent s)" using sample_contract by blast
  with books_kept[OF s(1)] show ?thesis by (metis empty_iff empty_set)
qed

text \<open>
  C38: a provider that does not acknowledge a payment is never given up. The tick that is to send an error after too many unanswered
  payments counts them with a counter that nothing increments, so that in every run it sends nothing, cancels nothing and leaves
  the channel as it is.
\<close>

theorem silence_waits:
  assumes "reachable C p s" "\<not> received_ack s"
  shows "\<exists>s'. update_payment E s = (Inr (), s') \<and> sent s' = sent s \<and> channel_state s' = channel_state s \<and> payment_update_timer s' = payment_update_timer s
    \<and> the_consumer s' = the_consumer s"
  using reachable_books[OF assms(1)] assms(2)
  by (simp add: update_payment_def Let_def block_Cons modify_def update_display_def here_def on_page_def return_def books_ok_def)

theorem silence_waits_witness:
  "\<exists>s s'. reachable sample_crypto sample_page s \<and> update_payment sample_env s = (Inr (), s') \<and> sent s' = sent s"
proof -
  have "\<not> received_ack (initial sample_page)" by (simp add: initial_def)
  from silence_waits[OF loaded this] show ?thesis using loaded by blast
qed

text \<open>
  C10: in every run at most one reconnection is pending, and only while the socket is closed: the client never has two connections.
\<close>

theorem one_connection:
  assumes "reachable C p s"
  shows "length (reconnects s) \<le> 1 \<and> (reconnects s \<noteq> [] \<longrightarrow> websocket s = Some CLOSED)"
  using reachable_safe[OF assms] by (auto simp: safe_def socket_ok_def)

theorem one_connection_witness:
  "\<exists>s. reachable sample_crypto sample_page s \<and> length (reconnects s) = 1 \<and> websocket s = Some CLOSED"
proof -
  have "env_crypto sample_env = sample_crypto" by (simp add: sample_env_def)
  from session_reachable[OF this this, of sample_page "[]"]
  have r: "reachable sample_crypto sample_page (session sample_env sample_env sample_page [])" "websocket (session sample_env sample_env sample_page []) = Some OPEN"
    by blast+
  let ?s = "after (onclose sample_env 1006) ((session sample_env sample_env sample_page [])\<lparr> websocket := Some CLOSED \<rparr>)"
  have "reachable sample_crypto sample_page ?s"
    by (rule stepped[OF r(1) closes]) (use r(2) in \<open>simp_all add: sample_env_def\<close>)
  moreover have "reconnects ?s \<noteq> []"
    by (simp add: onclose_def block_Cons modify_def cancel_payments_def set_channel_state_def change_state_def here_def
        channel_transition_is_valid_def return_def)
  ultimately show ?thesis using one_connection[of sample_crypto sample_page ?s] by (intro exI[of _ ?s]) (cases "reconnects ?s"; simp)
qed

section \<open>Funds that arrive late\<close>

lemma receive_funding_run:
  assumes t: "Transaction_fromBuffer b = Inr tx" "Transaction_hash (env_crypto E) tx = Inr txid" "refund_script (env_crypto E) tx = Inr (Some scr)"
    "getAddressInfo (env_crypto E) scr = Inr ra" "list_all (readable (env_crypto E)) (outputs tx)"
    and s: "txid \<notin> set (funding_tx_hashes s)" "funding_address s = Some a"
    and u: "list_all (\<lambda>u. UnspentOutput u = Inr u) (our_outputs (env_crypto E) a txid 0 (outputs tx))"
      "\<not> foldl (+) 0 (map utxo_satoshis (our_outputs (env_crypto E) a txid 0 (outputs tx))) \<le> 0"
  shows "\<exists>e w. receive_funding E b s = set_channel_state E RECEIVED_FUNDING
    ((with_outputs (our_outputs (env_crypto E) a txid 0 (outputs tx)) txid (s\<lparr> refund_address := ra \<rparr>))\<lparr> escrow_amount := e, coin_width := w \<rparr>)"
proof -
  let ?us = "our_outputs (env_crypto E) a txid 0 (outputs tx)" let ?s = "s\<lparr> refund_address := ra \<rparr>"
  have ad: "add_outputs (env_crypto E) txid 0 0 (outputs tx) ?s = (Inr (foldl (+) 0 (map utxo_satoshis ?us)), with_outputs ?us txid ?s)"
    using add_outputs_run[OF t(5) _ u(1), of ?s] s(2) by simp
  obtain e w where ue: "update_escrow_amount (with_outputs ?us txid ?s) = (Inr (), (with_outputs ?us txid ?s)\<lparr> escrow_amount := e, coin_width := w \<rparr>)"
    by (simp add: update_escrow_amount_def modify_def Let_def)
  show ?thesis using t(1-4) s(1) ad ue u(2)
    by (intro exI[of _ e] exI[of _ w])
       (auto simp: receive_funding_def Let_def bind_def lift_def here_def block_Cons modify_def split: prod.split sum.split)
qed

definition is_contract :: "outgoing \<Rightarrow> bool" where
  "is_contract m = (case m of PROVIDE_CONTRACT _ _ _ \<Rightarrow> True | _ \<Rightarrow> False)"

definition stalled :: "outgoing list \<Rightarrow> client \<Rightarrow> bool" where
  "stalled k s \<longleftrightarrow> channel_state s \<notin> {Some SENT_REFUND, Some RECEIVED_REFUND, Some SENT_CONTRACT} \<and> filter is_contract (sent s) = k"

lemma refund_stalls: "keeps (stalled k) (receive_refund E g)"
proof -
  have c: "keeps (stalled k) (on_consumer m)" for m :: "'x conm"
    by (auto simp: keeps_def on_consumer_def here_def throw_def zoom_def stalled_def split: option.split prod.split)
  have z: "keeps (stalled k) (zoom (\<lambda>_. t) (\<lambda>t s. s\<lparr> refund_tx := Detached t \<rparr>) m)" for t and m :: "'x txm"
    by (auto simp: keeps_def zoom_def stalled_def split: prod.split)
  have r: "keeps (stalled k) (on_refund_tx m)" for m :: "'x txm"
    unfolding on_refund_tx_def by (rule keeps_here_all, split refund_ref.split) (intro conjI allI impI keeps_throw c z)
  have v: "keeps (stalled k) (validate_refund C)" for C
    unfolding validate_refund_def by (rule keeps_here_all, split refund_ref.split)
      (auto intro!: keeps_throw keeps_Cons keeps_Nil c keeps_modify simp: stalled_def split: prod.split sum.split option.split)
  have p: "keeps (stalled k) (post_refund_tx C)" for C
    unfolding post_refund_tx_def by (intro keeps_bind r keeps_modify) (simp add: stalled_def)
  have x: "keeps (stalled k) (exit_with_error_code e)" for e
    unfolding exit_with_error_code_def send_message_def on_page_def change_state_def
    by (intro keeps_Cons keeps_Nil keeps_here_all keeps_option keeps_If keeps_return keeps_throw keeps_modify) (auto simp: stalled_def is_contract_def)
  have st: "keeps (stalled k) (set_channel_state E RECEIVED_REFUND)"
    by (auto simp: keeps_def set_channel_state_def block_Cons change_state_def here_def throw_def channel_transition_is_valid_def stalled_def)
  have t: "keeps (stalled k) (try_catch m h n)" if "keeps (stalled k) m" "keeps (stalled k) h" "keeps (stalled k) n" for m h n
    by (rule keeps_triple, rule triple_try[of _ _ "stalled k" "stalled k"]) (rule triple_keeps, rule that)+
  show ?thesis unfolding receive_refund_def Let_def
    by (intro keeps_bind keeps_here_all keeps_lift c t keeps_Cons keeps_Nil r v p st x)
qed

text \<open>
  C37: when more funds arrive while the client waits for the signature of its refund, the channel no longer opens: the client leaves
  the state in which it takes the signature, so that whatever signature then arrives, valid or not, no contract is sent.
\<close>

theorem late_funding_stalls:
  assumes "channel_state s = Some SENT_REFUND" "\<not> waiting_to_initiate s"
    and "Transaction_fromBuffer b = Inr tx" "Transaction_hash (env_crypto E) tx = Inr txid" "refund_script (env_crypto E) tx = Inr (Some scr)"
    "getAddressInfo (env_crypto E) scr = Inr ra" "list_all (readable (env_crypto E)) (outputs tx)"
    and "txid \<notin> set (funding_tx_hashes s)" "funding_address s = Some a"
    and "list_all (\<lambda>u. UnspentOutput u = Inr u) (our_outputs (env_crypto E) a txid 0 (outputs tx))"
      "\<not> foldl (+) 0 (map utxo_satoshis (our_outputs (env_crypto E) a txid 0 (outputs tx))) \<le> 0"
  shows "channel_state (after (onmessage E (FUNDING (Some b))) s) = Some RECEIVED_FUNDING
    \<and> (\<forall>g. filter is_contract (sent (after (onmessage E' (RETURN_REFUND (Some g))) (after (onmessage E (FUNDING (Some b))) s))) = filter is_contract (sent s)
        \<and> channel_state (after (onmessage E' (RETURN_REFUND (Some g))) (after (onmessage E (FUNDING (Some b))) s)) \<noteq> Some SENT_CONTRACT)"
proof -
  obtain e w where "receive_funding E b s = set_channel_state E RECEIVED_FUNDING
    ((with_outputs (our_outputs (env_crypto E) a txid 0 (outputs tx)) txid (s\<lparr> refund_address := ra \<rparr>))\<lparr> escrow_amount := e, coin_width := w \<rparr>)"
    using receive_funding_run[OF assms(3-11)] by blast
  then obtain s' where d: "dispatch E (FUNDING (Some b)) s = (Inr (), s')" "channel_state s' = Some RECEIVED_FUNDING" "sent s' = sent s"
    using assms(2) by (simp add: dispatch_def need_def set_channel_state_def block_Cons change_state_def here_def channel_transition_is_valid_def modify_def
        with_outputs_def)
  have s': "after (onmessage E (FUNDING (Some b))) s = s'" by (rule message_run[OF d(1)])
  have st: "stalled (filter is_contract (sent s)) s'" using d by (simp add: stalled_def)
  have "stalled (filter is_contract (sent s)) (after (onmessage E' (RETURN_REFUND (Some g))) s')" for g
  proof -
    have "stalled (filter is_contract (sent s)) (after (receive_refund E' g) s')" using keepsD[OF refund_stalls st] .
    moreover have "after (onmessage E' (RETURN_REFUND (Some g))) s' = after (receive_refund E' g) s'"
      by (rule message_run[of _ _ _ "fst (receive_refund E' g s')"]) (simp add: dispatch_def need_def)
    ultimately show ?thesis by (simp only:)
  qed
  then show ?thesis unfolding s' using d(2) by (auto simp: stalled_def)
qed

theorem late_funding_stalls_witness:
  "\<exists>b s. channel_state s = Some SENT_REFUND \<and> channel_state (after (onmessage sample_env (FUNDING (Some b))) s) = Some RECEIVED_FUNDING"
proof -
  let ?C = sample_crypto let ?a = "key_address ?C (privToPub ?C [1])"
  let ?s = "(initial sample_page)\<lparr> channel_state := Some SENT_REFUND, funding_address := Some ?a \<rparr>"
  have e: "env_crypto sample_env = ?C" by (simp add: sample_env_def)
  obtain b ra us where f: "funds ?C [1] b ra us" "session_ok sample_env [1] [2] (privToPub ?C [3]) ra us" using sample_session by blast
  obtain tx txid scr where t: "Transaction_fromBuffer b = Inr tx" "Transaction_hash ?C tx = Inr txid" "refund_script ?C tx = Inr (Some scr)"
    "getAddressInfo ?C scr = Inr (Some ra)" "list_all (readable ?C) (outputs tx)" "us = our_outputs ?C ?a txid 0 (outputs tx)"
    using f(1) by (auto simp: funds_def)
  have p: "list_all (\<lambda>u. \<exists>v \<ge> 1195. pays_hash (key_hash ?C [1]) v u) us" "sum_list (map utxo_int us) < 2 ^ 52" "2000 \<le> sum_list (map utxo_int us)"
    using f(2) by (simp_all add: session_ok_def funding_ok_def spendable_def e)
  have u: "list_all (\<lambda>u. UnspentOutput u = Inr u) (our_outputs ?C ?a txid 0 (outputs tx))" using p(1) t(6) by (auto simp: list_all_iff dest: UnspentOutput_pays)
  have "foldl (+) (IntN 0) (map utxo_satoshis us) = IntN (sum_list (map utxo_int us))" using foldl_ints[OF p(1), of 0] p(2) by simp
  then have sum: "\<not> foldl (+) 0 (map utxo_satoshis (our_outputs ?C ?a txid 0 (outputs tx))) \<le> 0"
    using p(3) t(6) by (simp add: zero_jsnum_def less_eq_jsnum_def)
  have s: "channel_state ?s = Some SENT_REFUND" "\<not> waiting_to_initiate ?s" "txid \<notin> set (funding_tx_hashes ?s)" "funding_address ?s = Some ?a"
    by (simp_all add: initial_def)
  from late_funding_stalls[OF s(1,2) t(1), of sample_env, unfolded e, OF t(2-5) s(3,4) u sum] s(1) show ?thesis by blast
qed

end
