(* ===== verification/Sha.thy ===== *)
theory Sha
  imports Buffers
begin

unbundle bit_operations_syntax

text \<open>
  The hash functions SHA-256 and SHA-1 of \<^verbatim>\<open>sha.js\<close> in \<^verbatim>\<open>bitcore.js\<close>: the buffering of \<^verbatim>\<open>Hash\<close>, and the compression functions
  with the language's number arithmetic. The code adds numbers without reducing them to 32 bits until the end of
  a block; it computes the hash function only as long as no sum leaves the range in which numbers are exact.
\<close>

section \<open>Bitwise operators\<close>

text \<open>The operators take their operands modulo \<open>2 ^ 32\<close> and answer a signed number, \<^verbatim>\<open>>>>\<close> an unsigned one.\<close>

definition int32_of :: "32 word \<Rightarrow> jsnum" where
  "int32_of w = IntN (sint w)"

definition js_and :: "jsnum \<Rightarrow> jsnum \<Rightarrow> jsnum" where
  "js_and x y = int32_of (to_word32 x AND to_word32 y)"

definition js_or :: "jsnum \<Rightarrow> jsnum \<Rightarrow> jsnum" where
  "js_or x y = int32_of (to_word32 x OR to_word32 y)"

definition js_xor :: "jsnum \<Rightarrow> jsnum \<Rightarrow> jsnum" where
  "js_xor x y = int32_of (to_word32 x XOR to_word32 y)"

definition js_not :: "jsnum \<Rightarrow> jsnum" where
  "js_not x = int32_of (NOT (to_word32 x))"

definition js_shl :: "jsnum \<Rightarrow> nat \<Rightarrow> jsnum" where
  "js_shl x n = int32_of (push_bit n (to_word32 x))"

definition js_ushr :: "jsnum \<Rightarrow> nat \<Rightarrow> jsnum" where
  "js_ushr x n = IntN (uint (drop_bit n (to_word32 x)))"

definition js_int32 :: "jsnum \<Rightarrow> jsnum" where
  "js_int32 x = int32_of (to_word32 x)"

section \<open>Big-endian words of a buffer\<close>

definition be_word :: "bytes \<Rightarrow> 32 word" where
  "be_word b = word_of_int (uint (b ! 0) * 2 ^ 24 + uint (b ! 1) * 2 ^ 16 + uint (b ! 2) * 2 ^ 8 + uint (b ! 3))"

definition readInt32BE :: "bytes \<Rightarrow> nat \<Rightarrow> jsnum" where
  "readInt32BE b i = int32_of (be_word (take 4 (drop i b)))"

definition word_bytes :: "32 word \<Rightarrow> bytes" where
  "word_bytes w = [ucast (drop_bit 24 w), ucast (drop_bit 16 w), ucast (drop_bit 8 w), ucast w]"

definition writeInt32BE :: "jsnum \<Rightarrow> exn + bytes" where
  "writeInt32BE x = (if x > IntN 0x7fffffff \<or> x < IntN (- 0x80000000) then Inl (TypeError ''value is out of bounds'')
     else Inr (word_bytes (to_word32 x)))"

section \<open>SHA-256\<close>

record 'a regs =
  r_a :: 'a
  r_b :: 'a
  r_c :: 'a
  r_d :: 'a
  r_e :: 'a
  r_f :: 'a
  r_g :: 'a
  r_h :: 'a

definition sha256_K :: "int list" where
  "sha256_K = [
    0x428A2F98, 0x71374491, 0xB5C0FBCF, 0xE9B5DBA5, 0x3956C25B, 0x59F111F1, 0x923F82A4, 0xAB1C5ED5,
    0xD807AA98, 0x12835B01, 0x243185BE, 0x550C7DC3, 0x72BE5D74, 0x80DEB1FE, 0x9BDC06A7, 0xC19BF174,
    0xE49B69C1, 0xEFBE4786, 0x0FC19DC6, 0x240CA1CC, 0x2DE92C6F, 0x4A7484AA, 0x5CB0A9DC, 0x76F988DA,
    0x983E5152, 0xA831C66D, 0xB00327C8, 0xBF597FC7, 0xC6E00BF3, 0xD5A79147, 0x06CA6351, 0x14292967,
    0x27B70A85, 0x2E1B2138, 0x4D2C6DFC, 0x53380D13, 0x650A7354, 0x766A0ABB, 0x81C2C92E, 0x92722C85,
    0xA2BFE8A1, 0xA81A664B, 0xC24B8B70, 0xC76C51A3, 0xD192E819, 0xD6990624, 0xF40E3585, 0x106AA070,
    0x19A4C116, 0x1E376C08, 0x2748774C, 0x34B0BCB5, 0x391C0CB3, 0x4ED8AA4A, 0x5B9CCA4F, 0x682E6FF3,
    0x748F82EE, 0x78A5636F, 0x84C87814, 0x8CC70208, 0x90BEFFFA, 0xA4506CEB, 0xBEF9A3F7, 0xC67178F2]"

definition sha256_init :: "jsnum regs" where
  "sha256_init = \<lparr> r_a = int32_of 0x6a09e667, r_b = int32_of 0xbb67ae85, r_c = int32_of 0x3c6ef372, r_d = int32_of 0xa54ff53a,
     r_e = int32_of 0x510e527f, r_f = int32_of 0x9b05688c, r_g = int32_of 0x1f83d9ab, r_h = int32_of 0x5be0cd19 \<rparr>"

definition sha_S :: "jsnum \<Rightarrow> nat \<Rightarrow> jsnum" where
  "sha_S x n = js_or (js_ushr x n) (js_shl x (32 - n))"

definition sha_R :: "jsnum \<Rightarrow> nat \<Rightarrow> jsnum" where
  "sha_R x n = js_ushr x n"

definition sha_Ch :: "jsnum \<Rightarrow> jsnum \<Rightarrow> jsnum \<Rightarrow> jsnum" where
  "sha_Ch x y z = js_xor (js_and x y) (js_and (js_not x) z)"

definition sha_Maj :: "jsnum \<Rightarrow> jsnum \<Rightarrow> jsnum \<Rightarrow> jsnum" where
  "sha_Maj x y z = js_xor (js_xor (js_and x y) (js_and x z)) (js_and y z)"

definition Sigma0256 :: "jsnum \<Rightarrow> jsnum" where
  "Sigma0256 x = js_xor (js_xor (sha_S x 2) (sha_S x 13)) (sha_S x 22)"

definition Sigma1256 :: "jsnum \<Rightarrow> jsnum" where
  "Sigma1256 x = js_xor (js_xor (sha_S x 6) (sha_S x 11)) (sha_S x 25)"

definition Gamma0256 :: "jsnum \<Rightarrow> jsnum" where
  "Gamma0256 x = js_xor (js_xor (sha_S x 7) (sha_S x 18)) (sha_R x 3)"

definition Gamma1256 :: "jsnum \<Rightarrow> jsnum" where
  "Gamma1256 x = js_xor (js_xor (sha_S x 17) (sha_S x 19)) (sha_R x 10)"

text \<open>The array \<^verbatim>\<open>W\<close> up to the index that is being written.\<close>

definition sha256_calcW :: "jsnum list \<Rightarrow> nat \<Rightarrow> jsnum" where
  "sha256_calcW W j = Gamma1256 (W ! (j - 2)) + W ! (j - 7) + Gamma0256 (W ! (j - 15)) + W ! (j - 16)"

definition sha256_loop :: "nat \<Rightarrow> jsnum \<Rightarrow> jsnum list \<times> jsnum regs \<Rightarrow> jsnum list \<times> jsnum regs" where
  "sha256_loop j w s = (case s of (W, r) \<Rightarrow>
     let T1 = r_h r + Sigma1256 (r_e r) + sha_Ch (r_e r) (r_f r) (r_g r) + IntN (sha256_K ! j) + w;
         T2 = Sigma0256 (r_a r) + sha_Maj (r_a r) (r_b r) (r_c r)
     in (W @ [w], \<lparr> r_a = T1 + T2, r_b = r_a r, r_c = r_b r, r_d = r_c r, r_e = r_d r + T1, r_f = r_e r, r_g = r_f r, r_h = r_g r \<rparr>))"

definition sha256_update :: "bytes \<Rightarrow> jsnum regs \<Rightarrow> jsnum regs" where
  "sha256_update M r = (let
     r0 = \<lparr> r_a = js_int32 (r_a r), r_b = js_int32 (r_b r), r_c = js_int32 (r_c r), r_d = js_int32 (r_d r),
            r_e = js_int32 (r_e r), r_f = js_int32 (r_f r), r_g = js_int32 (r_g r), r_h = js_int32 (r_h r) \<rparr>;
     s1 = fold (\<lambda>j. sha256_loop j (readInt32BE M (j * 4))) [0..<16] ([], r0);
     s2 = fold (\<lambda>j s. sha256_loop j (sha256_calcW (fst s) j) s) [16..<64] s1;
     q = snd s2
     in \<lparr> r_a = js_int32 (r_a q + r_a r), r_b = js_int32 (r_b q + r_b r), r_c = js_int32 (r_c q + r_c r), r_d = js_int32 (r_d q + r_d r),
          r_e = js_int32 (r_e q + r_e r), r_f = js_int32 (r_f q + r_f r), r_g = js_int32 (r_g q + r_g r), r_h = js_int32 (r_h q + r_h r) \<rparr>)"

fun concat_writes :: "(exn + bytes) list \<Rightarrow> exn + bytes" where
  "concat_writes [] = Inr []"
| "concat_writes (x # xs) = (case x of Inl e \<Rightarrow> Inl e | Inr b \<Rightarrow> map_sum id ((@) b) (concat_writes xs))"

definition sha256_hash :: "jsnum regs \<Rightarrow> exn + bytes" where
  "sha256_hash r = concat_writes (map writeInt32BE [r_a r, r_b r, r_c r, r_d r, r_e r, r_f r, r_g r, r_h r])"

section \<open>Buffering\<close>

text \<open>\<^verbatim>\<open>Hash\<close> with its block, the length so far and the registers of the subclass.\<close>

record 'r hash =
  h_block :: bytes
  h_len :: nat
  h_s :: nat
  h_regs :: 'r

abbreviation (input) blockSize :: nat where "blockSize \<equiv> 64"
abbreviation (input) finalSize :: nat where "finalSize \<equiv> 56"

definition new_Hash :: "'r \<Rightarrow> 'r hash" where
  "new_Hash r = \<lparr> h_block = replicate blockSize 0, h_len = 0, h_s = 0, h_regs = r \<rparr>"

definition copy_into :: "bytes \<Rightarrow> nat \<Rightarrow> bytes \<Rightarrow> bytes" where
  "copy_into b i d = take i b @ d @ drop (i + length d) b"

lemma chunk_pos:
  fixes f s n :: nat
  assumes "f < n"
  defines "t \<equiv> min n (f + 64 - s mod 64)"
  shows "f < t" "t \<le> n" "s mod 64 + (t - f) \<le> 64"
proof -
  have "s mod 64 < 64" by simp
  moreover obtain m where m: "m = s mod 64" by simp
  ultimately show "f < t" "t \<le> n" "s mod 64 + (t - f) \<le> 64" using assms(1) unfolding t_def m[symmetric] by linarith+
qed

text \<open>The loop of \<^verbatim>\<open>update\<close>; \<open>f\<close> bytes of the data are taken. Since \<^verbatim>\<open>_s\<close> is the length before the call, \<^verbatim>\<open>s < l\<close> means that data is left.\<close>

function update_loop :: "(bytes \<Rightarrow> 'r \<Rightarrow> 'r) \<Rightarrow> bytes \<Rightarrow> nat \<Rightarrow> nat \<Rightarrow> bytes \<Rightarrow> 'r \<Rightarrow> nat \<times> bytes \<times> 'r" where
  "update_loop upd data f s blk r =
    (if f < length data then
       let t = min (length data) (f + blockSize - s mod blockSize);
           ch = t - f;
           blk' = copy_into blk (s mod blockSize) (take ch (drop f data));
           r' = (if (s + ch) mod blockSize = 0 then upd blk' r else r)
       in update_loop upd data (f + ch) (s + ch) blk' r'
     else (s, blk, r))"
  by pat_completeness auto
termination
proof (relation "measure (\<lambda>(upd, data, f, s, blk, r). length data - f)")
  fix upd :: "bytes \<Rightarrow> 'r \<Rightarrow> 'r" and data f s blk r t ch blk' r'
  assume "f < length data" "t = min (length data) (f + 64 - s mod 64)" "ch = t - f"
  with chunk_pos(1,2)[of f "length data" s] have "f < t" "t \<le> length data" "ch = t - f" by (simp_all only:)
  then show "((upd, data, f + ch, s + ch, blk', r'), upd, data, f, s, blk, r) \<in> measure (\<lambda>(upd, data, f, s, blk, r). length data - f)" by simp
qed simp

declare update_loop.simps [simp del]

definition hash_update :: "(bytes \<Rightarrow> 'r \<Rightarrow> 'r) \<Rightarrow> bytes \<Rightarrow> 'r hash \<Rightarrow> 'r hash" where
  "hash_update upd data h = (case update_loop upd data 0 (h_s h) (h_block h) (h_regs h) of (s, blk, r) \<Rightarrow>
     h\<lparr> h_len := h_len h + length data, h_s := s, h_block := blk, h_regs := r \<rparr>)"

definition hash_digest :: "(bytes \<Rightarrow> 'r \<Rightarrow> 'r) \<Rightarrow> ('r \<Rightarrow> exn + bytes) \<Rightarrow> 'r hash \<Rightarrow> exn + bytes" where
  "hash_digest upd out h =
    (let n = h_len h mod blockSize;
         b1 = take n (h_block h) @ [0x80] @ replicate (blockSize - n - 1) 0;
         (b2, r) = (if (h_len h * 8) mod (blockSize * 8) \<ge> finalSize * 8 then (replicate blockSize 0, upd b1 (h_regs h)) else (b1, h_regs h))
     in case writeInt32BE (IntN (int (h_len h) * 8)) of Inl e \<Rightarrow> Inl e
        | Inr l \<Rightarrow> out (upd (take (blockSize - 4) b2 @ l) r))"

section \<open>Buffering is splitting into blocks\<close>

function absorb :: "(bytes \<Rightarrow> 'r \<Rightarrow> 'r) \<Rightarrow> bytes \<Rightarrow> 'r \<Rightarrow> 'r" where
  "absorb upd b r = (if length b < 64 then r else absorb upd (drop 64 b) (upd (take 64 b) r))"
  by pat_completeness auto
termination
  by (relation "measure (\<lambda>(upd, b, r). length b)") auto

declare absorb.simps [simp del]

definition tail :: "bytes \<Rightarrow> bytes" where
  "tail b = drop (64 * (length b div 64)) b"

lemma length_tail [simp]: "length (tail b) = length b mod 64"
  by (simp add: tail_def minus_mult_div_eq_mod)

lemma tail_small: "length b < 64 \<Longrightarrow> tail b = b"
  by (simp add: tail_def)

lemma tail_drop: "64 \<le> length b \<Longrightarrow> tail (drop 64 b) = tail b"
proof -
  assume "64 \<le> length b"
  then have "length b = length b - 64 + 64" by simp
  then have "length b div 64 = Suc ((length b - 64) div 64)" by (metis div_add_self2 add.commute plus_1_eq_Suc zero_neq_numeral)
  then show ?thesis by (simp add: tail_def add.commute)
qed

lemma absorb_append: "absorb upd (b @ c) r = absorb upd (tail b @ c) (absorb upd b r)"
proof (induction upd b r rule: absorb.induct)
  case (1 upd b r)
  show ?case
  proof (cases "length b < 64")
    case True
    then show ?thesis by (simp add: tail_small absorb.simps[of upd b])
  next
    case False
    then have "absorb upd (b @ c) r = absorb upd (drop 64 b @ c) (upd (take 64 b) r)" by (subst absorb.simps) simp
    also have "\<dots> = absorb upd (tail b @ c) (absorb upd (drop 64 b) (upd (take 64 b) r))" using 1[OF False] False by (simp add: tail_drop)
    also have "absorb upd (drop 64 b) (upd (take 64 b) r) = absorb upd b r" using False by (subst (2) absorb.simps) simp
    finally show ?thesis .
  qed
qed

lemma tail_append: "tail (b @ c) = tail (tail b @ c)"
proof (induction "length b" arbitrary: b rule: less_induct)
  case less
  show ?case
  proof (cases "length b < 64")
    case False
    then have "tail (b @ c) = tail (drop 64 b @ c)" using tail_drop[of "b @ c"] by simp
    with less[of "drop 64 b"] False show ?thesis by (simp add: tail_drop)
  qed (simp add: tail_small)
qed

text \<open>The state of a hash that has been fed the bytes \<open>xs\<close>.\<close>

definition fed :: "(bytes \<Rightarrow> 'r \<Rightarrow> 'r) \<Rightarrow> 'r \<Rightarrow> bytes \<Rightarrow> nat \<times> bytes \<times> 'r \<Rightarrow> bool" where
  "fed upd r0 xs s \<longleftrightarrow> (case s of (n, blk, r) \<Rightarrow> n = length xs \<and> length blk = 64 \<and> take (n mod 64) blk = tail xs \<and> r = absorb upd xs r0)"

lemma fed_chunk:
  assumes f: "fed upd r0 xs (n, blk, r)" and c: "0 < length c" "n mod 64 + length c \<le> 64"
  shows "fed upd r0 (xs @ c) (n + length c, copy_into blk (n mod 64) c,
    if (n + length c) mod 64 = 0 then upd (copy_into blk (n mod 64) c) r else r)"
proof -
  let ?b = "copy_into blk (n mod 64) c" let ?t = "tail xs @ c"
  have n: "n = length xs" "length blk = 64" "take (n mod 64) blk = tail xs" "r = absorb upd xs r0" using f by (auto simp: fed_def)
  have b: "?b = ?t @ drop (length ?t) blk" using n by (simp add: copy_into_def)
  have len: "length ?t = n mod 64 + length c" using n(1) by simp
  have m: "(n + length c) mod 64 = length ?t mod 64" unfolding len by (simp add: mod_add_left_eq)
  have a: "absorb upd (xs @ c) r0 = absorb upd ?t r" unfolding n(4) by (rule absorb_append)
  have tl: "tail (xs @ c) = tail ?t" by (rule tail_append)
  have lb: "length ?b = 64" using b len c(2) n(2) by simp
  show ?thesis
  proof (cases "length ?t = 64")
    case True
    then have full: "?b = ?t" using b n(2) by simp
    have "absorb upd ?t r = upd ?t r" using True by (subst absorb.simps) (simp add: absorb.simps)
    moreover have "tail ?t = []" using True by (simp add: tail_def)
    ultimately show ?thesis using m True a full lb n(1) tl by (simp add: fed_def)
  next
    case False
    then have small: "length ?t < 64" using len c(2) by simp
    have "absorb upd ?t r = r" using small by (subst absorb.simps) simp
    moreover have "tail ?t = ?t" using small by (rule tail_small)
    moreover have "(n + length c) mod 64 = length ?t" using m small by simp
    moreover have "take (length ?t) ?b = ?t" using b by simp
    ultimately show ?thesis using a lb n(1) c(1) len tl by (simp add: fed_def)
  qed
qed

lemma update_loop_fed:
  "fed upd r0 (xs @ take f data) (s, blk, r) \<Longrightarrow> f \<le> length data \<Longrightarrow> fed upd r0 (xs @ data) (update_loop upd data f s blk r)"
proof (induction upd data f s blk r rule: update_loop.induct)
  case (1 upd data f s blk r)
  show ?case
  proof (cases "f < length data")
    case False
    then show ?thesis using 1(2,3) by (simp add: update_loop.simps)
  next
    case True
    let ?ch = "min (length data) (f + 64 - s mod 64) - f" let ?c = "take ?ch (drop f data)"
    have ch: "0 < ?ch" "?ch \<le> length data - f" "s mod 64 + ?ch \<le> 64"
      using chunk_pos[OF True, of s] by (simp_all only: zero_less_diff diff_le_mono)
    have c: "length ?c = ?ch" using ch(2) by simp
    have t: "xs @ take (f + ?ch) data = (xs @ take f data) @ ?c" by (simp add: take_add)
    have "fed upd r0 ((xs @ take f data) @ ?c) (s + length ?c, copy_into blk (s mod 64) ?c,
        if (s + length ?c) mod 64 = 0 then upd (copy_into blk (s mod 64) ?c) r else r)"
      by (rule fed_chunk[OF 1(2)]) (simp_all only: c ch)
    then have "fed upd r0 (xs @ take (f + ?ch) data) (s + ?ch, copy_into blk (s mod 64) ?c,
        if (s + ?ch) mod 64 = 0 then upd (copy_into blk (s mod 64) ?c) r else r)" unfolding t c .
    moreover have "f + ?ch \<le> length data" using ch(2) True by linarith
    ultimately have "fed upd r0 (xs @ data) (update_loop upd data (f + ?ch) (s + ?ch) (copy_into blk (s mod 64) ?c)
        (if (s + ?ch) mod 64 = 0 then upd (copy_into blk (s mod 64) ?c) r else r))" by (rule 1(1)[OF True refl refl refl refl])
    then show ?thesis unfolding update_loop.simps[of upd data f] Let_def using True by (simp only: if_True)
  qed
qed

section \<open>Padding\<close>

text \<open>The padded message of the standard: a one bit, zero bits, and the length in bits as 64-bit word.\<close>

definition word64_bytes :: "64 word \<Rightarrow> bytes" where
  "word64_bytes w = map (\<lambda>i. ucast (drop_bit (56 - 8 * i) w)) [0..<8]"

definition padded :: "bytes \<Rightarrow> bytes" where
  "padded b = b @ [0x80] @ replicate ((119 - length b mod 64) mod 64) 0 @ word64_bytes (of_nat (8 * length b))"

lemma ucast_byte: "ucast (drop_bit k (w :: 'a::len word)) = (of_nat (unat w div 2 ^ k) :: byte)"
proof (rule word_unat_eq_iff[THEN iffD2])
  show "unat (ucast (drop_bit k w) :: byte) = unat (of_nat (unat w div 2 ^ k) :: byte)"
    by (simp add: unsigned_ucast_eq unsigned_of_nat take_bit_eq_mod unat_drop_bit_eq flip: drop_bit_eq_div)
qed

lemma ucast_byte0: "ucast (w :: 'a::len word) = (of_nat (unat w) :: byte)"
  using ucast_byte[of 0 w] by simp

lemma word64_small:
  assumes "n < 2 ^ 32" shows "word64_bytes (of_nat n) = replicate 4 0 @ word_bytes (of_nat n)"
proof -
  have u: "unat (of_nat n :: 64 word) = n" "unat (of_nat n :: 32 word) = n" using assms by (simp_all add: unat_of_nat)
  have d: "n div 2 ^ k = 0" if "32 \<le> k" for k
    using assms power_increasing[OF that, of "2 :: nat"] by (simp add: less_le_trans)
  have r4: "replicate 4 (0 :: byte) = [0, 0, 0, 0]" by (simp add: numeral_eq_Suc)
  have l: "[0..<8] = [0, 1, 2, 3, 4, 5, 6, 7 :: nat]" by (simp add: upt_conv_Cons)
  have "word64_bytes (of_nat n) = map (\<lambda>i. of_nat (n div 2 ^ (56 - 8 * i))) [0, 1, 2, 3, 4, 5, 6, 7]"
    unfolding word64_bytes_def ucast_byte u(1) l by (simp only: list.map)
  also have "\<dots> = [0, 0, 0, 0, of_nat (n div 2 ^ 24), of_nat (n div 2 ^ 16), of_nat (n div 2 ^ 8), of_nat n]"
    using d[of 56] d[of 48] d[of 40] d[of 32] by simp
  also have "\<dots> = replicate 4 0 @ word_bytes (of_nat n)"
    unfolding word_bytes_def r4 ucast_byte[of _ "of_nat n :: 32 word"] ucast_byte0[of "of_nat n :: 32 word"] u(2) by (simp only: append.simps)
  finally show ?thesis .
qed

lemma word_bytes_length [simp]: "length (word_bytes w) = 4" by (simp add: word_bytes_def)

lemma writeInt32BE_small: "n < 2 ^ 31 \<Longrightarrow> writeInt32BE (IntN (int n)) = Inr (word_bytes (of_nat n))"
  using to_word32_Int[of "int n"] by (simp add: writeInt32BE_def less_jsnum_def)

lemma writeInt32BE_large: "2 ^ 31 \<le> n \<Longrightarrow> writeInt32BE (IntN (int n)) = Inl (TypeError ''value is out of bounds'')"
  by (simp add: writeInt32BE_def less_jsnum_def)

definition fed_hash :: "(bytes \<Rightarrow> 'r \<Rightarrow> 'r) \<Rightarrow> 'r \<Rightarrow> bytes \<Rightarrow> 'r hash \<Rightarrow> bool" where
  "fed_hash upd r0 xs h \<longleftrightarrow> h_len h = length xs \<and> fed upd r0 xs (h_s h, h_block h, h_regs h)"

lemma fed_new: "fed_hash upd r0 [] (new_Hash r0)"
  by (simp add: fed_hash_def fed_def new_Hash_def tail_def absorb.simps)

lemma fed_update: "fed_hash upd r0 xs h \<Longrightarrow> fed_hash upd r0 (xs @ data) (hash_update upd data h)"
  using update_loop_fed[of upd r0 xs 0 data "h_s h" "h_block h" "h_regs h"]
  by (auto simp: fed_hash_def hash_update_def split: prod.splits)

lemma absorb_one: "length b = 64 \<Longrightarrow> absorb upd b r = upd b r"
  by (subst absorb.simps) (simp add: absorb.simps)

lemma absorb_block: "length b = 64 \<Longrightarrow> absorb upd (b @ c) r = absorb upd c (upd b r)"
  by (subst absorb.simps) simp

lemma pad_zeros:
  fixes n :: nat
  assumes "n < 64" shows "(119 - n) mod 64 = (if 56 \<le> n then (64 - n - 1) + 56 else 55 - n)"
proof (cases "56 \<le> n")
  case False
  then have "119 - n = 55 - n + 64" by simp
  then show ?thesis using False by (simp only: mod_add_self2) simp
qed (use assms in simp)

lemma digest_fed:
  assumes f: "fed_hash upd r0 xs h" and l: "8 * length xs < 2 ^ 31"
  shows "hash_digest upd out h = out (absorb upd (padded xs) r0)"
proof -
  let ?w = "word_bytes (of_nat (8 * length xs)) :: bytes"
  obtain n where n: "length xs mod 64 = n" "n < 64" by simp
  obtain t where t: "tail xs = t" "length t = n" using n(1) by simp
  obtain r where r: "absorb upd xs r0 = r" by simp
  let ?b = "t @ [0x80] @ replicate (64 - n - 1) 0"
  have h: "h_len h = length xs" "length (h_block h) = 64" "take n (h_block h) = t" "h_regs h = r"
    using f n(1) t r by (auto simp: fed_hash_def fed_def)
  have w: "writeInt32BE (IntN (int (length xs) * 8)) = Inr ?w" using writeInt32BE_small[OF l] by (simp add: mult.commute)
  have b: "(length xs * 8) mod 512 \<ge> 448 \<longleftrightarrow> n \<ge> 56"
    using mod_mult_mult1[of 8 "length xs" 64] n(1) by (simp add: mult.commute)
  have l': "8 * length xs < 2 ^ 32" using l by simp
  have d: "hash_digest upd out h = out (if n \<ge> 56 then upd (replicate 60 0 @ ?w) (upd ?b r) else upd (take 60 ?b @ ?w) r)"
    unfolding hash_digest_def Let_def h(1) n(1) h(3,4) w by (cases "n \<ge> 56") (simp_all add: b)
  have p: "absorb upd (padded xs) r0 = absorb upd (t @ [0x80] @ replicate ((119 - n) mod 64) 0 @ replicate 4 0 @ ?w) r"
    unfolding padded_def word64_small[OF l'] n(1) t(1)[symmetric] r[symmetric] by (rule absorb_append)
  show ?thesis
  proof (cases "n \<ge> 56")
    case True
    have "t @ [0x80] @ replicate ((119 - n) mod 64) 0 @ replicate 4 0 @ ?w = ?b @ (replicate 56 0 @ replicate 4 0) @ ?w"
      unfolding pad_zeros[OF n(2)] using True by (simp add: replicate_add)
    moreover have "replicate 56 0 @ replicate 4 (0 :: byte) = replicate 60 0" by (simp flip: replicate_add)
    ultimately have "absorb upd (padded xs) r0 = absorb upd (?b @ (replicate 60 0 @ ?w)) r" unfolding p by (simp only: append_assoc)
    also have "\<dots> = absorb upd (replicate 60 0 @ ?w) (upd ?b r)" by (rule absorb_block) (use n(2) t(2) in simp)
    also have "\<dots> = upd (replicate 60 0 @ ?w) (upd ?b r)" by (rule absorb_one) simp
    finally show ?thesis unfolding d using True by simp
  next
    case False
    have z: "replicate (59 - n) (0 :: byte) = replicate (55 - n) 0 @ replicate 4 0"
      using False by (simp flip: replicate_add)
    have "take 60 ?b = t @ [0x80] @ replicate (55 - n) 0 @ replicate 4 0"
      using False t(2) by (simp add: z take_Cons')
    then have "absorb upd (padded xs) r0 = absorb upd (take 60 ?b @ ?w) r" unfolding p pad_zeros[OF n(2)] using False by simp
    also have "\<dots> = upd (take 60 ?b @ ?w) r" by (rule absorb_one) (use n(2) t(2) False in simp)
    finally show ?thesis unfolding d using False by simp
  qed
qed

lemma digest_too_long:
  assumes f: "fed_hash upd r0 xs h" and l: "2 ^ 31 \<le> 8 * length xs"
  shows "hash_digest upd out h = Inl (TypeError ''value is out of bounds'')"
proof -
  have "writeInt32BE (IntN (int (length xs) * 8)) = Inl (TypeError ''value is out of bounds'')"
    using writeInt32BE_large[OF l] by (simp add: mult.commute)
  then show ?thesis using f unfolding hash_digest_def fed_hash_def Let_def by (simp only: sum.case split: prod.split) simp
qed

section \<open>Numbers that stand for words\<close>

text \<open>\<open>reps B x w\<close>: \<open>x\<close> is an exact integer of absolute value at most \<open>B\<close> that is congruent to the word \<open>w\<close>.\<close>

definition reps :: "int \<Rightarrow> jsnum \<Rightarrow> 32 word \<Rightarrow> bool" where
  "reps B x w \<longleftrightarrow> (\<exists>n. x = IntN n \<and> \<bar>n\<bar> \<le> B \<and> word_of_int n = w)"

abbreviation (input) int32_max :: int where "int32_max \<equiv> 2 ^ 31"

named_theorems reps_intros

lemma reps_word: "reps B x w \<Longrightarrow> to_word32 x = w"
  by (auto simp: reps_def)

lemma reps_int32_of [reps_intros]: "reps int32_max (int32_of w) w"
proof -
  have "- (2 ^ 31) \<le> sint w" "sint w < 2 ^ 31" using sint_ge[of w] sint_lt[of w] by simp_all
  then have "\<bar>sint w\<bar> \<le> 2 ^ 31" by linarith
  then show ?thesis unfolding reps_def int32_of_def by (intro exI[of _ "sint w"]) simp
qed

lemma to_word32_int32_of [simp]: "to_word32 (int32_of w) = w"
  by (rule reps_word[OF reps_int32_of])

lemma reps_plus: "reps A x v \<Longrightarrow> reps B y w \<Longrightarrow> A + B \<le> 2 ^ 53 \<Longrightarrow> reps (A + B) (x + y) (v + w)"
proof -
  assume "reps A x v" "reps B y w" and s: "A + B \<le> 2 ^ 53"
  then obtain m n where mn: "x = IntN m" "\<bar>m\<bar> \<le> A" "word_of_int m = v" "y = IntN n" "\<bar>n\<bar> \<le> B" "word_of_int n = w"
    by (auto simp: reps_def)
  then have b: "\<bar>m + n\<bar> \<le> A + B" by linarith
  then have "x + y = IntN (m + n)" using mn s by (simp only: Int_plus)
  then show ?thesis unfolding reps_def using b mn by (intro exI[of _ "m + n"]) (simp del: of_int_add add: wi_hom_syms)
qed

lemma reps_mono: "reps A x w \<Longrightarrow> A \<le> B \<Longrightarrow> reps B x w"
  unfolding reps_def by (elim exE conjE, intro exI conjI, assumption) auto

lemma reps_bit:
  assumes "reps A x v" "reps B y w"
  shows reps_and: "reps int32_max (js_and x y) (v AND w)" and reps_or: "reps int32_max (js_or x y) (v OR w)"
    and reps_xor: "reps int32_max (js_xor x y) (v XOR w)"
  unfolding js_and_def js_or_def js_xor_def assms[THEN reps_word] by (rule reps_int32_of)+

lemma reps_not: "reps A x v \<Longrightarrow> reps int32_max (js_not x) (NOT v)"
  unfolding js_not_def by (simp only: reps_word reps_int32_of)

lemma reps_shl: "reps A x v \<Longrightarrow> reps int32_max (js_shl x n) (push_bit n v)"
  unfolding js_shl_def by (simp only: reps_word reps_int32_of)

lemma reps_int32: "reps A x v \<Longrightarrow> reps int32_max (js_int32 x) v"
  unfolding js_int32_def by (simp only: reps_word reps_int32_of)

lemma reps_ushr: "reps A x v \<Longrightarrow> reps (2 ^ 32) (js_ushr x n) (drop_bit n v)"
proof -
  assume "reps A x v"
  have "uint (drop_bit n v) < 2 ^ 32" using uint_lt2p[of "drop_bit n v"] by simp
  then have "\<bar>uint (drop_bit n v)\<bar> \<le> 2 ^ 32" by simp
  then show ?thesis unfolding reps_def js_ushr_def reps_word[OF \<open>reps A x v\<close>] by (intro exI[of _ "uint (drop_bit n v)"]) simp
qed

lemma rotr_bits: "n < 32 \<Longrightarrow> drop_bit n w OR push_bit (32 - n) w = word_rotr n (w :: 32 word)"
proof (rule bit_word_eqI)
  fix k assume n: "n < 32" and k: "k < LENGTH(32)"
  have beyond: "bit w i \<Longrightarrow> i < 32" for i using bit_imp_le_length[of w i] by simp
  show "bit (drop_bit n w OR push_bit (32 - n) w) k \<longleftrightarrow> bit (word_rotr n w) k"
  proof (cases "k + n < 32")
    case False
    then have "(k + n) mod 32 = k + n - 32" using n k by (simp add: mod_if)
    then show ?thesis using False n k beyond[of "n + k"] by (auto simp: bit_simps)
  qed (use n k in \<open>auto simp: bit_simps add.commute\<close>)
qed

lemma reps_S: "reps A x v \<Longrightarrow> n < 32 \<Longrightarrow> reps int32_max (sha_S x n) (word_rotr n v)"
  unfolding sha_S_def rotr_bits[symmetric] by (rule reps_or[OF reps_ushr reps_shl])

section \<open>SHA-256 on words\<close>

text \<open>The hash function of the standard, on 32-bit words with addition modulo \<open>2 ^ 32\<close>.\<close>

definition ch :: "32 word \<Rightarrow> 32 word \<Rightarrow> 32 word \<Rightarrow> 32 word" where
  "ch x y z = (x AND y) XOR (NOT x AND z)"

definition maj :: "32 word \<Rightarrow> 32 word \<Rightarrow> 32 word \<Rightarrow> 32 word" where
  "maj x y z = ((x AND y) XOR (x AND z)) XOR (y AND z)"

definition rot3 :: "nat \<Rightarrow> nat \<Rightarrow> nat \<Rightarrow> 32 word \<Rightarrow> 32 word" where
  "rot3 i j k x = (word_rotr i x XOR word_rotr j x) XOR word_rotr k x"

definition rot2_shr :: "nat \<Rightarrow> nat \<Rightarrow> nat \<Rightarrow> 32 word \<Rightarrow> 32 word" where
  "rot2_shr i j k x = (word_rotr i x XOR word_rotr j x) XOR drop_bit k x"

fun schedule256 :: "bytes \<Rightarrow> nat \<Rightarrow> 32 word" where
  "schedule256 M t = (if t < 16 then be_word (take 4 (drop (t * 4) M))
     else rot2_shr 17 19 10 (schedule256 M (t - 2)) + schedule256 M (t - 7) + rot2_shr 7 18 3 (schedule256 M (t - 15)) + schedule256 M (t - 16))"

declare schedule256.simps [simp del]

definition round256 :: "bytes \<Rightarrow> nat \<Rightarrow> 32 word regs \<Rightarrow> 32 word regs" where
  "round256 M t r =
    (let T1 = r_h r + rot3 6 11 25 (r_e r) + ch (r_e r) (r_f r) (r_g r) + word_of_int (sha256_K ! t) + schedule256 M t;
         T2 = rot3 2 13 22 (r_a r) + maj (r_a r) (r_b r) (r_c r)
     in \<lparr> r_a = T1 + T2, r_b = r_a r, r_c = r_b r, r_d = r_c r, r_e = r_d r + T1, r_f = r_e r, r_g = r_f r, r_h = r_g r \<rparr>)"

definition compress256 :: "bytes \<Rightarrow> 32 word regs \<Rightarrow> 32 word regs" where
  "compress256 M r = (let q = fold (round256 M) [0..<64] r in
     \<lparr> r_a = r_a q + r_a r, r_b = r_b q + r_b r, r_c = r_c q + r_c r, r_d = r_d q + r_d r,
       r_e = r_e q + r_e r, r_f = r_f q + r_f r, r_g = r_g q + r_g r, r_h = r_h q + r_h r \<rparr>)"

definition init256 :: "32 word regs" where
  "init256 = \<lparr> r_a = 0x6a09e667, r_b = 0xbb67ae85, r_c = 0x3c6ef372, r_d = 0xa54ff53a,
     r_e = 0x510e527f, r_f = 0x9b05688c, r_g = 0x1f83d9ab, r_h = 0x5be0cd19 \<rparr>"

definition serial256 :: "32 word regs \<Rightarrow> bytes" where
  "serial256 r = concat (map word_bytes [r_a r, r_b r, r_c r, r_d r, r_e r, r_f r, r_g r, r_h r])"

definition SHA256 :: "bytes \<Rightarrow> bytes" where
  "SHA256 b = serial256 (absorb compress256 (padded b) init256)"

section \<open>The bounds of the sums\<close>

text \<open>What the absolute values of the schedule and of the registers can reach, step by step.\<close>

definition bound256 :: "nat \<Rightarrow> int list \<times> int regs \<Rightarrow> int list \<times> int regs" where
  "bound256 j s = (case s of (Bs, R) \<Rightarrow>
     let w = (if j < 16 then int32_max else int32_max + Bs ! (j - 7) + int32_max + Bs ! (j - 16));
         T1 = r_h R + int32_max + int32_max + 2 ^ 32 + w
     in (Bs @ [w], \<lparr> r_a = T1 + (int32_max + int32_max), r_b = r_a R, r_c = r_b R, r_d = r_c R,
                     r_e = r_d R + T1, r_f = r_e R, r_g = r_f R, r_h = r_g R \<rparr>))"

definition exact256 :: "int list \<times> int regs \<Rightarrow> bool" where
  "exact256 s = (case s of (Bs, R) \<Rightarrow>
     list_all (\<lambda>b. b + int32_max \<le> 2 ^ 53) [r_a R, r_b R, r_c R, r_d R, r_e R, r_f R, r_g R, r_h R])"

fun exact_run :: "nat \<Rightarrow> nat \<Rightarrow> int list \<times> int regs \<Rightarrow> bool" where
  "exact_run j 0 s = exact256 s"
| "exact_run j (Suc n) s = (exact256 s \<and> exact_run (Suc j) n (bound256 j s))"

definition bounds_init :: "int list \<times> int regs" where
  "bounds_init = ([], \<lparr> r_a = int32_max, r_b = int32_max, r_c = int32_max, r_d = int32_max,
     r_e = int32_max, r_f = int32_max, r_g = int32_max, r_h = int32_max \<rparr>)"

lemma bounds256_exact: "exact_run 0 64 bounds_init"
  by code_simp

section \<open>The rounds on numbers are the rounds on words\<close>

definition regs_rep :: "int regs \<Rightarrow> jsnum regs \<Rightarrow> 32 word regs \<Rightarrow> bool" where
  "regs_rep R r w \<longleftrightarrow> reps (r_a R) (r_a r) (r_a w) \<and> reps (r_b R) (r_b r) (r_b w) \<and> reps (r_c R) (r_c r) (r_c w) \<and> reps (r_d R) (r_d r) (r_d w)
     \<and> reps (r_e R) (r_e r) (r_e w) \<and> reps (r_f R) (r_f r) (r_f w) \<and> reps (r_g R) (r_g r) (r_g w) \<and> reps (r_h R) (r_h r) (r_h w)"

definition rounds_rep :: "bytes \<Rightarrow> nat \<Rightarrow> int list \<times> int regs \<Rightarrow> jsnum list \<times> jsnum regs \<Rightarrow> 32 word regs \<Rightarrow> bool" where
  "rounds_rep M j B s w \<longleftrightarrow> length (fst B) = j \<and> length (fst s) = j \<and> (\<forall>i<j. reps (fst B ! i) (fst s ! i) (schedule256 M i))
     \<and> regs_rep (snd B) (snd s) w"

definition sha256_step :: "bytes \<Rightarrow> nat \<Rightarrow> jsnum list \<times> jsnum regs \<Rightarrow> jsnum list \<times> jsnum regs" where
  "sha256_step M j s = sha256_loop j (if j < 16 then readInt32BE M (j * 4) else sha256_calcW (fst s) j) s"

lemma reps_bound: "reps B x w \<Longrightarrow> 0 \<le> B"
  by (auto simp: reps_def)

lemma reps_Int: "0 \<le> n \<Longrightarrow> n \<le> B \<Longrightarrow> reps B (IntN n) (word_of_int n)"
  unfolding reps_def by (intro exI[of _ n]) auto

lemma reps_rot3:
  assumes r: "reps A x v"
  shows "reps int32_max (Sigma0256 x) (rot3 2 13 22 v)" "reps int32_max (Sigma1256 x) (rot3 6 11 25 v)"
  unfolding Sigma0256_def Sigma1256_def rot3_def
  by (rule reps_xor[OF reps_xor[OF reps_S[OF r] reps_S[OF r]] reps_S[OF r]]; simp)+

lemma reps_rot2_shr:
  assumes r: "reps A x v"
  shows "reps int32_max (Gamma0256 x) (rot2_shr 7 18 3 v)" "reps int32_max (Gamma1256 x) (rot2_shr 17 19 10 v)"
  unfolding Gamma0256_def Gamma1256_def rot2_shr_def sha_R_def
  by (rule reps_xor[OF reps_xor[OF reps_S[OF r] reps_S[OF r]] reps_ushr[OF r]]; simp)+

lemma reps_Ch: "reps A x u \<Longrightarrow> reps B y v \<Longrightarrow> reps D z w \<Longrightarrow> reps int32_max (sha_Ch x y z) (ch u v w)"
  unfolding sha_Ch_def ch_def by (intro reps_xor[OF reps_and reps_and[OF reps_not]])

lemma reps_Maj: "reps A x u \<Longrightarrow> reps B y v \<Longrightarrow> reps D z w \<Longrightarrow> reps int32_max (sha_Maj x y z) (maj u v w)"
  unfolding sha_Maj_def maj_def by (rule reps_xor[OF reps_xor[OF reps_and reps_and] reps_and])

lemma reps_readInt32BE: "reps int32_max (readInt32BE M i) (be_word (take 4 (drop i M)))"
  unfolding readInt32BE_def by (rule reps_int32_of)

lemma K_bounds: "list_all (\<lambda>k. 0 \<le> k \<and> k \<le> 2 ^ 32) sha256_K" "length sha256_K = 64"
  by code_simp+

lemma reps_K: "j < 64 \<Longrightarrow> reps (2 ^ 32) (IntN (sha256_K ! j)) (word_of_int (sha256_K ! j))"
  using K_bounds by (intro reps_Int) (simp_all add: list_all_length)

lemma schedule_rep:
  assumes r: "rounds_rep M j (Bs, R) (W, r) w" and j: "\<not> j < 16" and e: "int32_max + Bs ! (j - 7) + int32_max + Bs ! (j - 16) \<le> 2 ^ 53"
  shows "reps (int32_max + Bs ! (j - 7) + int32_max + Bs ! (j - 16)) (sha256_calcW W j) (schedule256 M j)"
proof -
  have W: "reps (Bs ! (j - k)) (W ! (j - k)) (schedule256 M (j - k))" if "0 < k" for k
    using r j that by (simp add: rounds_rep_def)
  have s: "schedule256 M j = rot2_shr 17 19 10 (schedule256 M (j - 2)) + schedule256 M (j - 7)
     + rot2_shr 7 18 3 (schedule256 M (j - 15)) + schedule256 M (j - 16)" using j by (subst schedule256.simps) simp
  have b: "0 \<le> Bs ! (j - 7)" "0 \<le> Bs ! (j - 16)" using W[THEN reps_bound] by simp_all
  note G = reps_rot2_shr(2)[OF W[of 2]] reps_rot2_shr(1)[OF W[of 15]]
  show ?thesis unfolding s sha256_calcW_def
    by (intro reps_plus[OF reps_plus[OF reps_plus[OF G(1) W] G(2)] W]) (use e b in simp_all)
qed

lemma loop_rep:
  assumes r: "rounds_rep M j (Bs, R) (W, r) w" and j: "j < 64" and x: "reps b x (schedule256 M j)"
    and e: "r_h R + int32_max + int32_max + 2 ^ 32 + b + (int32_max + int32_max) \<le> 2 ^ 53" "r_d R + (r_h R + int32_max + int32_max + 2 ^ 32 + b) \<le> 2 ^ 53"
  shows "rounds_rep M (Suc j) (Bs @ [b], \<lparr> r_a = r_h R + int32_max + int32_max + 2 ^ 32 + b + (int32_max + int32_max), r_b = r_a R, r_c = r_b R, r_d = r_c R,
      r_e = r_d R + (r_h R + int32_max + int32_max + 2 ^ 32 + b), r_f = r_e R, r_g = r_f R, r_h = r_g R \<rparr>) (sha256_loop j x (W, r)) (round256 M j w)"
proof -
  have g: "reps (r_a R) (r_a r) (r_a w)" "reps (r_b R) (r_b r) (r_b w)" "reps (r_c R) (r_c r) (r_c w)" "reps (r_d R) (r_d r) (r_d w)"
      "reps (r_e R) (r_e r) (r_e w)" "reps (r_f R) (r_f r) (r_f w)" "reps (r_g R) (r_g r) (r_g w)" "reps (r_h R) (r_h r) (r_h w)"
    using r by (simp_all add: rounds_rep_def regs_rep_def)
  have n: "0 \<le> b" using reps_bound[OF x] .
  have T1: "reps (r_h R + int32_max + int32_max + 2 ^ 32 + b) (r_h r + Sigma1256 (r_e r) + sha_Ch (r_e r) (r_f r) (r_g r) + IntN (sha256_K ! j) + x)
      (r_h w + rot3 6 11 25 (r_e w) + ch (r_e w) (r_f w) (r_g w) + word_of_int (sha256_K ! j) + schedule256 M j)"
    by (rule reps_plus[OF reps_plus[OF reps_plus[OF reps_plus[OF g(8) reps_rot3(2)[OF g(5)]] reps_Ch[OF g(5-7)]] reps_K[OF j]] x]) (use e n in simp_all)
  have T2: "reps (int32_max + int32_max) (Sigma0256 (r_a r) + sha_Maj (r_a r) (r_b r) (r_c r)) (rot3 2 13 22 (r_a w) + maj (r_a w) (r_b w) (r_c w))"
    by (rule reps_plus[OF reps_rot3(1)[OF g(1)] reps_Maj[OF g(1-3)]]) simp
  note a = reps_plus[OF T1 T2 e(1)] and e' = reps_plus[OF g(4) T1 e(2)]
  have W: "reps ((Bs @ [b]) ! i) ((W @ [x]) ! i) (schedule256 M i)" if "i < Suc j" for i
    using r x that by (auto simp: rounds_rep_def nth_append less_Suc_eq)
  show ?thesis unfolding rounds_rep_def sha256_loop_def round256_def Let_def regs_rep_def prod.case fst_conv snd_conv regs.simps
    using W a e' g r by (simp add: rounds_rep_def)
qed

lemma step_rep:
  assumes r: "rounds_rep M j B s w" and j: "j < 64" and e: "exact256 (bound256 j B)"
  shows "rounds_rep M (Suc j) (bound256 j B) (sha256_step M j s) (round256 M j w)"
proof -
  obtain Bs R W q where p: "B = (Bs, R)" "s = (W, q)" by fastforce
  let ?b = "if j < 16 then int32_max else int32_max + Bs ! (j - 7) + int32_max + Bs ! (j - 16)"
  have h: "0 \<le> r_h R" "0 \<le> r_d R" using r unfolding p rounds_rep_def regs_rep_def by (auto dest!: reps_bound)
  have e': "r_h R + int32_max + int32_max + 2 ^ 32 + ?b + (int32_max + int32_max) \<le> 2 ^ 53"
      "r_d R + (r_h R + int32_max + int32_max + 2 ^ 32 + ?b) \<le> 2 ^ 53"
    using e by (simp_all add: p exact256_def bound256_def Let_def)
  have x: "reps ?b (if j < 16 then readInt32BE M (j * 4) else sha256_calcW W j) (schedule256 M j)"
  proof (cases "j < 16")
    case True
    then show ?thesis using reps_readInt32BE[of M "j * 4"] by (subst schedule256.simps) simp
  next
    case False
    then show ?thesis using schedule_rep[OF r[unfolded p] False] e' h by simp
  qed
  from loop_rep[OF r[unfolded p] j x e'] show ?thesis unfolding p sha256_step_def bound256_def Let_def by (simp only: prod.case fst_conv)
qed

lemma exact_run_exact: "exact_run j n B \<Longrightarrow> exact256 B"
  by (cases n) simp_all

lemma rounds256_run:
  "rounds_rep M j B s w \<Longrightarrow> exact_run j n B \<Longrightarrow> j + n \<le> 64 \<Longrightarrow>
   \<exists>B'. exact256 B' \<and> rounds_rep M (j + n) B' (fold (sha256_step M) [j..<j + n] s) (fold (round256 M) [j..<j + n] w)"
proof (induction n arbitrary: j B s w)
  case (Suc n)
  from Suc.prems have x: "exact_run (Suc j) n (bound256 j B)" by simp
  from step_rep[OF Suc.prems(1) _ exact_run_exact[OF x]] Suc.prems(3)
  have "rounds_rep M (Suc j) (bound256 j B) (sha256_step M j s) (round256 M j w)" by simp
  note ih = Suc.IH[OF this x]
  have c: "[j..<j + Suc n] = j # [Suc j..<Suc j + n]" by (simp add: upt_conv_Cons del: upt_Suc)
  show ?case unfolding c fold_Cons o_apply using ih Suc.prems(3) by (simp del: upt_Suc)
qed auto

text \<open>Between blocks the registers are 32-bit numbers.\<close>

definition rep256 :: "jsnum regs \<Rightarrow> 32 word regs \<Rightarrow> bool" where
  "rep256 r w \<longleftrightarrow> r = \<lparr> r_a = int32_of (r_a w), r_b = int32_of (r_b w), r_c = int32_of (r_c w), r_d = int32_of (r_d w),
     r_e = int32_of (r_e w), r_f = int32_of (r_f w), r_g = int32_of (r_g w), r_h = int32_of (r_h w) \<rparr>"

lemma rep256_regs: "rep256 r w \<Longrightarrow> regs_rep (snd bounds_init) r w"
  unfolding rep256_def regs_rep_def bounds_init_def snd_conv by (elim ssubst) (simp only: regs.simps reps_int32_of simp_thms)

lemma js_int32_rep: "reps A x w \<Longrightarrow> js_int32 x = int32_of w"
  by (simp add: js_int32_def reps_word)

lemma sha256_update_steps: "sha256_update M r = (let
     q = snd (fold (sha256_step M) [0..<64] ([], \<lparr> r_a = js_int32 (r_a r), r_b = js_int32 (r_b r), r_c = js_int32 (r_c r), r_d = js_int32 (r_d r),
            r_e = js_int32 (r_e r), r_f = js_int32 (r_f r), r_g = js_int32 (r_g r), r_h = js_int32 (r_h r) \<rparr>))
     in \<lparr> r_a = js_int32 (r_a q + r_a r), r_b = js_int32 (r_b q + r_b r), r_c = js_int32 (r_c q + r_c r), r_d = js_int32 (r_d q + r_d r),
          r_e = js_int32 (r_e q + r_e r), r_f = js_int32 (r_f q + r_f r), r_g = js_int32 (r_g q + r_g r), r_h = js_int32 (r_h q + r_h r) \<rparr>)"
proof -
  have f: "fold (\<lambda>j. sha256_loop j (readInt32BE M (j * 4))) [0..<16] z = fold (sha256_step M) [0..<16] z"
    "fold (\<lambda>j s. sha256_loop j (sha256_calcW (fst s) j) s) [16..<64] z = fold (sha256_step M) [16..<64] z" for z
    by (rule fold_range, simp add: sha256_step_def fun_eq_iff)+
  have "fold (sha256_step M) [16..<64] (fold (sha256_step M) [0..<16] z) = fold (sha256_step M) [0..<64] z" for z
    by (rule fold_upt_split) simp_all
  then show ?thesis unfolding sha256_update_def Let_def f by (simp only:)
qed

lemma final_rep:
  assumes q: "regs_rep R q Q" and x: "exact256 (Bs, R)" and r: "rep256 r w"
  shows "rep256 \<lparr> r_a = js_int32 (r_a q + r_a r), r_b = js_int32 (r_b q + r_b r), r_c = js_int32 (r_c q + r_c r), r_d = js_int32 (r_d q + r_d r),
      r_e = js_int32 (r_e q + r_e r), r_f = js_int32 (r_f q + r_f r), r_g = js_int32 (r_g q + r_g r), r_h = js_int32 (r_h q + r_h r) \<rparr>
    \<lparr> r_a = r_a Q + r_a w, r_b = r_b Q + r_b w, r_c = r_c Q + r_c w, r_d = r_d Q + r_d w,
      r_e = r_e Q + r_e w, r_f = r_f Q + r_f w, r_g = r_g Q + r_g w, r_h = r_h Q + r_h w \<rparr>"
proof -
  have p: "js_int32 (x + y) = int32_of (u + v)" if "reps A x u" "reps int32_max y v" "A + int32_max \<le> 2 ^ 53" for A x y u v
    by (rule js_int32_rep[OF reps_plus[OF that]])
  show ?thesis using q rep256_regs[OF r] x
    unfolding rep256_def regs_rep_def bounds_init_def snd_conv regs.simps exact256_def prod.case list.pred_inject regs.ext_inject
    by (elim conjE) (intro conjI refl; rule p; assumption)
qed

lemma update_rep:
  assumes r: "rep256 r w" shows "rep256 (sha256_update M r) (compress256 M w)"
proof -
  let ?r = "\<lparr> r_a = js_int32 (r_a r), r_b = js_int32 (r_b r), r_c = js_int32 (r_c r), r_d = js_int32 (r_d r),
            r_e = js_int32 (r_e r), r_f = js_int32 (r_f r), r_g = js_int32 (r_g r), r_h = js_int32 (r_h r) \<rparr>"
  have "?r = r" using r unfolding rep256_def by (elim ssubst) (simp add: js_int32_def)
  then have "rounds_rep M 0 bounds_init ([], ?r) w" using rep256_regs[OF r] by (simp add: rounds_rep_def bounds_init_def)
  from rounds256_run[OF this bounds256_exact] obtain Bs R where B: "exact256 (Bs, R)"
      "rounds_rep M 64 (Bs, R) (fold (sha256_step M) [0..<64] ([], ?r)) (fold (round256 M) [0..<64] w)" by (auto simp only: add_0 split_paired_Ex)
  from B(2) have "regs_rep R (snd (fold (sha256_step M) [0..<64] ([], ?r))) (fold (round256 M) [0..<64] w)" unfolding rounds_rep_def snd_conv by (elim conjE)
  from final_rep[OF this B(1) r] show ?thesis unfolding sha256_update_steps compress256_def Let_def .
qed

section \<open>Hash functions over a compression function\<close>

text \<open>The contract between the buffering and a hash function: the update of the code follows a compression function.\<close>

locale block_hash =
  fixes upd :: "bytes \<Rightarrow> 'r \<Rightarrow> 'r" and out :: "'r \<Rightarrow> exn + bytes" and r0 :: 'r
    and cmp :: "bytes \<Rightarrow> 'w \<Rightarrow> 'w" and ser :: "'w \<Rightarrow> bytes" and w0 :: 'w and rep :: "'r \<Rightarrow> 'w \<Rightarrow> bool"
  assumes init: "rep r0 w0"
    and follows: "rep r w \<Longrightarrow> rep (upd M r) (cmp M w)"
    and writes: "rep r w \<Longrightarrow> out r = Inr (ser w)"
begin

lemma absorb_rep: "rep r w \<Longrightarrow> rep (absorb upd b r) (absorb cmp b w)"
proof (induction "length b" arbitrary: b r w rule: less_induct)
  case less
  show ?case
  proof (cases "length b < 64")
    case False
    then have "rep (absorb upd (drop 64 b) (upd (take 64 b) r)) (absorb cmp (drop 64 b) (cmp (take 64 b) w))"
      by (intro less.hyps follows less.prems) simp
    then show ?thesis unfolding absorb.simps[of upd b] absorb.simps[of cmp b] using False by simp
  qed (simp add: absorb.simps less.prems)
qed

lemma digest: "fed_hash upd r0 xs h \<Longrightarrow> 8 * length xs < 2 ^ 31 \<Longrightarrow> hash_digest upd out h = Inr (ser (absorb cmp (padded xs) w0))"
  by (simp only: digest_fed writes[OF absorb_rep[OF init]])

text \<open>Data may be fed in any pieces.\<close>

lemma pieces: "fed_hash upd r0 xs h \<Longrightarrow> fed_hash upd r0 (xs @ concat ds) (fold (hash_update upd) ds h)"
proof (induction ds arbitrary: xs h)
  case (Cons d ds)
  from Cons.IH[OF fed_update[OF Cons.prems]] show ?case by simp
qed simp

lemma digest_pieces:
  "8 * length (concat ds) < 2 ^ 31 \<Longrightarrow> hash_digest upd out (fold (hash_update upd) ds (new_Hash r0)) = Inr (ser (absorb cmp (padded (concat ds)) w0))"
  using digest[OF pieces[OF fed_new]] by simp

lemma digest_long:
  "2 ^ 31 \<le> 8 * length (concat ds) \<Longrightarrow> hash_digest upd out (fold (hash_update upd) ds (new_Hash r0)) = Inl (TypeError ''value is out of bounds'')"
  using digest_too_long[OF pieces[OF fed_new]] by simp

end

lemma writeInt32BE_int32: "writeInt32BE (int32_of w) = Inr (word_bytes w)"
proof -
  obtain n where n: "int32_of w = IntN n" "- (2 ^ 31) \<le> n" "n < 2 ^ 31"
    using sint_ge[of w] sint_lt[of w] by (intro that[of "sint w"]) (simp_all add: int32_of_def)
  have "to_word32 (IntN n) = w" using to_word32_int32_of[of w] unfolding n(1) .
  then show ?thesis using n(2,3) unfolding n(1) by (simp add: writeInt32BE_def less_jsnum_def)
qed

lemma concat_writes_int32: "concat_writes (map (\<lambda>w. writeInt32BE (int32_of w)) ws) = Inr (concat (map word_bytes ws))"
  by (induction ws) (simp_all add: writeInt32BE_int32)

lemma sha256_writes: "rep256 r w \<Longrightarrow> sha256_hash r = Inr (serial256 w)"
  using concat_writes_int32[of "[r_a w, r_b w, r_c w, r_d w, r_e w, r_f w, r_g w, r_h w]"]
  by (simp add: rep256_def sha256_hash_def serial256_def)

interpretation s256: block_hash sha256_update sha256_hash sha256_init compress256 serial256 init256 rep256
  by unfold_locales (simp_all add: update_rep sha256_writes, simp add: rep256_def sha256_init_def init256_def)

end
