(* ===== verification/Sha1.thy ===== *)
theory Sha1
  imports Sha
begin

unbundle bit_operations_syntax

text \<open>
  SHA-1 of \<^verbatim>\<open>sha.js\<close> in \<^verbatim>\<open>bitcore.js\<close>, over the buffering of \<open>Sha\<close>: the rounds with the language's numbers, and that they
  compute the rounds on 32-bit words.
\<close>

section \<open>The rounds of the code\<close>

record 'a regs5 =
  s_a :: 'a
  s_b :: 'a
  s_c :: 'a
  s_d :: 'a
  s_e :: 'a

definition sha1_init :: "jsnum regs5" where
  "sha1_init = \<lparr> s_a = IntN 0x67452301, s_b = IntN 0xefcdab89, s_c = IntN 0x98badcfe, s_d = IntN 0x10325476, s_e = IntN 0xc3d2e1f0 \<rparr>"

definition rol :: "jsnum \<Rightarrow> nat \<Rightarrow> jsnum" where
  "rol num cnt = js_or (js_shl num cnt) (js_ushr num (32 - cnt))"

definition sha1_calcW :: "jsnum list \<Rightarrow> nat \<Rightarrow> jsnum" where
  "sha1_calcW W j = rol (js_xor (js_xor (js_xor (W ! (j - 3)) (W ! (j - 8))) (W ! (j - 14))) (W ! (j - 16))) 1"

definition sha1_loop :: "int \<Rightarrow> jsnum \<Rightarrow> jsnum \<Rightarrow> jsnum list \<times> jsnum regs5 \<Rightarrow> jsnum list \<times> jsnum regs5" where
  "sha1_loop k w f s = (case s of (W, r) \<Rightarrow>
     let t = rol (s_a r) 5 + f + s_e r + w + IntN k
     in (W @ [w], \<lparr> s_a = t, s_b = s_a r, s_c = rol (s_b r) 30, s_d = s_c r, s_e = s_d r \<rparr>))"

definition sha1_f1 :: "jsnum regs5 \<Rightarrow> jsnum" where
  "sha1_f1 r = js_or (js_and (s_b r) (s_c r)) (js_and (js_not (s_b r)) (s_d r))"

definition sha1_f2 :: "jsnum regs5 \<Rightarrow> jsnum" where
  "sha1_f2 r = js_xor (js_xor (s_b r) (s_c r)) (s_d r)"

definition sha1_f3 :: "jsnum regs5 \<Rightarrow> jsnum" where
  "sha1_f3 r = js_or (js_or (js_and (s_b r) (s_c r)) (js_and (s_b r) (s_d r))) (js_and (s_c r) (s_d r))"

definition sha1_update :: "bytes \<Rightarrow> jsnum regs5 \<Rightarrow> jsnum regs5" where
  "sha1_update M r = (let
     s1 = fold (\<lambda>j s. sha1_loop 1518500249 (readInt32BE M (j * 4)) (sha1_f1 (snd s)) s) [0..<16] ([], r);
     s2 = fold (\<lambda>j s. sha1_loop 1518500249 (sha1_calcW (fst s) j) (sha1_f1 (snd s)) s) [16..<20] s1;
     s3 = fold (\<lambda>j s. sha1_loop 1859775393 (sha1_calcW (fst s) j) (sha1_f2 (snd s)) s) [20..<40] s2;
     s4 = fold (\<lambda>j s. sha1_loop (- 1894007588) (sha1_calcW (fst s) j) (sha1_f3 (snd s)) s) [40..<60] s3;
     s5 = fold (\<lambda>j s. sha1_loop (- 899497514) (sha1_calcW (fst s) j) (sha1_f2 (snd s)) s) [60..<80] s4;
     q = snd s5
     in \<lparr> s_a = js_int32 (s_a q + s_a r), s_b = js_int32 (s_b q + s_b r), s_c = js_int32 (s_c q + s_c r),
          s_d = js_int32 (s_d q + s_d r), s_e = js_int32 (s_e q + s_e r) \<rparr>)"

definition sha1_hash :: "jsnum regs5 \<Rightarrow> exn + bytes" where
  "sha1_hash r = concat_writes (map (\<lambda>x. writeInt32BE (js_int32 x)) [s_a r, s_b r, s_c r, s_d r, s_e r])"

section \<open>SHA-1 on words\<close>

definition f_sha1 :: "nat \<Rightarrow> 32 word \<Rightarrow> 32 word \<Rightarrow> 32 word \<Rightarrow> 32 word" where
  "f_sha1 t x y z = (if t < 20 then (x AND y) OR (NOT x AND z)
     else if 40 \<le> t \<and> t < 60 then ((x AND y) OR (x AND z)) OR (y AND z) else (x XOR y) XOR z)"

definition k_sha1 :: "nat \<Rightarrow> 32 word" where
  "k_sha1 t = (if t < 20 then 0x5A827999 else if t < 40 then 0x6ED9EBA1 else if t < 60 then 0x8F1BBCDC else 0xCA62C1D6)"

fun schedule_sha1 :: "bytes \<Rightarrow> nat \<Rightarrow> 32 word" where
  "schedule_sha1 M t = (if t < 16 then be_word (take 4 (drop (t * 4) M))
     else word_rotl 1 (((schedule_sha1 M (t - 3) XOR schedule_sha1 M (t - 8)) XOR schedule_sha1 M (t - 14)) XOR schedule_sha1 M (t - 16)))"

declare schedule_sha1.simps [simp del]

definition round_sha1 :: "bytes \<Rightarrow> nat \<Rightarrow> 32 word regs5 \<Rightarrow> 32 word regs5" where
  "round_sha1 M t r = \<lparr> s_a = word_rotl 5 (s_a r) + f_sha1 t (s_b r) (s_c r) (s_d r) + s_e r + schedule_sha1 M t + k_sha1 t,
     s_b = s_a r, s_c = word_rotl 30 (s_b r), s_d = s_c r, s_e = s_d r \<rparr>"

definition compress_sha1 :: "bytes \<Rightarrow> 32 word regs5 \<Rightarrow> 32 word regs5" where
  "compress_sha1 M r = (let q = fold (round_sha1 M) [0..<80] r in
     \<lparr> s_a = s_a q + s_a r, s_b = s_b q + s_b r, s_c = s_c q + s_c r, s_d = s_d q + s_d r, s_e = s_e q + s_e r \<rparr>)"

definition init_sha1 :: "32 word regs5" where
  "init_sha1 = \<lparr> s_a = 0x67452301, s_b = 0xefcdab89, s_c = 0x98badcfe, s_d = 0x10325476, s_e = 0xc3d2e1f0 \<rparr>"

definition serial_sha1 :: "32 word regs5 \<Rightarrow> bytes" where
  "serial_sha1 r = concat (map word_bytes [s_a r, s_b r, s_c r, s_d r, s_e r])"

definition SHA1 :: "bytes \<Rightarrow> bytes" where
  "SHA1 b = serial_sha1 (absorb compress_sha1 (padded b) init_sha1)"

section \<open>The rounds on numbers are the rounds on words\<close>

definition regs5_rep :: "jsnum regs5 \<Rightarrow> 32 word regs5 \<Rightarrow> bool" where
  "regs5_rep r w \<longleftrightarrow> reps (2 ^ 35) (s_a r) (s_a w) \<and> reps (2 ^ 35) (s_b r) (s_b w) \<and> reps (2 ^ 32) (s_c r) (s_c w)
     \<and> reps (2 ^ 32) (s_d r) (s_d w) \<and> reps (2 ^ 32) (s_e r) (s_e w)"

definition rep_sha1 :: "jsnum regs5 \<Rightarrow> 32 word regs5 \<Rightarrow> bool" where
  "rep_sha1 r w \<longleftrightarrow> reps (2 ^ 32) (s_a r) (s_a w) \<and> reps (2 ^ 32) (s_b r) (s_b w) \<and> reps (2 ^ 32) (s_c r) (s_c w)
     \<and> reps (2 ^ 32) (s_d r) (s_d w) \<and> reps (2 ^ 32) (s_e r) (s_e w)"

definition steps_rep :: "bytes \<Rightarrow> nat \<Rightarrow> jsnum list \<times> jsnum regs5 \<Rightarrow> 32 word regs5 \<Rightarrow> bool" where
  "steps_rep M j s w \<longleftrightarrow> length (fst s) = j \<and> (\<forall>i<j. reps int32_max (fst s ! i) (schedule_sha1 M i)) \<and> regs5_rep (snd s) w"

definition sha1_step :: "bytes \<Rightarrow> nat \<Rightarrow> jsnum list \<times> jsnum regs5 \<Rightarrow> jsnum list \<times> jsnum regs5" where
  "sha1_step M j s = sha1_loop (if j < 20 then 1518500249 else if j < 40 then 1859775393 else if j < 60 then - 1894007588 else - 899497514)
     (if j < 16 then readInt32BE M (j * 4) else sha1_calcW (fst s) j)
     (if j < 20 then sha1_f1 (snd s) else if 40 \<le> j \<and> j < 60 then sha1_f3 (snd s) else sha1_f2 (snd s)) s"

lemma rotl_bits: "0 < n \<Longrightarrow> n < 32 \<Longrightarrow> push_bit n w OR drop_bit (32 - n) w = word_rotl n (w :: 32 word)"
proof -
  assume n: "0 < n" "n < 32"
  have "word_rotl n w = word_rotr (32 - n) w"
    using n by (simp add: word_rotl_eq_word_rotr)
  then show ?thesis using rotr_bits[of "32 - n" w] n by (simp add: or.commute)
qed

lemma reps_rol: "reps A x w \<Longrightarrow> 0 < n \<Longrightarrow> n < 32 \<Longrightarrow> reps int32_max (rol x n) (word_rotl n w)"
  unfolding rol_def rotl_bits[symmetric] by (rule reps_or[OF reps_shl reps_ushr])

lemma f_rep:
  assumes "reps A (s_b r) x" "reps B (s_c r) y" "reps D (s_d r) z"
  shows "reps int32_max (if j < 20 then sha1_f1 r else if 40 \<le> j \<and> j < 60 then sha1_f3 r else sha1_f2 r) (f_sha1 j x y z)"
proof -
  have "reps int32_max (sha1_f1 r) ((x AND y) OR (NOT x AND z))" unfolding sha1_f1_def
    by (rule reps_or[OF reps_and[OF assms(1,2)] reps_and[OF reps_not[OF assms(1)] assms(3)]])
  moreover have "reps int32_max (sha1_f2 r) ((x XOR y) XOR z)" unfolding sha1_f2_def by (rule reps_xor[OF reps_xor[OF assms(1,2)] assms(3)])
  moreover have "reps int32_max (sha1_f3 r) (((x AND y) OR (x AND z)) OR (y AND z))" unfolding sha1_f3_def
    by (rule reps_or[OF reps_or[OF reps_and[OF assms(1,2)] reps_and[OF assms(1,3)]] reps_and[OF assms(2,3)]])
  ultimately show ?thesis unfolding f_sha1_def by simp
qed

lemma k_rep: "reps int32_max (IntN (if j < 20 then 1518500249 else if j < 40 then 1859775393 else if j < 60 then - 1894007588 else - 899497514)) (k_sha1 j)"
  unfolding reps_def k_sha1_def by (intro exI conjI, rule refl) auto

lemma w_rep:
  assumes r: "steps_rep M j (W, r) w"
  shows "reps int32_max (if j < 16 then readInt32BE M (j * 4) else sha1_calcW W j) (schedule_sha1 M j)"
proof (cases "j < 16")
  case True
  then show ?thesis using reps_readInt32BE[of M "j * 4"] by (subst schedule_sha1.simps) simp
next
  case False
  have W: "reps int32_max (W ! (j - k)) (schedule_sha1 M (j - k))" if "0 < k" for k
    using r False that by (simp add: steps_rep_def)
  have "reps int32_max (sha1_calcW W j) (word_rotl 1 (((schedule_sha1 M (j - 3) XOR schedule_sha1 M (j - 8)) XOR schedule_sha1 M (j - 14)) XOR schedule_sha1 M (j - 16)))"
    unfolding sha1_calcW_def by (rule reps_rol[OF reps_xor[OF reps_xor[OF reps_xor[OF W W] W] W]]) simp_all
  then show ?thesis using False by (subst schedule_sha1.simps) simp
qed

lemma step_sha1_rep:
  assumes s: "steps_rep M j s w" shows "steps_rep M (Suc j) (sha1_step M j s) (round_sha1 M j w)"
proof -
  obtain W r where p: "s = (W, r)" by fastforce
  have g: "reps (2 ^ 35) (s_a r) (s_a w)" "reps (2 ^ 35) (s_b r) (s_b w)" "reps (2 ^ 32) (s_c r) (s_c w)"
      "reps (2 ^ 32) (s_d r) (s_d w)" "reps (2 ^ 32) (s_e r) (s_e w)" using s by (simp_all add: p steps_rep_def regs5_rep_def)
  note x = w_rep[OF s[unfolded p]]
  let ?x = "if j < 16 then readInt32BE M (j * 4) else sha1_calcW W j"
  have t: "reps (2 ^ 35) (rol (s_a r) 5 + (if j < 20 then sha1_f1 r else if 40 \<le> j \<and> j < 60 then sha1_f3 r else sha1_f2 r) + s_e r + ?x
      + IntN (if j < 20 then 1518500249 else if j < 40 then 1859775393 else if j < 60 then - 1894007588 else - 899497514))
      (word_rotl 5 (s_a w) + f_sha1 j (s_b w) (s_c w) (s_d w) + s_e w + schedule_sha1 M j + k_sha1 j)"
    by (rule reps_mono, rule reps_plus[OF reps_plus[OF reps_plus[OF reps_plus[OF reps_rol[OF g(1)] f_rep[OF g(2-4)]] g(5)] x] k_rep]) simp_all
  have c: "reps (2 ^ 32) (rol (s_b r) 30) (word_rotl 30 (s_b w))" by (rule reps_mono, rule reps_rol[OF g(2)]) simp_all
  have W: "reps int32_max ((W @ [?x]) ! i) (schedule_sha1 M i)" if "i < Suc j" for i
    using s x that by (auto simp: p steps_rep_def nth_append less_Suc_eq)
  show ?thesis unfolding steps_rep_def sha1_step_def sha1_loop_def round_sha1_def Let_def regs5_rep_def p prod.case fst_conv snd_conv regs5.simps
    using W t c g s by (simp add: p steps_rep_def)
qed

lemma sha1_update_steps: "sha1_update M r = (let q = snd (fold (sha1_step M) [0..<80] ([], r))
     in \<lparr> s_a = js_int32 (s_a q + s_a r), s_b = js_int32 (s_b q + s_b r), s_c = js_int32 (s_c q + s_c r),
          s_d = js_int32 (s_d q + s_d r), s_e = js_int32 (s_e q + s_e r) \<rparr>)"
proof -
  have f: "fold (\<lambda>j s. sha1_loop 1518500249 (readInt32BE M (j * 4)) (sha1_f1 (snd s)) s) [0..<16] z = fold (sha1_step M) [0..<16] z"
    "fold (\<lambda>j s. sha1_loop 1518500249 (sha1_calcW (fst s) j) (sha1_f1 (snd s)) s) [16..<20] z = fold (sha1_step M) [16..<20] z"
    "fold (\<lambda>j s. sha1_loop 1859775393 (sha1_calcW (fst s) j) (sha1_f2 (snd s)) s) [20..<40] z = fold (sha1_step M) [20..<40] z"
    "fold (\<lambda>j s. sha1_loop (- 1894007588) (sha1_calcW (fst s) j) (sha1_f3 (snd s)) s) [40..<60] z = fold (sha1_step M) [40..<60] z"
    "fold (\<lambda>j s. sha1_loop (- 899497514) (sha1_calcW (fst s) j) (sha1_f2 (snd s)) s) [60..<80] z = fold (sha1_step M) [60..<80] z" for z
    by (rule fold_range, simp add: sha1_step_def fun_eq_iff)+
  let ?F = "sha1_step M"
  have "fold ?F [60..<80] (fold ?F [40..<60] (fold ?F [20..<40] (fold ?F [16..<20] (fold ?F [0..<16] z)))) = fold ?F [0..<80] z" for z
    using fold_upt_split[of 0 16 20 ?F] fold_upt_split[of 0 20 40 ?F] fold_upt_split[of 0 40 60 ?F] fold_upt_split[of 0 60 80 ?F] by (simp del: upt_rec_numeral)
  then show ?thesis unfolding sha1_update_def Let_def f by (simp only:)
qed

lemma update_sha1_rep:
  assumes r: "rep_sha1 r w" shows "rep_sha1 (sha1_update M r) (compress_sha1 M w)"
proof -
  have "steps_rep M 0 ([], r) w" using r by (auto simp: steps_rep_def rep_sha1_def regs5_rep_def intro: reps_mono)
  with step_sha1_rep have "steps_rep M 80 (fold (sha1_step M) [0..<80] ([], r)) (fold (round_sha1 M) [0..<80] w)" by (rule fold_sim)
  then obtain q Q where q: "snd (fold (sha1_step M) [0..<80] ([], r)) = q" "fold (round_sha1 M) [0..<80] w = Q" "regs5_rep q Q"
    unfolding steps_rep_def by (elim conjE) (rule that[OF refl refl])
  have p: "reps (2 ^ 32) (js_int32 (x + y)) (u + v)" if "reps A x u" "reps B y v" "A + B \<le> 2 ^ 53" for A B x y u v
    by (rule reps_mono[OF reps_int32[OF reps_plus[OF that]]]) simp
  show ?thesis using q(3) r unfolding sha1_update_steps compress_sha1_def Let_def q(1,2) rep_sha1_def regs5_rep_def regs5.simps
    by (elim conjE) (intro conjI; rule p, assumption, assumption, simp)
qed

lemma sha1_writes: "rep_sha1 r w \<Longrightarrow> sha1_hash r = Inr (serial_sha1 w)"
proof -
  assume "rep_sha1 r w"
  then have "map js_int32 [s_a r, s_b r, s_c r, s_d r, s_e r] = map int32_of [s_a w, s_b w, s_c w, s_d w, s_e w]"
    by (auto simp: rep_sha1_def dest!: js_int32_rep)
  from arg_cong[OF this, of "map writeInt32BE"] show ?thesis
    unfolding sha1_hash_def serial_sha1_def map_map o_def by (simp only: concat_writes_int32)
qed

lemma init_sha1_rep: "rep_sha1 sha1_init init_sha1"
  unfolding rep_sha1_def sha1_init_def init_sha1_def regs5.simps
  using reps_Int[of "0x67452301" "2 ^ 32"] reps_Int[of "0xefcdab89" "2 ^ 32"] reps_Int[of "0x98badcfe" "2 ^ 32"] reps_Int[of "0x10325476" "2 ^ 32"] reps_Int[of "0xc3d2e1f0" "2 ^ 32"]
  by simp

interpretation s1: block_hash sha1_update sha1_hash sha1_init compress_sha1 serial_sha1 init_sha1 rep_sha1
  by unfold_locales (simp_all add: update_sha1_rep sha1_writes init_sha1_rep)

end
