(* ===== verification/HashJS.thy ===== *)
theory HashJS
  imports Sha1
begin

unbundle bit_operations_syntax

text \<open>
  The package \<^verbatim>\<open>hash.js\<close> inside \<^verbatim>\<open>bitcore.js\<close>: the block buffering with its padding, SHA-256, SHA-224, SHA-1 and RIPEMD-160.
  Its sums are reduced to 32 bits at every step. The SHA functions are a second implementation of those of \<open>Sha\<close> and \<open>Sha1\<close>.
\<close>

section \<open>Words as numbers\<close>

definition js_unsign :: "jsnum \<Rightarrow> jsnum" where
  "js_unsign r = (if r < IntN 0 then r + IntN 0x100000000 else r)"

definition sum32 :: "jsnum \<Rightarrow> jsnum \<Rightarrow> jsnum" where
  "sum32 a b = js_unsign (js_and (a + b) (IntN 0xffffffff))"

definition sum32_3 :: "jsnum \<Rightarrow> jsnum \<Rightarrow> jsnum \<Rightarrow> jsnum" where
  "sum32_3 a b c = js_unsign (js_and (a + b + c) (IntN 0xffffffff))"

definition sum32_4 :: "jsnum \<Rightarrow> jsnum \<Rightarrow> jsnum \<Rightarrow> jsnum \<Rightarrow> jsnum" where
  "sum32_4 a b c d = js_unsign (js_and (a + b + c + d) (IntN 0xffffffff))"

definition sum32_5 :: "jsnum \<Rightarrow> jsnum \<Rightarrow> jsnum \<Rightarrow> jsnum \<Rightarrow> jsnum \<Rightarrow> jsnum" where
  "sum32_5 a b c d e = js_unsign (js_and (a + b + c + d + e) (IntN 0xffffffff))"

definition rotl32 :: "jsnum \<Rightarrow> nat \<Rightarrow> jsnum" where
  "rotl32 w b = js_or (js_shl w b) (js_ushr w (32 - b))"

definition rotr32 :: "jsnum \<Rightarrow> nat \<Rightarrow> jsnum" where
  "rotr32 w b = js_or (js_ushr w b) (js_shl w (32 - b))"

text \<open>The bytes of a message are numbers; a number between 0 and 255 that the code stores in an array of bytes is read as byte.\<close>

definition byte_num :: "byte \<Rightarrow> jsnum" where
  "byte_num b = IntN (uint b)"

definition num_byte :: "jsnum \<Rightarrow> byte" where
  "num_byte x = ucast (to_word32 x)"

definition join32_word :: "bool \<Rightarrow> bytes \<Rightarrow> nat \<Rightarrow> jsnum" where
  "join32_word little msg k = js_unsign (
     if little then js_or (js_or (js_or (js_shl (byte_num (msg ! (k + 3))) 24) (js_shl (byte_num (msg ! (k + 2))) 16)) (js_shl (byte_num (msg ! (k + 1))) 8)) (byte_num (msg ! k))
     else js_or (js_or (js_or (js_shl (byte_num (msg ! k)) 24) (js_shl (byte_num (msg ! (k + 1))) 16)) (js_shl (byte_num (msg ! (k + 2))) 8)) (byte_num (msg ! (k + 3))))"

definition join32 :: "bool \<Rightarrow> bytes \<Rightarrow> exn + jsnum list" where
  "join32 little msg = (if length msg mod 4 = 0 then Inr (map (\<lambda>i. join32_word little msg (4 * i)) [0..<length msg div 4])
     else Inl (GenericError ''Assertion failed''))"

definition split32_word :: "bool \<Rightarrow> jsnum \<Rightarrow> bytes" where
  "split32_word little m = (let b = [num_byte (js_ushr m 24), num_byte (js_and (js_ushr m 16) (IntN 0xff)), num_byte (js_and (js_ushr m 8) (IntN 0xff)),
     num_byte (js_and m (IntN 0xff))] in if little then rev b else b)"

definition split32 :: "bool \<Rightarrow> jsnum list \<Rightarrow> bytes" where
  "split32 little msg = concat (map (split32_word little) msg)"

section \<open>Buffering\<close>

record blockhash =
  pending :: "bytes option"
  pendingTotal :: nat
  bh_h :: "jsnum list"

definition new_BlockHash :: "jsnum list \<Rightarrow> blockhash" where
  "new_BlockHash h = \<lparr> pending = None, pendingTotal = 0, bh_h = h \<rparr>"

text \<open>The update of a block reads the words of the message from \<open>start\<close> on.\<close>

type_synonym js_update = "jsnum list \<Rightarrow> nat \<Rightarrow> jsnum list \<Rightarrow> jsnum list"

function update_blocks :: "js_update \<Rightarrow> jsnum list \<Rightarrow> nat \<Rightarrow> jsnum list \<Rightarrow> jsnum list" where
  "update_blocks upd msg i h = (if i < length msg then update_blocks upd msg (i + 16) (upd msg i h) else h)"
  by pat_completeness auto
termination
  by (relation "measure (\<lambda>(upd, msg, i, h). length msg - i)") auto

declare update_blocks.simps [simp del]

definition BlockHash_update :: "js_update \<Rightarrow> bool \<Rightarrow> bytes \<Rightarrow> blockhash \<Rightarrow> exn + blockhash" where
  "BlockHash_update upd little msg s =
    (let p = (case pending s of None \<Rightarrow> msg | Some q \<Rightarrow> q @ msg);
         s = s\<lparr> pending := Some p, pendingTotal := pendingTotal s + length msg \<rparr>
     in if 64 \<le> length p then
          let r = length p mod 64; q = drop (length p - r) p
          in case join32 little (take (length p - r) p) of Inl e \<Rightarrow> Inl e
             | Inr w \<Rightarrow> Inr (s\<lparr> pending := (if q = [] then None else Some q), bh_h := update_blocks upd w 0 (bh_h s) \<rparr>)
        else Inr s)"

definition BlockHash_pad :: "bool \<Rightarrow> blockhash \<Rightarrow> bytes" where
  "BlockHash_pad little s =
    (let len = pendingTotal s; k = 64 - (len + 8) mod 64; l = js_shl (IntN (int len)) 3;
         b = [num_byte (js_and (js_ushr l 24) (IntN 0xff)), num_byte (js_and (js_ushr l 16) (IntN 0xff)), num_byte (js_and (js_ushr l 8) (IntN 0xff)),
              num_byte (js_and l (IntN 0xff))]
     in [0x80] @ replicate (k - 1) 0 @ (if little then rev b @ replicate 4 0 else replicate 4 0 @ b))"

definition BlockHash_digest :: "js_update \<Rightarrow> bool \<Rightarrow> (jsnum list \<Rightarrow> bytes) \<Rightarrow> blockhash \<Rightarrow> exn + bytes" where
  "BlockHash_digest upd little out s = (case BlockHash_update upd little (BlockHash_pad little s) s of Inl e \<Rightarrow> Inl e
     | Inr t \<Rightarrow> if pending t = None then Inr (out (bh_h t)) else Inl (GenericError ''Assertion failed''))"

section \<open>SHA-256 and SHA-224\<close>

definition ch32 :: "jsnum \<Rightarrow> jsnum \<Rightarrow> jsnum \<Rightarrow> jsnum" where
  "ch32 x y z = js_xor (js_and x y) (js_and (js_not x) z)"

definition maj32 :: "jsnum \<Rightarrow> jsnum \<Rightarrow> jsnum \<Rightarrow> jsnum" where
  "maj32 x y z = js_xor (js_xor (js_and x y) (js_and x z)) (js_and y z)"

definition p32 :: "jsnum \<Rightarrow> jsnum \<Rightarrow> jsnum \<Rightarrow> jsnum" where
  "p32 x y z = js_xor (js_xor x y) z"

definition s0_256 :: "jsnum \<Rightarrow> jsnum" where
  "s0_256 x = js_xor (js_xor (rotr32 x 2) (rotr32 x 13)) (rotr32 x 22)"

definition s1_256 :: "jsnum \<Rightarrow> jsnum" where
  "s1_256 x = js_xor (js_xor (rotr32 x 6) (rotr32 x 11)) (rotr32 x 25)"

definition g0_256 :: "jsnum \<Rightarrow> jsnum" where
  "g0_256 x = js_xor (js_xor (rotr32 x 7) (rotr32 x 18)) (js_ushr x 3)"

definition g1_256 :: "jsnum \<Rightarrow> jsnum" where
  "g1_256 x = js_xor (js_xor (rotr32 x 17) (rotr32 x 19)) (js_ushr x 10)"

definition words256 :: "jsnum list \<Rightarrow> nat \<Rightarrow> jsnum list" where
  "words256 msg start = fold (\<lambda>i W. W @ [sum32_4 (g1_256 (W ! (i - 2))) (W ! (i - 7)) (g0_256 (W ! (i - 15))) (W ! (i - 16))]) [16..<64]
     (map (\<lambda>i. msg ! (start + i)) [0..<16])"

definition SHA256_round :: "jsnum list \<Rightarrow> nat \<Rightarrow> jsnum regs \<Rightarrow> jsnum regs" where
  "SHA256_round W i r =
    (let T1 = sum32_5 (r_h r) (s1_256 (r_e r)) (ch32 (r_e r) (r_f r) (r_g r)) (IntN (sha256_K ! i)) (W ! i);
         T2 = sum32 (s0_256 (r_a r)) (maj32 (r_a r) (r_b r) (r_c r))
     in \<lparr> r_a = sum32 T1 T2, r_b = r_a r, r_c = r_b r, r_d = r_c r, r_e = sum32 (r_d r) T1, r_f = r_e r, r_g = r_f r, r_h = r_g r \<rparr>)"

definition SHA256_js_update :: js_update where
  "SHA256_js_update msg start h =
    (let W = words256 msg start;
         q = fold (SHA256_round W) [0..<64] \<lparr> r_a = h ! 0, r_b = h ! 1, r_c = h ! 2, r_d = h ! 3, r_e = h ! 4, r_f = h ! 5, r_g = h ! 6, r_h = h ! 7 \<rparr>
     in [sum32 (h ! 0) (r_a q), sum32 (h ! 1) (r_b q), sum32 (h ! 2) (r_c q), sum32 (h ! 3) (r_d q),
         sum32 (h ! 4) (r_e q), sum32 (h ! 5) (r_f q), sum32 (h ! 6) (r_g q), sum32 (h ! 7) (r_h q)])"

definition SHA256_h :: "jsnum list" where
  "SHA256_h = map IntN [0x6a09e667, 0xbb67ae85, 0x3c6ef372, 0xa54ff53a, 0x510e527f, 0x9b05688c, 0x1f83d9ab, 0x5be0cd19]"

definition SHA256_js_digest :: "jsnum list \<Rightarrow> bytes" where
  "SHA256_js_digest h = split32 False h"

definition SHA224_h :: "jsnum list" where
  "SHA224_h = map IntN [0xc1059ed8, 0x367cd507, 0x3070dd17, 0xf70e5939, 0xffc00b31, 0x68581511, 0x64f98fa7, 0xbefa4fa4]"

definition SHA224_js_digest :: "jsnum list \<Rightarrow> bytes" where
  "SHA224_js_digest h = split32 False (take 7 h)"

section \<open>SHA-1\<close>

definition sha1_K :: "int list" where
  "sha1_K = [0x5A827999, 0x6ED9EBA1, 0x8F1BBCDC, 0xCA62C1D6]"

definition ft_1 :: "nat \<Rightarrow> jsnum \<Rightarrow> jsnum \<Rightarrow> jsnum \<Rightarrow> jsnum" where
  "ft_1 s x y z = (if s = 0 then ch32 x y z else if s = 1 \<or> s = 3 then p32 x y z else if s = 2 then maj32 x y z else NaN)"

definition words_sha1 :: "jsnum list \<Rightarrow> nat \<Rightarrow> jsnum list" where
  "words_sha1 msg start = fold (\<lambda>i W. W @ [rotl32 (js_xor (js_xor (js_xor (W ! (i - 3)) (W ! (i - 8))) (W ! (i - 14))) (W ! (i - 16))) 1]) [16..<80]
     (map (\<lambda>i. msg ! (start + i)) [0..<16])"

definition SHA1_round :: "jsnum list \<Rightarrow> nat \<Rightarrow> jsnum regs5 \<Rightarrow> jsnum regs5" where
  "SHA1_round W i r = (let s = i div 20;
       t = sum32_5 (rotl32 (s_a r) 5) (ft_1 s (s_b r) (s_c r) (s_d r)) (s_e r) (W ! i) (IntN (sha1_K ! s))
     in \<lparr> s_a = t, s_b = s_a r, s_c = rotl32 (s_b r) 30, s_d = s_c r, s_e = s_d r \<rparr>)"

definition SHA1_js_update :: js_update where
  "SHA1_js_update msg start h =
    (let W = words_sha1 msg start;
         q = fold (SHA1_round W) [0..<80] \<lparr> s_a = h ! 0, s_b = h ! 1, s_c = h ! 2, s_d = h ! 3, s_e = h ! 4 \<rparr>
     in [sum32 (h ! 0) (s_a q), sum32 (h ! 1) (s_b q), sum32 (h ! 2) (s_c q), sum32 (h ! 3) (s_d q), sum32 (h ! 4) (s_e q)])"

definition SHA1_h :: "jsnum list" where
  "SHA1_h = map IntN [0x67452301, 0xefcdab89, 0x98badcfe, 0x10325476, 0xc3d2e1f0]"

definition SHA1_js_digest :: "jsnum list \<Rightarrow> bytes" where
  "SHA1_js_digest h = split32 False h"

section \<open>Words and their numbers\<close>

definition num_of :: "32 word \<Rightarrow> jsnum" where
  "num_of w = IntN (uint w)"

lemma reps_num_of: "reps (2 ^ 32) (num_of w) w"
proof -
  have "uint w < 2 ^ 32" using uint_lt2p[of w] by simp
  then show ?thesis unfolding num_of_def by (intro exI[of _ "uint w"] reps_Int[of "uint w" "2 ^ 32", simplified word_of_int_uint]) simp_all
qed

lemma to_word32_num_of [simp]: "to_word32 (num_of w) = w"
  by (rule reps_word[OF reps_num_of])

lemma js_unsign_int32: "js_unsign (int32_of w) = num_of w"
proof -
  obtain n where n: "sint w = n" "- (2 ^ 31) \<le> n" "n < 2 ^ 31" using sint_ge[of w] sint_lt[of w] by simp
  have i: "int32_of w = IntN n" unfolding int32_of_def n(1) ..
  have u: "uint w = n mod 2 ^ 32" using uint_sint[of w] unfolding n(1) take_bit_eq_mod by simp
  show ?thesis
  proof (cases "n < 0")
    case True
    have "n mod 2 ^ 32 = (n + 2 ^ 32) mod 2 ^ 32" by (simp only: mod_add_self2)
    also have "\<dots> = n + 2 ^ 32" by (rule mod_pos_pos_trivial) (use True n(2) in simp_all)
    finally show ?thesis unfolding num_of_def u i js_unsign_def using True Int_plus[of n "0x100000000"] n(2) by (simp add: less_jsnum_def del: of_int_add)
  next
    case False
    have "n mod 2 ^ 32 = n" by (rule mod_pos_pos_trivial) (use False n(3) in simp_all)
    then show ?thesis unfolding num_of_def u i js_unsign_def using False by (simp add: less_jsnum_def)
  qed
qed

lemma unsign_mask: "reps A x w \<Longrightarrow> js_unsign (js_and x (IntN 0xffffffff)) = num_of w"
proof -
  assume "reps A x w"
  have "to_word32 (IntN 0xffffffff) = - 1" using to_word32_Int[of "0xffffffff"] by simp
  then show ?thesis using reps_word[OF \<open>reps A x w\<close>] by (simp add: js_and_def js_unsign_int32)
qed

lemma sum32_rep: "reps A a u \<Longrightarrow> reps B b v \<Longrightarrow> A + B \<le> 2 ^ 53 \<Longrightarrow> sum32 a b = num_of (u + v)"
  unfolding sum32_def by (rule unsign_mask[OF reps_plus])

lemma sum32_3_rep:
  assumes "reps A a u" "reps B b v" "reps C c w" "A + B \<le> 2 ^ 53" "A + B + C \<le> 2 ^ 53"
  shows "sum32_3 a b c = num_of (u + v + w)"
  unfolding sum32_3_def by (rule unsign_mask[OF reps_plus[OF reps_plus]]) (fact assms)+

lemma sum32_4_rep:
  assumes "reps A a u" "reps B b v" "reps C c w" "reps D d x" "A + B \<le> 2 ^ 53" "A + B + C \<le> 2 ^ 53" "A + B + C + D \<le> 2 ^ 53"
  shows "sum32_4 a b c d = num_of (u + v + w + x)"
  unfolding sum32_4_def by (rule unsign_mask[OF reps_plus[OF reps_plus[OF reps_plus]]]) (fact assms)+

lemma sum32_5_rep:
  assumes "reps A a u" "reps B b v" "reps C c w" "reps D d x" "reps E e y"
    "A + B \<le> 2 ^ 53" "A + B + C \<le> 2 ^ 53" "A + B + C + D \<le> 2 ^ 53" "A + B + C + D + E \<le> 2 ^ 53"
  shows "sum32_5 a b c d e = num_of (u + v + w + x + y)"
  unfolding sum32_5_def by (rule unsign_mask[OF reps_plus[OF reps_plus[OF reps_plus[OF reps_plus]]]]) (fact assms)+

lemma rot32: "rotl32 = rol" "rotr32 = sha_S"
  by (simp_all add: fun_eq_iff rotl32_def rol_def rotr32_def sha_S_def)

lemma byte_num_word: "to_word32 (byte_num b) = ucast b"
  unfolding byte_num_def to_word32_Int by (rule ucast_eq[symmetric])

lemma num_byte_mask: "num_byte (js_and x (IntN 0xff)) = ucast (to_word32 x)"
proof -
  have "to_word32 (IntN 0xff) = 0xff" using to_word32_Int[of "0xff"] by simp
  moreover have m: "(0xff :: 32 word) = mask 8" by (simp add: mask_eq_exp_minus_1)
  have "ucast (w AND 0xff) = (ucast w :: byte)" for w :: "32 word"
    unfolding m by (rule bit_word_eqI) (auto simp: bit_simps)
  ultimately show ?thesis unfolding num_byte_def js_and_def by simp
qed

lemma num_byte_ushr: "num_byte (js_ushr x n) = ucast (drop_bit n (to_word32 x))"
  unfolding num_byte_def js_ushr_def to_word32_Int by simp

lemma to_word32_ushr: "to_word32 (js_ushr x n) = drop_bit n (to_word32 x)"
  unfolding js_ushr_def to_word32_Int by simp

lemma split32_word_big: "split32_word False (num_of w) = word_bytes w"
  unfolding split32_word_def num_byte_mask num_byte_ushr to_word32_ushr word_bytes_def to_word32_num_of by (simp add: Let_def)

lemma split32_word_little: "split32_word True (num_of w) = rev (word_bytes w)"
  unfolding split32_word_def num_byte_mask num_byte_ushr to_word32_ushr word_bytes_def to_word32_num_of by (simp add: Let_def)

lemma be_word_bits: "be_word [b0, b1, b2, b3] = ((push_bit 24 (ucast b0) OR push_bit 16 (ucast b1)) OR push_bit 8 (ucast b2)) OR ucast b3"
proof -
  let ?u = "\<lambda>b. ucast b :: 32 word"
  have d: "bit b n \<Longrightarrow> n < 8" for b :: byte and n using bit_imp_le_length[of b n] by simp
  have e1: "push_bit 24 (?u b0) + push_bit 16 (?u b1) = push_bit 24 (?u b0) OR push_bit 16 (?u b1)"
    by (rule disjunctive_add) (auto simp: bit_simps dest: d)
  have e2: "(push_bit 24 (?u b0) OR push_bit 16 (?u b1)) + push_bit 8 (?u b2) = (push_bit 24 (?u b0) OR push_bit 16 (?u b1)) OR push_bit 8 (?u b2)"
    by (rule disjunctive_add) (auto simp: bit_simps dest: d)
  have e3: "((push_bit 24 (?u b0) OR push_bit 16 (?u b1)) OR push_bit 8 (?u b2)) + ?u b3 = ((push_bit 24 (?u b0) OR push_bit 16 (?u b1)) OR push_bit 8 (?u b2)) OR ?u b3"
    by (rule disjunctive_add) (auto simp: bit_simps dest: d)
  have n: "[b0, b1, b2, b3] ! 0 = b0" "[b0, b1, b2, b3] ! 1 = b1" "[b0, b1, b2, b3] ! 2 = b2" "[b0, b1, b2, b3] ! 3 = b3" by simp_all
  have e: "be_word [b0, b1, b2, b3] = push_bit 24 (?u b0) + push_bit 16 (?u b1) + push_bit 8 (?u b2) + ?u b3"
    unfolding be_word_def push_bit_eq_mult ucast_eq of_int_add of_int_mult of_int_power of_int_numeral n by (rule refl)
  show ?thesis unfolding e e1 e2 e3 ..
qed

definition le_word :: "bytes \<Rightarrow> 32 word" where
  "le_word b = be_word (rev b)"

definition word_at :: "bool \<Rightarrow> bytes \<Rightarrow> 32 word" where
  "word_at little b = (if little then le_word b else be_word b)"

lemma to_word32_bits: "to_word32 (js_or x y) = to_word32 x OR to_word32 y" "to_word32 (js_shl x n) = push_bit n (to_word32 x)"
  by (simp_all add: js_or_def js_shl_def)

lemma take4: "k + 4 \<le> length b \<Longrightarrow> take 4 (drop k b) = [b ! k, b ! (k + 1), b ! (k + 2), b ! (k + 3)]"
  by (rule nth_equalityI) (auto simp: numeral_eq_Suc less_Suc_eq)

lemma join32_word_rep:
  assumes "k + 4 \<le> length b" shows "join32_word little b k = num_of (word_at little (take 4 (drop k b)))"
proof -
  have o: "js_or x y = int32_of (to_word32 x OR to_word32 y)" for x y by (simp add: js_or_def)
  show ?thesis unfolding take4[OF assms] join32_word_def o js_unsign_int32 if_distrib[of js_unsign]
    by (simp add: word_at_def le_word_def be_word_bits byte_num_word to_word32_bits)
qed

lemma join32_rep:
  assumes "length b mod 64 = 0"
  shows "\<exists>ws. join32 little b = Inr ws \<and> length ws = length b div 4 \<and> (\<forall>i < length b div 4. ws ! i = num_of (word_at little (take 4 (drop (4 * i) b))))"
proof -
  have "64 dvd length b" using assms by (simp add: dvd_eq_mod_eq_0)
  then have "4 dvd length b" by (rule dvd_trans[rotated]) simp
  then have m: "length b mod 4 = 0" "4 * (length b div 4) = length b" by (simp_all add: dvd_eq_mod_eq_0)
  have "4 * i + 4 \<le> length b" if "i < length b div 4" for i using that m(2) by linarith
  then show ?thesis using m(1) by (simp add: join32_def join32_word_rep)
qed

section \<open>Buffering is splitting into blocks\<close>

text \<open>The padding with the length in little-endian order.\<close>

definition padded_le :: "bytes \<Rightarrow> bytes" where
  "padded_le b = b @ [0x80] @ replicate ((119 - length b mod 64) mod 64) 0 @ rev (word64_bytes (of_nat (8 * length b)))"

definition padded_js :: "bool \<Rightarrow> bytes \<Rightarrow> bytes" where
  "padded_js little b = (if little then padded_le b else padded b)"

definition pend :: "blockhash \<Rightarrow> bytes" where
  "pend s = (case pending s of None \<Rightarrow> [] | Some p \<Rightarrow> p)"

lemma pad_js:
  assumes "length xs < 2 ^ 29" "pendingTotal s = length xs" shows "padded_js little xs = xs @ BlockHash_pad little s"
proof -
  let ?l = "js_shl (IntN (int (length xs))) 3" let ?w = "of_nat (8 * length xs) :: 32 word"
  obtain n where n: "length xs mod 64 = n" "n < 64" by simp
  have "(length xs + 8) mod 64 = (n + 8) mod 64" unfolding n(1)[symmetric] by (simp add: mod_add_left_eq)
  also have "\<dots> = (if 56 \<le> n then n - 56 else n + 8)" using n(2) by (simp add: mod_if)
  finally have k: "64 - (length xs + 8) mod 64 - 1 = (119 - n) mod 64" unfolding pad_zeros[OF n(2)] using n(2) by simp
  have l: "to_word32 ?l = ?w" unfolding to_word32_bits to_word32_Int by (simp add: push_bit_eq_mult)
  have b: "[num_byte (js_and (js_ushr ?l 24) (IntN 0xff)), num_byte (js_and (js_ushr ?l 16) (IntN 0xff)), num_byte (js_and (js_ushr ?l 8) (IntN 0xff)),
      num_byte (js_and ?l (IntN 0xff))] = word_bytes ?w"
    unfolding num_byte_mask to_word32_ushr l word_bytes_def ..
  have "8 * length xs < 2 ^ 32" using assms(1) by simp
  then have "word64_bytes (of_nat (8 * length xs)) = replicate 4 0 @ word_bytes ?w" by (rule word64_small)
  then show ?thesis unfolding padded_js_def padded_le_def padded_def BlockHash_pad_def Let_def assms(2) b n(1) k by simp
qed

lemma tail_drop_mod: "drop (length p - length p mod 64) p = tail p"
  by (simp add: tail_def minus_mod_eq_mult_div)

lemma length_full: "length (take (length p - length p mod 64) p) = 64 * (length p div 64)"
  by (simp only: length_take min_absorb2[OF diff_le_self] minus_mod_eq_mult_div)

lemma absorb_full: "absorb upd (take (length p - length p mod 64) p) r = absorb upd p r"
proof -
  let ?n = "length p - length p mod 64"
  have "length (tail (take ?n p)) = 0" unfolding length_tail length_full by simp
  then have "tail (take ?n p) = []" by (simp only: length_0_conv)
  then have "absorb upd (take ?n p @ tail p) r = absorb upd (tail p) (absorb upd (take ?n p) r)" using absorb_append[of upd "take ?n p" "tail p" r] by simp
  then show ?thesis unfolding tail_drop_mod[symmetric] append_take_drop_id unfolding tail_drop_mod by (simp add: absorb.simps[of upd "tail p"])
qed

lemma length_padded: "length (padded_js little xs) = length xs + (if 56 \<le> length xs mod 64 then 128 - length xs mod 64 else 64 - length xs mod 64)"
proof -
  obtain n where n: "length xs mod 64 = n" "n < 64" by simp
  have "length (word64_bytes v) = 8" for v by (simp add: word64_bytes_def)
  then show ?thesis unfolding padded_js_def padded_le_def padded_def n(1) pad_zeros[OF n(2)] using n(2) by (auto split: if_splits)
qed

lemma length_padded_mod: "length (padded_js little xs) mod 64 = 0"
proof -
  let ?m = "length xs mod 64"
  have "length xs + (64 - ?m) = 64 * (length xs div 64) + 64" using mult_div_mod_eq[of 64 "length xs"] mod_less_divisor[of 64 "length xs"] by linarith
  moreover have "length xs + (128 - ?m) = 64 * (length xs div 64) + 128" using mult_div_mod_eq[of 64 "length xs"] mod_less_divisor[of 64 "length xs"] by linarith
  ultimately show ?thesis unfolding length_padded by (simp only: split: if_split) simp
qed

text \<open>The contract between the buffering and the functions of the package.\<close>

locale js_block_hash =
  fixes upd :: js_update and little :: bool and h0 :: "jsnum list" and cmp :: "bytes \<Rightarrow> 'w \<Rightarrow> 'w" and w0 :: 'w and rep :: "jsnum list \<Rightarrow> 'w \<Rightarrow> bool"
  assumes init: "rep h0 w0"
    and follows: "rep h w \<Longrightarrow> (\<And>i. i < 16 \<Longrightarrow> msg ! (start + i) = num_of (word_at little (take 4 (drop (i * 4) M)))) \<Longrightarrow> rep (upd msg start h) (cmp M w)"
begin

lemma blocks:
  assumes l: "length b = 64 * q" and ws: "length ws = 16 * q" "\<forall>i < 16 * q. ws ! i = num_of (word_at little (take 4 (drop (4 * i) b)))"
  shows "k \<le> q \<Longrightarrow> rep h w \<Longrightarrow> rep (update_blocks upd ws (16 * k) h) (absorb cmp (drop (64 * k) b) w)"
proof (induction "q - k" arbitrary: k h w)
  case 0
  then show ?case using l ws(1) by (simp add: update_blocks.simps absorb.simps)
next
  case (Suc n)
  then have k: "k < q" by simp
  let ?M = "take 64 (drop (64 * k) b)"
  have "rep (upd ws (16 * k) h) (cmp ?M w)"
  proof (rule follows[OF Suc.prems(2)])
    fix i :: nat assume i: "i < 16"
    then have j: "16 * k + i < 16 * q" "4 + i * 4 \<le> 64" using k by linarith+
    have "take 4 (drop (i * 4) ?M) = take 4 (drop (4 * (16 * k + i)) b)" using j(2) by (simp add: drop_take take_take min_def add.commute mult.commute)
    then show "ws ! (16 * k + i) = num_of (word_at little (take 4 (drop (i * 4) ?M)))" using ws(2) j(1) by simp
  qed
  from Suc.hyps(1)[OF _ _ this, of "Suc k"] Suc.hyps(2) k
  have "rep (update_blocks upd ws (16 * k + 16) (upd ws (16 * k) h)) (absorb cmp (drop 64 (drop (64 * k) b)) (cmp ?M w))" by (simp add: add.commute)
  moreover have "\<not> length (drop (64 * k) b) < 64" using k l by simp
  ultimately show ?case using k ws(1) unfolding update_blocks.simps[of upd ws "16 * k"] absorb.simps[of cmp "drop (64 * k) b"] by simp
qed

definition fedjs :: "bytes \<Rightarrow> blockhash \<Rightarrow> bool" where
  "fedjs xs s \<longleftrightarrow> pendingTotal s = length xs \<and> pend s = tail xs \<and> rep (bh_h s) (absorb cmp xs w0)"

lemma fedjs_new: "fedjs [] (new_BlockHash h0)"
  by (simp add: fedjs_def new_BlockHash_def pend_def tail_def absorb.simps init)

lemma fedjs_update:
  assumes f: "fedjs xs s"
  shows "\<exists>s'. BlockHash_update upd little m s = Inr s' \<and> fedjs (xs @ m) s' \<and> (64 \<le> length (pend s @ m) \<and> tail (xs @ m) = [] \<longrightarrow> pending s' = None)"
proof -
  obtain p where p: "pend s @ m = p" by simp
  let ?n = "length p - length p mod 64"
  have c: "(case pending s of None \<Rightarrow> m | Some q \<Rightarrow> q @ m) = p" unfolding p[symmetric] by (simp add: pend_def split: option.split)
  have a: "absorb cmp (xs @ m) w0 = absorb cmp p (absorb cmp xs w0)" and t: "tail (xs @ m) = tail p" and s: "pendingTotal s = length xs" "rep (bh_h s) (absorb cmp xs w0)"
    using f absorb_append[of cmp xs m w0] tail_append[of xs m] by (simp_all add: fedjs_def flip: p)
  show ?thesis
  proof (cases "64 \<le> length p")
    case True
    obtain q where q: "length p div 64 = q" by simp
    have l: "length (take ?n p) = 64 * q" using length_full[of p] unfolding q .
    have "length (take ?n p) mod 64 = 0" "length (take ?n p) div 4 = 16 * q" unfolding l by simp_all
    with join32_rep[of "take ?n p" little] obtain ws where ws: "join32 little (take ?n p) = Inr ws" "length ws = 16 * q"
      "\<forall>i < 16 * q. ws ! i = num_of (word_at little (take 4 (drop (4 * i) (take ?n p))))" by (auto simp only:)
    obtain h where h: "update_blocks upd ws 0 (bh_h s) = h" by simp
    have "rep h (absorb cmp (take ?n p) (absorb cmp xs w0))" using blocks[OF l ws(2,3) _ s(2), of 0] h by simp
    then have "rep h (absorb cmp (xs @ m) w0)" unfolding a absorb_full .
    moreover have "BlockHash_update upd little m s = Inr (s\<lparr> pending := (if tail p = [] then None else Some (tail p)), pendingTotal := length xs + length m, bh_h := h \<rparr>)"
      unfolding BlockHash_update_def c Let_def ws(1) tail_drop_mod using True s(1) h by simp
    ultimately show ?thesis unfolding fedjs_def t p by (simp add: pend_def)
  next
    case False
    then have "absorb cmp p (absorb cmp xs w0) = absorb cmp xs w0" "tail p = p" by (simp_all add: absorb.simps tail_small)
    moreover have "BlockHash_update upd little m s = Inr (s\<lparr> pending := Some p, pendingTotal := length xs + length m \<rparr>)"
      unfolding BlockHash_update_def c Let_def using False s(1) by simp
    ultimately show ?thesis unfolding fedjs_def t p a using s False by (simp add: pend_def)
  qed
qed

lemma digest_js:
  assumes f: "fedjs xs s" and l: "length xs < 2 ^ 29"
  shows "\<exists>h. BlockHash_digest upd little out s = Inr (out h) \<and> rep h (absorb cmp (padded_js little xs) w0)"
proof -
  let ?b = "BlockHash_pad little s"
  have s: "pendingTotal s = length xs" "pend s = tail xs" using f by (simp_all add: fedjs_def)
  have p: "padded_js little xs = xs @ ?b" by (rule pad_js[OF l s(1)])
  have "length (tail (xs @ ?b)) = 0" unfolding length_tail p[symmetric] by (rule length_padded_mod)
  then have t: "tail (xs @ ?b) = []" by (simp only: length_0_conv)
  from fedjs_update[OF f, of ?b] obtain s' where s': "BlockHash_update upd little ?b s = Inr s'" "fedjs (xs @ ?b) s'" "pending s' = None"
    using length_padded[of little xs] length_tail[of xs] s t by (auto simp: p split: if_splits)
  then show ?thesis unfolding BlockHash_digest_def p by (auto simp: fedjs_def)
qed

end

section \<open>SHA-256 and SHA-224\<close>

definition num_regs :: "32 word regs \<Rightarrow> jsnum regs" where
  "num_regs r = \<lparr> r_a = num_of (r_a r), r_b = num_of (r_b r), r_c = num_of (r_c r), r_d = num_of (r_d r),
     r_e = num_of (r_e r), r_f = num_of (r_f r), r_g = num_of (r_g r), r_h = num_of (r_h r) \<rparr>"

definition list_regs :: "'a regs \<Rightarrow> 'a list" where
  "list_regs r = [r_a r, r_b r, r_c r, r_d r, r_e r, r_f r, r_g r, r_h r]"

definition rep_js :: "jsnum list \<Rightarrow> 32 word regs \<Rightarrow> bool" where
  "rep_js h w \<longleftrightarrow> h = map num_of (list_regs w)"

lemma sha256_functions: "s0_256 = Sigma0256" "s1_256 = Sigma1256" "g0_256 = Gamma0256" "g1_256 = Gamma1256" "ch32 = sha_Ch" "maj32 = sha_Maj"
  by (simp_all add: fun_eq_iff s0_256_def s1_256_def g0_256_def g1_256_def ch32_def maj32_def rot32
      Sigma0256_def Sigma1256_def Gamma0256_def Gamma1256_def sha_Ch_def sha_Maj_def sha_R_def)

lemma words256_rep:
  assumes "\<And>i. i < 16 \<Longrightarrow> msg ! (start + i) = num_of (be_word (take 4 (drop (i * 4) M)))"
  shows "words256 msg start = map (\<lambda>i. num_of (schedule256 M i)) [0..<64]"
proof -
  let ?f = "\<lambda>i W. W @ [sum32_4 (g1_256 (W ! (i - 2))) (W ! (i - 7)) (g0_256 (W ! (i - 15))) (W ! (i - 16))]"
  let ?W = "\<lambda>n. map (\<lambda>i. num_of (schedule256 M i)) [0..<n]"
  have s: "?f n (?W n) = ?W (Suc n)" if "16 \<le> n" for n
  proof -
    have W: "?W n ! (n - k) = num_of (schedule256 M (n - k))" if "0 < k" for k using that \<open>16 \<le> n\<close> by simp
    have "sum32_4 (g1_256 (?W n ! (n - 2))) (?W n ! (n - 7)) (g0_256 (?W n ! (n - 15))) (?W n ! (n - 16)) = num_of (schedule256 M n)"
      unfolding W[OF zero_less_numeral] schedule256.simps[of M n] sha256_functions using that
      by (simp, intro sum32_4_rep[OF reps_rot2_shr(2)[OF reps_num_of] reps_num_of reps_rot2_shr(1)[OF reps_num_of] reps_num_of]) simp_all
    then show ?thesis by simp
  qed
  have m: "map (\<lambda>i. msg ! (start + i)) [0..<16] = ?W 16" by (rule map_cong[OF refl]) (simp add: assms schedule256.simps)
  show ?thesis unfolding words256_def m 
  proof (rule fold_inv[where P = "\<lambda>n W. W = ?W n"])
    fix k y assume "16 \<le> k" "y = ?W k"
    then show "?f k y = ?W (Suc k)" using s[of k] by (simp only:)
  qed simp_all
qed

lemma SHA256_round_rep:
  assumes W: "W ! i = num_of (schedule256 M i)" and i: "i < 64" shows "SHA256_round W i (num_regs r) = num_regs (round256 M i r)"
proof -
  note n = reps_num_of
  let ?T1 = "r_h r + rot3 6 11 25 (r_e r) + ch (r_e r) (r_f r) (r_g r) + word_of_int (sha256_K ! i) + schedule256 M i"
  let ?T2 = "rot3 2 13 22 (r_a r) + maj (r_a r) (r_b r) (r_c r)"
  have T1: "sum32_5 (num_of (r_h r)) (s1_256 (num_of (r_e r))) (ch32 (num_of (r_e r)) (num_of (r_f r)) (num_of (r_g r))) (IntN (sha256_K ! i)) (W ! i) = num_of ?T1"
    unfolding sha256_functions W by (rule sum32_5_rep[OF n reps_rot3(2)[OF n] reps_Ch[OF n n n] reps_K[OF i] n]) simp_all
  have T2: "sum32 (s0_256 (num_of (r_a r))) (maj32 (num_of (r_a r)) (num_of (r_b r)) (num_of (r_c r))) = num_of ?T2"
    unfolding sha256_functions by (rule sum32_rep[OF reps_rot3(1)[OF n] reps_Maj[OF n n n]]) simp
  have "sum32 (num_of u) (num_of v) = num_of (u + v)" for u v by (rule sum32_rep[OF n n]) simp
  then show ?thesis unfolding SHA256_round_def num_regs_def round256_def regs.simps T1 T2 Let_def by simp
qed

lemma SHA256_update_rep:
  assumes r: "rep_js h w" and m: "\<And>i. i < 16 \<Longrightarrow> msg ! (start + i) = num_of (word_at False (take 4 (drop (i * 4) M)))"
  shows "rep_js (SHA256_js_update msg start h) (compress256 M w)"
proof -
  let ?W = "words256 msg start"
  have W: "?W = map (\<lambda>i. num_of (schedule256 M i)) [0..<64]" by (rule words256_rep) (simp add: m word_at_def)
  have f: "fold (SHA256_round ?W) [0..<64] (num_regs w) = num_regs (fold (round256 M) [0..<64] w)"
    by (rule fold_sim[where P = "\<lambda>_ x y. x = num_regs y"]) (simp_all add: SHA256_round_rep W)
  have h: "\<lparr> r_a = h ! 0, r_b = h ! 1, r_c = h ! 2, r_d = h ! 3, r_e = h ! 4, r_f = h ! 5, r_g = h ! 6, r_h = h ! 7 \<rparr> = num_regs w"
    using r by (simp add: rep_js_def list_regs_def num_regs_def)
  obtain q where q: "fold (round256 M) [0..<64] w = q" by simp
  have "sum32 (num_of u) (num_of v) = num_of (v + u)" for u v using sum32_rep[OF reps_num_of[of u] reps_num_of[of v]] by (simp add: add.commute)
  then show ?thesis using r unfolding SHA256_js_update_def Let_def h f compress256_def q by (simp add: rep_js_def list_regs_def num_regs_def)
qed

definition init224 :: "32 word regs" where
  "init224 = \<lparr> r_a = 0xc1059ed8, r_b = 0x367cd507, r_c = 0x3070dd17, r_d = 0xf70e5939,
     r_e = 0xffc00b31, r_f = 0x68581511, r_g = 0x64f98fa7, r_h = 0xbefa4fa4 \<rparr>"

interpretation js256: js_block_hash SHA256_js_update False SHA256_h compress256 init256 rep_js
proof
  show "rep_js SHA256_h init256" by (simp add: rep_js_def list_regs_def SHA256_h_def init256_def num_of_def)
qed (rule SHA256_update_rep)

interpretation js224: js_block_hash SHA256_js_update False SHA224_h compress256 init224 rep_js
proof
  show "rep_js SHA224_h init224" by (simp add: rep_js_def list_regs_def SHA224_h_def init224_def num_of_def)
qed (rule SHA256_update_rep)

lemma split32_words: "split32 False (map num_of ws) = concat (map word_bytes ws)" "split32 True (map num_of ws) = concat (map (\<lambda>w. rev (word_bytes w)) ws)"
  by (simp_all add: split32_def o_def split32_word_big split32_word_little)

section \<open>SHA-1\<close>

definition list_regs5 :: "'a regs5 \<Rightarrow> 'a list" where
  "list_regs5 r = [s_a r, s_b r, s_c r, s_d r, s_e r]"

definition rep5_js :: "jsnum list \<Rightarrow> 32 word regs5 \<Rightarrow> bool" where
  "rep5_js h w \<longleftrightarrow> h = map num_of (list_regs5 w)"

lemma rep5_regs: "rep5_js h w \<Longrightarrow> rep_sha1 \<lparr> s_a = h ! 0, s_b = h ! 1, s_c = h ! 2, s_d = h ! 3, s_e = h ! 4 \<rparr> w"
  unfolding rep_sha1_def using reps_num_of by (simp add: rep5_js_def list_regs5_def)

lemma ch_maj_or: "(x AND y) XOR (NOT x AND z) = (x AND y) OR (NOT x AND z)" "((x AND y) XOR (x AND z)) XOR (y AND z) = ((x AND y) OR (x AND z)) OR (y AND z)"
  for x y z :: "32 word"
  by (rule bit_word_eqI; auto simp: bit_simps)+

lemma phase_cases:
  fixes i :: nat
  assumes "i < 80"
  obtains "i < 20" "i div 20 = 0" | "\<not> i < 20" "i < 40" "i div 20 = 1" | "\<not> i < 40" "i < 60" "i div 20 = 2" | "\<not> i < 60" "i div 20 = 3"
proof -
  have "i div 20 = 0 \<or> i div 20 = 1 \<or> i div 20 = 2 \<or> i div 20 = 3" using div_less_iff_less_mult[of 20 i 4] assms by linarith
  moreover have "20 * (i div 20) \<le> i" "i < 20 * (i div 20) + 20" using mult_div_mod_eq[of 20 i] mod_less_divisor[of 20 i] by linarith+
  ultimately show thesis by (elim disjE) (rule that; simp)+
qed

lemma ft_1_rep:
  assumes "reps A x u" "reps B y v" "reps C z w" "i < 80"
  shows "reps int32_max (ft_1 (i div 20) x y z) (f_sha1 i u v w)"
proof -
  have f: "reps int32_max (ch32 x y z) ((u AND v) OR (NOT u AND w))" "reps int32_max (maj32 x y z) (((u AND v) OR (u AND w)) OR (v AND w))"
    using reps_Ch[OF assms(1-3)] reps_Maj[OF assms(1-3)] unfolding sha256_functions ch_def maj_def ch_maj_or .
  have p: "reps int32_max (p32 x y z) ((u XOR v) XOR w)" unfolding p32_def by (rule reps_xor[OF reps_xor[OF assms(1,2)] assms(3)])
  from assms(4) show ?thesis by (cases rule: phase_cases) (use f p in \<open>simp_all add: ft_1_def f_sha1_def\<close>)
qed

lemma k1_rep: "i < 80 \<Longrightarrow> reps (2 ^ 32) (IntN (sha1_K ! (i div 20))) (k_sha1 i)"
proof -
  assume "i < 80"
  then have k: "word_of_int (sha1_K ! (i div 20)) = k_sha1 i \<and> 0 \<le> sha1_K ! (i div 20) \<and> sha1_K ! (i div 20) \<le> 2 ^ 32"
    by (cases rule: phase_cases) (simp_all add: k_sha1_def sha1_K_def)
  then show ?thesis using reps_Int[of "sha1_K ! (i div 20)" "2 ^ 32"] by simp
qed

lemma words_sha1_rep:
  assumes "\<And>i. i < 16 \<Longrightarrow> msg ! (start + i) = num_of (be_word (take 4 (drop (i * 4) M)))" and i: "i < 80"
  shows "reps (2 ^ 32) (words_sha1 msg start ! i) (schedule_sha1 M i)"
proof -
  let ?f = "\<lambda>i W. W @ [rotl32 (js_xor (js_xor (js_xor (W ! (i - 3)) (W ! (i - 8))) (W ! (i - 14))) (W ! (i - 16))) 1]"
  let ?P = "\<lambda>n W. length W = n \<and> (\<forall>i<n. reps (2 ^ 32) (W ! i) (schedule_sha1 M i))"
  let ?W = "map (\<lambda>i. msg ! (start + i)) [0..<16]"
  have s: "?P (Suc n) (?f n W)" if "16 \<le> n" "?P n W" for n W
  proof -
    have W: "reps (2 ^ 32) (W ! (n - k)) (schedule_sha1 M (n - k))" if "0 < k" for k using that \<open>16 \<le> n\<close> \<open>?P n W\<close> by simp
    have "reps (2 ^ 32) (rotl32 (js_xor (js_xor (js_xor (W ! (n - 3)) (W ! (n - 8))) (W ! (n - 14))) (W ! (n - 16))) 1) (schedule_sha1 M n)"
      unfolding rot32 schedule_sha1.simps[of M n] using \<open>16 \<le> n\<close>
      by (simp only: not_less[symmetric] if_False) (rule reps_mono[OF reps_rol[OF reps_xor[OF reps_xor[OF reps_xor[OF W W] W] W]]]; simp)
    then show ?thesis using that by (auto simp: nth_append less_Suc_eq)
  qed
  have "?P 16 ?W"
  proof (intro conjI allI impI)
    fix i :: nat assume "i < 16"
    then show "reps (2 ^ 32) (?W ! i) (schedule_sha1 M i)" using assms(1)[of i] reps_num_of by (simp add: schedule_sha1.simps del: upt_rec_numeral)
  qed simp
  then have "?P 80 (words_sha1 msg start)" unfolding words_sha1_def by (intro fold_inv[where P = ?P, OF _ _ s]) (assumption | simp)+
  then show ?thesis using i by blast
qed

lemma SHA1_round_rep:
  assumes W: "reps (2 ^ 32) (W ! i) (schedule_sha1 M i)" and i: "i < 80" and r: "rep_sha1 r w" shows "rep_sha1 (SHA1_round W i r) (round_sha1 M i w)"
proof -
  have g: "reps (2 ^ 32) (s_a r) (s_a w)" "reps (2 ^ 32) (s_b r) (s_b w)" "reps (2 ^ 32) (s_c r) (s_c w)" "reps (2 ^ 32) (s_d r) (s_d w)" "reps (2 ^ 32) (s_e r) (s_e w)"
    using r unfolding rep_sha1_def by blast+
  have t: "sum32_5 (rotl32 (s_a r) 5) (ft_1 (i div 20) (s_b r) (s_c r) (s_d r)) (s_e r) (W ! i) (IntN (sha1_K ! (i div 20)))
      = num_of (word_rotl 5 (s_a w) + f_sha1 i (s_b w) (s_c w) (s_d w) + s_e w + schedule_sha1 M i + k_sha1 i)"
    unfolding rot32 by (rule sum32_5_rep[OF reps_rol[OF g(1)] ft_1_rep[OF g(2-4) i] g(5) W k1_rep[OF i]]) simp_all
  have c: "reps (2 ^ 32) (rotl32 (s_b r) 30) (word_rotl 30 (s_b w))" unfolding rot32 by (rule reps_mono[OF reps_rol[OF g(2)]]) simp_all
  show ?thesis unfolding SHA1_round_def Let_def t round_sha1_def rep_sha1_def regs5.simps using g c reps_num_of by blast
qed

lemma sum32_final: "reps (2 ^ 32) x u \<Longrightarrow> sum32 (num_of v) x = num_of (u + v)"
  using sum32_rep[OF reps_num_of[of v], of "2 ^ 32" x u] by (simp add: add.commute)

lemma SHA1_update_rep:
  assumes r: "rep5_js h w" and m: "\<And>i. i < 16 \<Longrightarrow> msg ! (start + i) = num_of (word_at False (take 4 (drop (i * 4) M)))"
  shows "rep5_js (SHA1_js_update msg start h) (compress_sha1 M w)"
proof -
  let ?W = "words_sha1 msg start" let ?h = "\<lparr> s_a = h ! 0, s_b = h ! 1, s_c = h ! 2, s_d = h ! 3, s_e = h ! 4 \<rparr>"
  have W: "reps (2 ^ 32) (?W ! i) (schedule_sha1 M i)" if "i < 80" for i by (rule words_sha1_rep) (simp_all add: m word_at_def that)
  have "rep_sha1 (fold (SHA1_round ?W) [0..<80] ?h) (fold (round_sha1 M) [0..<80] w)"
    by (rule fold_sim[where P = "\<lambda>_. rep_sha1"]) (simp_all only: SHA1_round_rep W rep5_regs[OF r])
  then obtain q Q where q: "fold (SHA1_round ?W) [0..<80] ?h = q" "fold (round_sha1 M) [0..<80] w = Q" "rep_sha1 q Q" by (rule that[OF refl refl])
  show ?thesis using r q(3) unfolding SHA1_js_update_def Let_def q(1) compress_sha1_def q(2) by (simp add: rep5_js_def rep_sha1_def list_regs5_def sum32_final)
qed

interpretation js1: js_block_hash SHA1_js_update False SHA1_h compress_sha1 init_sha1 rep5_js
proof
  show "rep5_js SHA1_h init_sha1" by (simp add: rep5_js_def list_regs5_def SHA1_h_def init_sha1_def num_of_def)
qed (rule SHA1_update_rep)

end
