(* ===== verification/Ripemd.thy ===== *)
theory Ripemd
  imports HashJS
begin

unbundle bit_operations_syntax

text \<open>
  RIPEMD-160 of the package \<^verbatim>\<open>hash.js\<close>, over its buffering with little-endian words: the two lines of rounds with the language's numbers,
  and that they compute the rounds on 32-bit words.
\<close>

section \<open>The rounds of the code\<close>

definition rmd_f :: "nat \<Rightarrow> jsnum \<Rightarrow> jsnum \<Rightarrow> jsnum \<Rightarrow> jsnum" where
  "rmd_f j x y z =
    (if j \<le> 15 then js_xor (js_xor x y) z
     else if j \<le> 31 then js_or (js_and x y) (js_and (js_not x) z)
     else if j \<le> 47 then js_xor (js_or x (js_not y)) z
     else if j \<le> 63 then js_or (js_and x z) (js_and y (js_not z))
     else js_xor x (js_or y (js_not z)))"

definition rmd_K :: "nat \<Rightarrow> int" where
  "rmd_K j = (if j \<le> 15 then 0x00000000 else if j \<le> 31 then 0x5a827999 else if j \<le> 47 then 0x6ed9eba1 else if j \<le> 63 then 0x8f1bbcdc else 0xa953fd4e)"

definition rmd_Kh :: "nat \<Rightarrow> int" where
  "rmd_Kh j = (if j \<le> 15 then 0x50a28be6 else if j \<le> 31 then 0x5c4dd124 else if j \<le> 47 then 0x6d703ef3 else if j \<le> 63 then 0x7a6d76e9 else 0x00000000)"

text \<open>The tables have entries below 16; a row of 16 entries is a number with the entries as its hexadecimal digits.\<close>

definition table :: "int list \<Rightarrow> nat \<Rightarrow> nat" where
  "table t j = nat (t ! (j div 16) div 16 ^ (15 - j mod 16) mod 16)"

definition rmd_r :: "nat \<Rightarrow> nat" where
  "rmd_r = table [0x0123456789abcdef, 0x74d1a6f3c0952eb8, 0x3ae49f812706db5c, 0x19ba08c4d37fe562, 0x40597c2ae138b6fd]"

definition rmd_rh :: "nat \<Rightarrow> nat" where
  "rmd_rh = table [0x5e7092b4d6f81a3c, 0x6b370d5aef8c4912, 0xf5137e69b8c2a04d, 0x86413bf05c2d97ae, 0xcfa4158762de039b]"

definition rmd_s :: "nat \<Rightarrow> nat" where
  "rmd_s = table [0xbefc5879bdef6798, 0x768db97f7cf9b7dc, 0xbd67e9dfe8d65c75, 0xbcefef989e56865c, 0x9f5b68dc5cdeb856]"

definition rmd_sh :: "nat \<Rightarrow> nat" where
  "rmd_sh = table [0x899bdff5778beec6, 0x9df7c89b77c76fdb, 0x97fb866ecd5edd75, 0xf58bee6e69c9c5f8, 0x85c9c5e68d65fdbb]"

text \<open>One turn of the loop, on the registers \<^verbatim>\<open>A\<close> to \<^verbatim>\<open>E\<close> and \<^verbatim>\<open>Ah\<close> to \<^verbatim>\<open>Eh\<close>.\<close>

definition rmd_turn :: "jsnum list \<Rightarrow> nat \<Rightarrow> nat \<Rightarrow> jsnum regs5 \<times> jsnum regs5 \<Rightarrow> jsnum regs5 \<times> jsnum regs5" where
  "rmd_turn msg start j p = (case p of (l, h) \<Rightarrow>
     let T = sum32 (rotl32 (sum32_4 (s_a l) (rmd_f j (s_b l) (s_c l) (s_d l)) (msg ! (rmd_r j + start)) (IntN (rmd_K j))) (rmd_s j)) (s_e l);
         Th = sum32 (rotl32 (sum32_4 (s_a h) (rmd_f (79 - j) (s_b h) (s_c h) (s_d h)) (msg ! (rmd_rh j + start)) (IntN (rmd_Kh j))) (rmd_sh j)) (s_e h)
     in (\<lparr> s_a = s_e l, s_b = T, s_c = s_b l, s_d = rotl32 (s_c l) 10, s_e = s_d l \<rparr>,
         \<lparr> s_a = s_e h, s_b = Th, s_c = s_b h, s_d = rotl32 (s_c h) 10, s_e = s_d h \<rparr>))"

definition RIPEMD160_update :: js_update where
  "RIPEMD160_update msg start h =
    (let r = \<lparr> s_a = h ! 0, s_b = h ! 1, s_c = h ! 2, s_d = h ! 3, s_e = h ! 4 \<rparr>;
         (p, q) = fold (rmd_turn msg start) [0..<80] (r, r)
     in [sum32_3 (h ! 1) (s_c p) (s_d q), sum32_3 (h ! 2) (s_d p) (s_e q), sum32_3 (h ! 3) (s_e p) (s_a q),
         sum32_3 (h ! 4) (s_a p) (s_b q), sum32_3 (h ! 0) (s_b p) (s_c q)])"

definition RIPEMD160_h :: "jsnum list" where
  "RIPEMD160_h = map IntN [0x67452301, 0xefcdab89, 0x98badcfe, 0x10325476, 0xc3d2e1f0]"

definition RIPEMD160_digest :: "jsnum list \<Rightarrow> bytes" where
  "RIPEMD160_digest h = split32 True h"

section \<open>RIPEMD-160 on words\<close>

definition f_rmd :: "nat \<Rightarrow> 32 word \<Rightarrow> 32 word \<Rightarrow> 32 word \<Rightarrow> 32 word" where
  "f_rmd j x y z = (if j < 16 then (x XOR y) XOR z else if j < 32 then (x AND y) OR (NOT x AND z) else if j < 48 then (x OR NOT y) XOR z
     else if j < 64 then (x AND z) OR (y AND NOT z) else x XOR (y OR NOT z))"

definition line_rmd :: "(nat \<Rightarrow> nat) \<Rightarrow> (nat \<Rightarrow> nat) \<Rightarrow> (nat \<Rightarrow> int) \<Rightarrow> bytes \<Rightarrow> nat \<Rightarrow> nat \<Rightarrow> 32 word regs5 \<Rightarrow> 32 word regs5" where
  "line_rmd r s k M i j w = \<lparr> s_a = s_e w,
     s_b = word_rotl (s j) (s_a w + f_rmd i (s_b w) (s_c w) (s_d w) + le_word (take 4 (drop (r j * 4) M)) + word_of_int (k j)) + s_e w,
     s_c = s_b w, s_d = word_rotl 10 (s_c w), s_e = s_d w \<rparr>"

definition round_rmd :: "bytes \<Rightarrow> nat \<Rightarrow> 32 word regs5 \<times> 32 word regs5 \<Rightarrow> 32 word regs5 \<times> 32 word regs5" where
  "round_rmd M j p = (case p of (l, h) \<Rightarrow> (line_rmd rmd_r rmd_s rmd_K M j j l, line_rmd rmd_rh rmd_sh rmd_Kh M (79 - j) j h))"

definition compress_rmd :: "bytes \<Rightarrow> 32 word regs5 \<Rightarrow> 32 word regs5" where
  "compress_rmd M w = (case fold (round_rmd M) [0..<80] (w, w) of (p, q) \<Rightarrow>
     \<lparr> s_a = s_b w + s_c p + s_d q, s_b = s_c w + s_d p + s_e q, s_c = s_d w + s_e p + s_a q, s_d = s_e w + s_a p + s_b q, s_e = s_a w + s_b p + s_c q \<rparr>)"

definition serial_rmd :: "32 word regs5 \<Rightarrow> bytes" where
  "serial_rmd w = concat (map (\<lambda>x. rev (word_bytes x)) (list_regs5 w))"

definition RIPEMD160 :: "bytes \<Rightarrow> bytes" where
  "RIPEMD160 b = serial_rmd (absorb compress_rmd (padded_le b) init_sha1)"

section \<open>The rounds on numbers are the rounds on words\<close>

lemma rmd_f_rep:
  assumes "reps A x u" "reps B y v" "reps C z w"
  shows "reps int32_max (rmd_f j x y z) (f_rmd j u v w)"
proof -
  note n = reps_not[OF assms(1)] reps_not[OF assms(2)] reps_not[OF assms(3)]
  note f = reps_xor[OF reps_xor[OF assms(1,2)] assms(3)] reps_or[OF reps_and[OF assms(1,2)] reps_and[OF n(1) assms(3)]]
    reps_xor[OF reps_or[OF assms(1) n(2)] assms(3)] reps_or[OF reps_and[OF assms(1,3)] reps_and[OF assms(2) n(3)]]
    reps_xor[OF assms(1) reps_or[OF assms(2) n(3)]]
  show ?thesis using f unfolding rmd_f_def f_rmd_def by (simp add: less_eq_Suc_le)
qed

lemma rmd_K_rep: "reps (2 ^ 32) (IntN (rmd_K j)) (word_of_int (rmd_K j))" "reps (2 ^ 32) (IntN (rmd_Kh j)) (word_of_int (rmd_Kh j))"
  by (rule reps_Int; simp add: rmd_K_def rmd_Kh_def)+

lemma rmd_tables: "list_all (\<lambda>j. rmd_r j < 16 \<and> rmd_rh j < 16 \<and> 0 < rmd_s j \<and> rmd_s j < 32 \<and> 0 < rmd_sh j \<and> rmd_sh j < 32) [0..<80]"
  by code_simp

lemma line_rep:
  assumes r: "rep_sha1 l w" and m: "x = num_of (le_word (take 4 (drop (r j * 4) M)))" and k: "reps (2 ^ 32) (IntN (k j)) (word_of_int (k j))" and s: "0 < s j" "s j < 32"
  shows "rep_sha1 \<lparr> s_a = s_e l, s_b = sum32 (rotl32 (sum32_4 (s_a l) (rmd_f i (s_b l) (s_c l) (s_d l)) x (IntN (k j))) (s j)) (s_e l),
      s_c = s_b l, s_d = rotl32 (s_c l) 10, s_e = s_d l \<rparr> (line_rmd r s k M i j w)"
proof -
  have g: "reps (2 ^ 32) (s_a l) (s_a w)" "reps (2 ^ 32) (s_b l) (s_b w)" "reps (2 ^ 32) (s_c l) (s_c w)" "reps (2 ^ 32) (s_d l) (s_d w)" "reps (2 ^ 32) (s_e l) (s_e w)"
    using r unfolding rep_sha1_def by blast+
  have t: "sum32_4 (s_a l) (rmd_f i (s_b l) (s_c l) (s_d l)) x (IntN (k j))
      = num_of (s_a w + f_rmd i (s_b w) (s_c w) (s_d w) + le_word (take 4 (drop (r j * 4) M)) + word_of_int (k j))"
    unfolding m by (rule sum32_4_rep[OF g(1) rmd_f_rep[OF g(2-4)] reps_num_of k]) simp_all
  have b: "sum32 (rotl32 (num_of y) (s j)) (s_e l) = num_of (word_rotl (s j) y + s_e w)" for y
    unfolding rot32 by (rule sum32_rep[OF reps_rol[OF reps_num_of s] g(5)]) simp
  have c: "reps (2 ^ 32) (rotl32 (s_c l) 10) (word_rotl 10 (s_c w))" unfolding rot32 by (rule reps_mono[OF reps_rol[OF g(3)]]) simp_all
  show ?thesis unfolding t b line_rmd_def rep_sha1_def regs5.simps using g c reps_num_of by blast
qed

definition rep_pair :: "jsnum regs5 \<times> jsnum regs5 \<Rightarrow> 32 word regs5 \<times> 32 word regs5 \<Rightarrow> bool" where
  "rep_pair p q \<longleftrightarrow> rep_sha1 (fst p) (fst q) \<and> rep_sha1 (snd p) (snd q)"

lemma rmd_turn_rep:
  assumes p: "rep_pair p w" and j: "j < 80" and m: "\<And>i. i < 16 \<Longrightarrow> msg ! (start + i) = num_of (word_at True (take 4 (drop (i * 4) M)))"
  shows "rep_pair (rmd_turn msg start j p) (round_rmd M j w)"
proof -
  have t: "rmd_r j < 16" "rmd_rh j < 16" "0 < rmd_s j" "rmd_s j < 32" "0 < rmd_sh j" "rmd_sh j < 32"
    using rmd_tables j unfolding list_all_iff set_upt by auto
  have x: "msg ! (i + start) = num_of (le_word (take 4 (drop (i * 4) M)))" if "i < 16" for i using m[OF that] by (simp add: word_at_def add.commute)
  obtain l h wl wh where s: "p = (l, h)" "w = (wl, wh)" "rep_sha1 l wl" "rep_sha1 h wh" using p by (cases p, cases w) (simp add: rep_pair_def)
  show ?thesis unfolding rep_pair_def rmd_turn_def round_rmd_def Let_def s(1,2) prod.case fst_conv snd_conv
    using line_rep[where r = rmd_r and s = rmd_s and k = rmd_K and j = j, OF s(3) x[OF t(1)] rmd_K_rep(1) t(3,4)]
      line_rep[where r = rmd_rh and s = rmd_sh and k = rmd_Kh and j = j, OF s(4) x[OF t(2)] rmd_K_rep(2) t(5,6)] by blast
qed

lemma RIPEMD160_update_rep:
  assumes r: "rep5_js h w" and m: "\<And>i. i < 16 \<Longrightarrow> msg ! (start + i) = num_of (word_at True (take 4 (drop (i * 4) M)))"
  shows "rep5_js (RIPEMD160_update msg start h) (compress_rmd M w)"
proof -
  let ?h = "\<lparr> s_a = h ! 0, s_b = h ! 1, s_c = h ! 2, s_d = h ! 3, s_e = h ! 4 \<rparr>"
  have "rep_pair (fold (rmd_turn msg start) [0..<80] (?h, ?h)) (fold (round_rmd M) [0..<80] (w, w))"
    by (rule fold_sim[where P = "\<lambda>_. rep_pair"]) (erule (1) rmd_turn_rep[OF _ _ m], assumption, simp only: rep_pair_def fst_conv snd_conv rep5_regs[OF r] simp_thms)
  moreover obtain p q where p: "fold (rmd_turn msg start) [0..<80] (?h, ?h) = (p, q)" by (rule prod.exhaust)
  moreover obtain P Q where P: "fold (round_rmd M) [0..<80] (w, w) = (P, Q)" by (rule prod.exhaust)
  ultimately have pq: "rep_sha1 p P" "rep_sha1 q Q" by (simp_all only: rep_pair_def fst_conv snd_conv)
  have s: "sum32_3 (num_of u) x y = num_of (u + v + z)" if "reps (2 ^ 32) x v" "reps (2 ^ 32) y z" for u v x y z
    by (rule sum32_3_rep[OF reps_num_of that]) simp_all
  show ?thesis using r pq unfolding RIPEMD160_update_def Let_def p compress_rmd_def P
    by (simp add: rep5_js_def rep_sha1_def list_regs5_def s)
qed

interpretation rmd: js_block_hash RIPEMD160_update True RIPEMD160_h compress_rmd init_sha1 rep5_js
proof
  show "rep5_js RIPEMD160_h init_sha1" by (simp add: rep5_js_def list_regs5_def RIPEMD160_h_def init_sha1_def num_of_def)
qed (rule RIPEMD160_update_rep)
end
