(* ===== verification/Hashes.thy ===== *)
theory Hashes
  imports Ripemd
begin

unbundle bit_operations_syntax

text \<open>
  The module \<^verbatim>\<open>Hash\<close> of \<^verbatim>\<open>bitcore.js\<close> over the two packages of hash functions, and message authentication codes in the two ways
  the program computes them.
\<close>

section \<open>The hash functions of bitcore\<close>

text \<open>\<^verbatim>\<open>createHash(alg).update(buf).digest()\<close> runs the functions of \<^verbatim>\<open>sha.js\<close>.\<close>

definition Hash_sha1 :: "bytes \<Rightarrow> exn + bytes" where
  "Hash_sha1 buf = hash_digest sha1_update sha1_hash (hash_update sha1_update buf (new_Hash sha1_init))"

definition Hash_sha256 :: "bytes \<Rightarrow> exn + bytes" where
  "Hash_sha256 buf = hash_digest sha256_update sha256_hash (hash_update sha256_update buf (new_Hash sha256_init))"

definition Hash_sha256sha256 :: "bytes \<Rightarrow> exn + bytes" where
  "Hash_sha256sha256 buf = (case Hash_sha256 buf of Inl e \<Rightarrow> Inl e | Inr h \<Rightarrow> Hash_sha256 h)"

text \<open>A class of \<^verbatim>\<open>hash.js\<close>: the update of a block, the byte order, the state of a new object and the output.\<close>

record js_hash =
  jh_update :: js_update
  jh_little :: bool
  jh_init :: "jsnum list"
  jh_digest :: "jsnum list \<Rightarrow> bytes"

definition js_SHA256 :: js_hash where
  "js_SHA256 = \<lparr> jh_update = SHA256_js_update, jh_little = False, jh_init = SHA256_h, jh_digest = SHA256_js_digest \<rparr>"

definition js_SHA224 :: js_hash where
  "js_SHA224 = \<lparr> jh_update = SHA256_js_update, jh_little = False, jh_init = SHA224_h, jh_digest = SHA224_js_digest \<rparr>"

definition js_SHA1 :: js_hash where
  "js_SHA1 = \<lparr> jh_update = SHA1_js_update, jh_little = False, jh_init = SHA1_h, jh_digest = SHA1_js_digest \<rparr>"

definition js_RIPEMD160 :: js_hash where
  "js_RIPEMD160 = \<lparr> jh_update = RIPEMD160_update, jh_little = True, jh_init = RIPEMD160_h, jh_digest = RIPEMD160_digest \<rparr>"

definition js_feed :: "js_hash \<Rightarrow> bytes \<Rightarrow> blockhash \<Rightarrow> exn + blockhash" where
  "js_feed H = BlockHash_update (jh_update H) (jh_little H)"

definition js_digest :: "js_hash \<Rightarrow> blockhash \<Rightarrow> exn + bytes" where
  "js_digest H = BlockHash_digest (jh_update H) (jh_little H) (jh_digest H)"

text \<open>\<^verbatim>\<open>new H().update(msg).digest()\<close>.\<close>

definition js_hash_of :: "js_hash \<Rightarrow> bytes \<Rightarrow> exn + bytes" where
  "js_hash_of H msg = (case js_feed H msg (new_BlockHash (jh_init H)) of Inl e \<Rightarrow> Inl e | Inr s \<Rightarrow> js_digest H s)"

definition Hash_ripemd160 :: "bytes \<Rightarrow> exn + bytes" where
  "Hash_ripemd160 buf = js_hash_of js_RIPEMD160 buf"

definition Hash_sha256ripemd160 :: "bytes \<Rightarrow> exn + bytes" where
  "Hash_sha256ripemd160 buf = (case Hash_sha256 buf of Inl e \<Rightarrow> Inl e | Inr h \<Rightarrow> Hash_ripemd160 h)"

section \<open>Message authentication\<close>

text \<open>
  \<^verbatim>\<open>Hash.hmac\<close>. The code compares the key itself with the block size where it means the length of the key; the language then compares
  the number that the text of the key spells, which is the parameter \<open>key_lt\<close>. A byte of the key beyond its end is \<^verbatim>\<open>undefined\<close> and
  counts as 0 for \<^verbatim>\<open>^\<close>.
\<close>

definition key_byte :: "bytes \<Rightarrow> nat \<Rightarrow> byte" where
  "key_byte b i = (if i < length b then b ! i else 0)"

definition Hash_hmac :: "(bytes \<Rightarrow> nat \<Rightarrow> bool) \<Rightarrow> (bytes \<Rightarrow> exn + bytes) \<Rightarrow> nat \<Rightarrow> bytes \<Rightarrow> bytes \<Rightarrow> exn + bytes" where
  "Hash_hmac key_lt hashf bits data key =
    (let blocksize = bits div 8 in
     case (if length key > blocksize then hashf key
           else Inr (if key_lt key blocksize then map (key_byte key) [0..<blocksize] else key)) of Inl e \<Rightarrow> Inl e
     | Inr k \<Rightarrow>
         let o_key_pad = map (\<lambda>i. 0x5c XOR key_byte k i) [0..<blocksize];
             i_key_pad = map (\<lambda>i. 0x36 XOR key_byte k i) [0..<blocksize]
         in case hashf (i_key_pad @ data) of Inl e \<Rightarrow> Inl e | Inr h \<Rightarrow> hashf (o_key_pad @ h))"

definition Hash_sha256hmac :: "(bytes \<Rightarrow> nat \<Rightarrow> bool) \<Rightarrow> bytes \<Rightarrow> bytes \<Rightarrow> exn + bytes" where
  "Hash_sha256hmac key_lt data key = Hash_hmac key_lt Hash_sha256 512 data key"

text \<open>The class \<^verbatim>\<open>Hmac\<close> of \<^verbatim>\<open>hash.js\<close>; the key is changed in place from the inner to the outer pad.\<close>

record hmac =
  inner :: blockhash
  outer :: blockhash

definition Hmac_init :: "js_hash \<Rightarrow> bytes \<Rightarrow> exn + hmac" where
  "Hmac_init H key =
    (case (if length key > 64 then js_hash_of H key else Inr key) of Inl e \<Rightarrow> Inl e
     | Inr k \<Rightarrow>
         if length k \<le> 64 then
           let k0 = k @ replicate (64 - length k) 0; k1 = map ((XOR) 0x36) k0; k2 = map ((XOR) 0x6a) k1
           in case js_feed H k1 (new_BlockHash (jh_init H)) of Inl e \<Rightarrow> Inl e
              | Inr s1 \<Rightarrow> case js_feed H k2 (new_BlockHash (jh_init H)) of Inl e \<Rightarrow> Inl e
                | Inr s2 \<Rightarrow> Inr \<lparr> inner = s1, outer = s2 \<rparr>
         else Inl (GenericError ''Assertion failed''))"

definition Hmac_update :: "js_hash \<Rightarrow> bytes \<Rightarrow> hmac \<Rightarrow> exn + hmac" where
  "Hmac_update H msg m = (case js_feed H msg (inner m) of Inl e \<Rightarrow> Inl e | Inr s \<Rightarrow> Inr (m\<lparr> inner := s \<rparr>))"

definition Hmac_digest :: "js_hash \<Rightarrow> hmac \<Rightarrow> exn + bytes" where
  "Hmac_digest H m = (case js_digest H (inner m) of Inl e \<Rightarrow> Inl e
     | Inr h \<Rightarrow> case js_feed H h (outer m) of Inl e \<Rightarrow> Inl e | Inr s \<Rightarrow> js_digest H s)"

section \<open>The code computes the hash functions\<close>

lemma length_word_bytes_concat: "length (concat (map word_bytes ws)) = 4 * length ws" "length (concat (map (\<lambda>w. rev (word_bytes w)) ws)) = 4 * length ws"
  by (induction ws) simp_all

lemma hash_lengths [simp]: "length (SHA256 b) = 32" "length (SHA1 b) = 20" "length (RIPEMD160 b) = 20"
  unfolding SHA256_def serial256_def SHA1_def serial_sha1_def RIPEMD160_def serial_rmd_def list_regs5_def
  by (simp_all only: length_word_bytes_concat list.size) simp_all

text \<open>SHA-224 cuts the output of the SHA-256 rounds from its own start.\<close>

definition serial224 :: "32 word regs \<Rightarrow> bytes" where
  "serial224 w = concat (map word_bytes (take 7 (list_regs w)))"

definition SHA224 :: "bytes \<Rightarrow> bytes" where
  "SHA224 b = serial224 (absorb compress256 (padded b) init224)"

section \<open>The classes of hash.js\<close>

text \<open>The code of a standard: keys are cut to a block by the hash function or filled with zeros.\<close>

definition hmac_key :: "(bytes \<Rightarrow> bytes) \<Rightarrow> bytes \<Rightarrow> bytes" where
  "hmac_key f key = (let k = (if 64 < length key then f key else key) in k @ replicate (64 - length k) 0)"

definition HMAC :: "(bytes \<Rightarrow> bytes) \<Rightarrow> bytes \<Rightarrow> bytes \<Rightarrow> bytes" where
  "HMAC f key data = f (map ((XOR) 0x5c) (hmac_key f key) @ f (map ((XOR) 0x36) (hmac_key f key) @ data))"

fun Hmac_updates :: "js_hash \<Rightarrow> bytes list \<Rightarrow> hmac \<Rightarrow> exn + hmac" where
  "Hmac_updates H [] m = Inr m"
| "Hmac_updates H (d # ds) m = (case Hmac_update H d m of Inl e \<Rightarrow> Inl e | Inr m' \<Rightarrow> Hmac_updates H ds m')"

definition Hmac_of :: "js_hash \<Rightarrow> bytes \<Rightarrow> bytes list \<Rightarrow> exn + bytes" where
  "Hmac_of H key ds = (case Hmac_init H key of Inl e \<Rightarrow> Inl e
     | Inr m \<Rightarrow> case Hmac_updates H ds m of Inl e \<Rightarrow> Inl e | Inr m' \<Rightarrow> Hmac_digest H m')"

text \<open>What a class promises: its digest is a function \<open>f\<close> of all that was fed to the object.\<close>

locale js_class =
  fixes H :: js_hash and f :: "bytes \<Rightarrow> bytes" and I :: "bytes \<Rightarrow> blockhash \<Rightarrow> bool"
  assumes new: "I [] (new_BlockHash (jh_init H))"
    and feed: "I xs s \<Longrightarrow> \<exists>s'. js_feed H m s = Inr s' \<and> I (xs @ m) s'"
    and finish: "I xs s \<Longrightarrow> length xs < 2 ^ 29 \<Longrightarrow> js_digest H s = Inr (f xs)"
    and size: "length (f xs) \<le> 64"
begin

lemma hash_of: "length msg < 2 ^ 29 \<Longrightarrow> js_hash_of H msg = Inr (f msg)"
  using feed[OF new, of msg] finish unfolding js_hash_of_def by (auto split: sum.splits)

lemma size_key: "length (hmac_key f key) = 64"
  using size[of key] by (auto simp: hmac_key_def Let_def)

lemma hmac_start:
  assumes "length key < 2 ^ 29"
  shows "\<exists>m. Hmac_init H key = Inr m \<and> I (map ((XOR) 0x36) (hmac_key f key)) (inner m) \<and> I (map ((XOR) 0x5c) (hmac_key f key)) (outer m)"
proof -
  let ?k = "if 64 < length key then f key else key"
  have k: "(if length key > 64 then js_hash_of H key else Inr key) = Inr ?k" using hash_of[OF assms] by simp
  have l: "length ?k \<le> 64" using size by simp
  have x: "map ((XOR) 0x6a) (map ((XOR) 0x36) b) = map ((XOR) 0x5c) b" for b :: bytes
    by (simp flip: xor.assoc)
  obtain s1 where s1: "js_feed H (map ((XOR) 0x36) (hmac_key f key)) (new_BlockHash (jh_init H)) = Inr s1" "I (map ((XOR) 0x36) (hmac_key f key)) s1"
    using feed[OF new] by fastforce
  obtain s2 where s2: "js_feed H (map ((XOR) 0x5c) (hmac_key f key)) (new_BlockHash (jh_init H)) = Inr s2" "I (map ((XOR) 0x5c) (hmac_key f key)) s2"
    using feed[OF new] by fastforce
  have e: "?k @ replicate (64 - length ?k) 0 = hmac_key f key" by (simp add: hmac_key_def Let_def)
  show ?thesis unfolding Hmac_init_def k sum.case Let_def e x using l s1 s2 by simp
qed

lemma hmac_feed: "I xs (inner m) \<Longrightarrow> I ys (outer m) \<Longrightarrow> \<exists>m'. Hmac_updates H ds m = Inr m' \<and> I (xs @ concat ds) (inner m') \<and> I ys (outer m')"
proof (induction ds arbitrary: xs m)
  case (Cons d ds)
  obtain s where s: "js_feed H d (inner m) = Inr s" "I (xs @ d) s" using feed[OF Cons.prems(1)] by blast
  with Cons.IH[of "xs @ d" "m\<lparr> inner := s \<rparr>"] Cons.prems(2) show ?case by (simp add: Hmac_update_def)
qed simp

lemma hmac:
  assumes "length key < 2 ^ 29" "length (concat ds) + 64 < 2 ^ 29"
  shows "Hmac_of H key ds = Inr (HMAC f key (concat ds))"
proof -
  let ?i = "map ((XOR) 0x36) (hmac_key f key)" let ?o = "map ((XOR) 0x5c) (hmac_key f key)"
  obtain m where m: "Hmac_init H key = Inr m" "I ?i (inner m)" "I ?o (outer m)" using hmac_start[OF assms(1)] by blast
  obtain m' where m': "Hmac_updates H ds m = Inr m'" "I (?i @ concat ds) (inner m')" "I ?o (outer m')" using hmac_feed[OF m(2,3)] by blast
  have d: "js_digest H (inner m') = Inr (f (?i @ concat ds))" using finish[OF m'(2)] assms(2) by (simp add: size_key)
  obtain s where s: "js_feed H (f (?i @ concat ds)) (outer m') = Inr s" "I (?o @ f (?i @ concat ds)) s" using feed[OF m'(3)] by blast
  have "length (?o @ f (?i @ concat ds)) < 2 ^ 29" using size[of "?i @ concat ds"] by (simp add: size_key)
  from finish[OF s(2) this] show ?thesis using m(1) m'(1) d s(1) by (simp add: Hmac_of_def Hmac_digest_def HMAC_def)
qed

end

text \<open>A compression function with its output gives a class.\<close>

locale js_digest_hash = js_block_hash upd little h0 cmp w0 rep
  for upd :: js_update and little :: bool and h0 :: "jsnum list" and cmp :: "bytes \<Rightarrow> 'w \<Rightarrow> 'w" and w0 :: 'w and rep :: "jsnum list \<Rightarrow> 'w \<Rightarrow> bool" +
  fixes out :: "jsnum list \<Rightarrow> bytes" and ser :: "'w \<Rightarrow> bytes"
  assumes writes: "rep h w \<Longrightarrow> out h = ser w" and small: "length (ser w) \<le> 64"

sublocale js_digest_hash \<subseteq> js_class "\<lparr> jh_update = upd, jh_little = little, jh_init = h0, jh_digest = out \<rparr>" "\<lambda>xs. ser (absorb cmp (padded_js little xs) w0)" fedjs
proof
  fix xs s m
  show "fedjs [] (new_BlockHash (jh_init \<lparr> jh_update = upd, jh_little = little, jh_init = h0, jh_digest = out \<rparr>))" using fedjs_new by simp
  assume i: "fedjs xs s"
  show "\<exists>s'. js_feed \<lparr> jh_update = upd, jh_little = little, jh_init = h0, jh_digest = out \<rparr> m s = Inr s' \<and> fedjs (xs @ m) s'"
    using fedjs_update[OF i, of m] by (auto simp: js_feed_def)
  assume "length xs < 2 ^ 29"
  from digest_js[OF i this, of out] show "js_digest \<lparr> jh_update = upd, jh_little = little, jh_init = h0, jh_digest = out \<rparr> s = Inr (ser (absorb cmp (padded_js little xs) w0))"
    by (auto simp: js_digest_def writes)
qed (rule small)

lemma split32_rep: "rep_js h w \<Longrightarrow> split32 False h = serial256 w" "rep5_js g v \<Longrightarrow> split32 False g = serial_sha1 v" "rep5_js g v \<Longrightarrow> split32 True g = serial_rmd v"
  unfolding rep_js_def rep5_js_def by (simp_all only: split32_words serial256_def serial_sha1_def serial_rmd_def list_regs_def list_regs5_def)

lemma split224_rep: "rep_js h w \<Longrightarrow> SHA224_js_digest h = serial224 w"
  unfolding rep_js_def SHA224_js_digest_def serial224_def by (simp only: take_map split32_words)

lemma serial_sizes: "length (serial256 w) = 32" "length (serial224 w) \<le> 64" "length (serial_sha1 v) = 20" "length (serial_rmd v) = 20"
  unfolding serial256_def serial224_def serial_sha1_def serial_rmd_def list_regs5_def list_regs_def by (simp_all only: length_word_bytes_concat list.size length_take) simp_all

interpretation d256: js_digest_hash SHA256_js_update False SHA256_h compress256 init256 rep_js SHA256_js_digest serial256
  by unfold_locales (simp_all add: SHA256_js_digest_def split32_rep serial_sizes)

interpretation d224: js_digest_hash SHA256_js_update False SHA224_h compress256 init224 rep_js SHA224_js_digest serial224
  by unfold_locales (simp_all add: split224_rep serial_sizes)

interpretation d1: js_digest_hash SHA1_js_update False SHA1_h compress_sha1 init_sha1 rep5_js SHA1_js_digest serial_sha1
  by unfold_locales (simp_all add: SHA1_js_digest_def split32_rep serial_sizes)

interpretation d160: js_digest_hash RIPEMD160_update True RIPEMD160_h compress_rmd init_sha1 rep5_js RIPEMD160_digest serial_rmd
  by unfold_locales (simp_all add: RIPEMD160_digest_def split32_rep serial_sizes)

lemmas class_hash [simp] = d256.hash_of[folded js_SHA256_def, unfolded padded_js_def if_False, folded SHA256_def]
  d1.hash_of[folded js_SHA1_def, unfolded padded_js_def if_False, folded SHA1_def]
  d224.hash_of[folded js_SHA224_def, unfolded padded_js_def if_False, folded SHA224_def]
  d160.hash_of[folded js_RIPEMD160_def, unfolded padded_js_def if_True, folded RIPEMD160_def]

section \<open>The functions of bitcore\<close>

lemma Hash_sha256_value: "length b < 2 ^ 28 \<Longrightarrow> Hash_sha256 b = Inr (SHA256 b)"
  using s256.digest_pieces[of "[b]"] by (simp add: Hash_sha256_def SHA256_def)

lemma Hash_sha1_value: "length b < 2 ^ 28 \<Longrightarrow> Hash_sha1 b = Inr (SHA1 b)"
  using s1.digest_pieces[of "[b]"] by (simp add: Hash_sha1_def SHA1_def)

lemma Hash_ripemd160_value: "length b < 2 ^ 29 \<Longrightarrow> Hash_ripemd160 b = Inr (RIPEMD160 b)"
  by (simp add: Hash_ripemd160_def)

lemma Hash_double_value: "length b < 2 ^ 28 \<Longrightarrow> Hash_sha256sha256 b = Inr (SHA256 (SHA256 b))" "length b < 2 ^ 28 \<Longrightarrow> Hash_sha256ripemd160 b = Inr (RIPEMD160 (SHA256 b))"
  by (simp_all add: Hash_sha256sha256_def Hash_sha256ripemd160_def Hash_sha256_value Hash_ripemd160_value)

lemma key_byte_map: "length k \<le> n \<Longrightarrow> map (\<lambda>i. g (key_byte k i)) [0..<n] = map g (k @ replicate (n - length k) 0)"
  by (rule nth_equalityI) (auto simp: key_byte_def nth_append)

lemma key_byte_fill: "length k \<le> n \<Longrightarrow> key_byte (map (key_byte k) [0..<n]) = key_byte k"
  by (auto simp: key_byte_def fun_eq_iff)

text \<open>Whatever the comparison with the key answers, the code computes the code of the standard.\<close>

lemma Hash_hmac_value:
  assumes "length key < 2 ^ 28" "length data + 64 < 2 ^ 28" "\<And>b. length b < 2 ^ 28 \<Longrightarrow> hashf b = Inr (f b)" "\<And>b. length (f b) \<le> 64"
  shows "Hash_hmac key_lt hashf 512 data key = Inr (HMAC f key data)"
proof -
  let ?k = "if 64 < length key then f key else key"
  have l: "length ?k \<le> 64" using assms(4) by simp
  have k: "\<exists>k. (if length key > 64 then hashf key else Inr (if key_lt key 64 then map (key_byte key) [0..<64] else key)) = Inr k \<and> key_byte k = key_byte ?k"
    using assms(1) assms(3)[of key] by (auto simp: key_byte_fill simp del: upt_rec_numeral)
  then obtain k where k: "(if length key > 64 then hashf key else Inr (if key_lt key 64 then map (key_byte key) [0..<64] else key)) = Inr k" "key_byte k = key_byte ?k" by blast
  have p: "map (\<lambda>i. c XOR key_byte k i) [0..<64] = map ((XOR) c) (hmac_key f key)" for c
    unfolding k(2) hmac_key_def Let_def by (rule key_byte_map[OF l])
  have "length (hmac_key f key) = 64" using l by (simp add: hmac_key_def Let_def)
  moreover have d: "512 div 8 = (64 :: nat)" by simp
  ultimately show ?thesis unfolding Hash_hmac_def Let_def HMAC_def d k(1) sum.case p using assms(2) assms(4)[of "map ((XOR) 0x36) (hmac_key f key) @ data"]
    by (simp add: assms(3))
qed

section \<open>Properties\<close>

text \<open>
  C18. The two implementations of SHA-256 in the program compute the hash function of the standard: \<^verbatim>\<open>sha.js\<close>, which adds
  Numbers without reducing them until the end of a block, whatever the pieces in which the data arrives, and \<^verbatim>\<open>hash.js\<close>, which reduces every
  sum. No sum of \<^verbatim>\<open>sha.js\<close> leaves the range in which Numbers are exact.
\<close>

theorem sha256_agree:
  assumes "length (concat ds) < 2 ^ 28"
  shows "hash_digest sha256_update sha256_hash (fold (hash_update sha256_update) ds (new_Hash sha256_init)) = Inr (SHA256 (concat ds))
    \<and> js_hash_of js_SHA256 (concat ds) = Inr (SHA256 (concat ds))"
  using s256.digest_pieces[of ds] assms by (simp_all add: SHA256_def[symmetric])

theorem sha256_agree_witness:
  "hash_digest sha256_update sha256_hash (fold (hash_update sha256_update) [[0x61], [0x62, 0x63]] (new_Hash sha256_init)) = Inr (SHA256 [0x61, 0x62, 0x63])
   \<and> js_hash_of js_SHA256 [0x61, 0x62, 0x63] = Inr (SHA256 [0x61, 0x62, 0x63])"
  using sha256_agree[of "[[0x61], [0x62, 0x63]]"] by simp

text \<open>
  C19. The hash of public keys and scripts, \<^verbatim>\<open>Hash.sha256ripemd160\<close>, is RIPEMD-160 of SHA-256 and has 20 bytes; the double SHA-256 that names
  transactions has 32. From \<open>2 ^ 28\<close> bytes on, hashing throws instead.
\<close>

theorem key_hash:
  "Hash_sha256ripemd160 b = (if length b < 2 ^ 28 then Inr (RIPEMD160 (SHA256 b)) else Inl (TypeError ''value is out of bounds''))
   \<and> Hash_sha256sha256 b = (if length b < 2 ^ 28 then Inr (SHA256 (SHA256 b)) else Inl (TypeError ''value is out of bounds''))
   \<and> length (RIPEMD160 (SHA256 b)) = 20 \<and> length (SHA256 (SHA256 b)) = 32"
  using Hash_double_value[of b] s256.digest_long[of "[b]"] by (auto simp: Hash_sha256ripemd160_def Hash_sha256sha256_def Hash_sha256_def)

text \<open>
  C20. \<^verbatim>\<open>Hash.sha256hmac\<close> computes the code of the standard, although it compares the key and not its length with the block size, and so does
  the class \<^verbatim>\<open>Hmac\<close> of \<^verbatim>\<open>hash.js\<close> with the message in any pieces.
\<close>

theorem hmac_agree:
  assumes "length key < 2 ^ 28" "length (concat ds) + 64 < 2 ^ 28"
  shows "Hash_sha256hmac key_lt (concat ds) key = Inr (HMAC SHA256 key (concat ds)) \<and> Hmac_of js_SHA256 key ds = Inr (HMAC SHA256 key (concat ds))"
proof
  show "Hash_sha256hmac key_lt (concat ds) key = Inr (HMAC SHA256 key (concat ds))"
    unfolding Hash_sha256hmac_def by (rule Hash_hmac_value[OF assms]) (simp_all add: Hash_sha256_value)
  have "(\<lambda>xs. serial256 (absorb compress256 (padded_js False xs) init256)) = SHA256" by (simp add: fun_eq_iff SHA256_def padded_js_def)
  then show "Hmac_of js_SHA256 key ds = Inr (HMAC SHA256 key (concat ds))"
    using d256.hmac[of key ds] assms by (simp add: js_SHA256_def)
qed

theorem hmac_agree_witness:
  "Hash_sha256hmac (\<lambda>k n. False) [1, 2, 3] [7] = Inr (HMAC SHA256 [7] [1, 2, 3]) \<and> Hmac_of js_SHA256 [7] [[1], [2, 3]] = Inr (HMAC SHA256 [7] [1, 2, 3])"
  using hmac_agree[of "[7]" "[[1], [2, 3]]" "\<lambda>k n. False"] by simp

end
