(* ===== verification/BigNum.thy ===== *)
theory BigNum
  imports Buffers
begin

unbundle bit_operations_syntax

text \<open>
  The big-number package \<^verbatim>\<open>bn.js\<close> inside \<^verbatim>\<open>bitcore.js\<close>: numbers as a sign and a list of 26-bit words, least significant word first,
  with comparison, addition, subtraction and small operands. A number stands for an integer; the operations compute the integer operations.
  The array \<^verbatim>\<open>words\<close> may be longer than the field \<^verbatim>\<open>length\<close> of the code; the model keeps the words below \<^verbatim>\<open>length\<close>, since the
  others are not read. Words and carries are integral Numbers far below \<open>2 ^ 53\<close>, for which sums and products are exact.
\<close>

section \<open>Numbers\<close>

record bn =
  bn_sign :: bool
  bn_words :: "int list"

text \<open>\<^verbatim>\<open>x & 0x3ffffff\<close>.\<close>

definition and26 :: "int \<Rightarrow> int" where
  "and26 x = int32 x AND 0x3ffffff"

text \<open>\<^verbatim>\<open>new BN(number)\<close> for a Number; the division of the code by a power of two is exact, and \<^verbatim>\<open>&\<close> truncates.\<close>

definition BN_number :: "int \<Rightarrow> bn" where
  "BN_number n = (let m = \<bar>n\<bar> in
     \<lparr> bn_sign = n < 0, bn_words = (if m < 0x4000000 then [and26 m] else [and26 m, and26 (m div 0x4000000)]) \<rparr>)"

definition normSign :: "bn \<Rightarrow> bn" where
  "normSign x = (if bn_words x = [0] then x\<lparr> bn_sign := False \<rparr> else x)"

function strip_words :: "int list \<Rightarrow> int list" where
  "strip_words ws = (if 1 < length ws \<and> last ws = 0 then strip_words (butlast ws) else ws)"
  by pat_completeness auto
termination
  by (relation "measure length") auto

declare strip_words.simps [simp del]

definition strip :: "bn \<Rightarrow> bn" where
  "strip x = normSign (x\<lparr> bn_words := strip_words (bn_words x) \<rparr>)"

section \<open>Comparison\<close>

fun ucmp_down :: "int list \<Rightarrow> int list \<Rightarrow> int" where
  "ucmp_down (a # as) (b # bs) = (if a = b then ucmp_down as bs else if a < b then - 1 else if a > b then 1 else 0)"
| "ucmp_down _ _ = 0"

definition ucmp :: "bn \<Rightarrow> bn \<Rightarrow> int" where
  "ucmp x y = (if length (bn_words x) > length (bn_words y) then 1 else if length (bn_words x) < length (bn_words y) then - 1
     else ucmp_down (rev (bn_words x)) (rev (bn_words y)))"

definition cmp :: "bn \<Rightarrow> bn \<Rightarrow> int" where
  "cmp x y = (if bn_sign x \<and> \<not> bn_sign y then - 1 else if \<not> bn_sign x \<and> bn_sign y then 1
     else if bn_sign x then - ucmp x y else ucmp x y)"

definition cmpn :: "bn \<Rightarrow> int \<Rightarrow> int" where
  "cmpn x num = (let s = num < 0; num = \<bar>num\<bar> in
     if bn_sign x \<and> \<not> s then - 1 else if \<not> bn_sign x \<and> s then 1
     else let num = and26 num; x = strip x; w = bn_words x ! 0;
              res = (if length (bn_words x) > 1 then 1 else if w = num then 0 else if w < num then - 1 else 1)
          in if bn_sign x then - res else res)"

definition bn_isEven :: "bn \<Rightarrow> bool" where
  "bn_isEven x \<longleftrightarrow> bn_words x ! 0 AND 1 = 0"

definition bn_isOdd :: "bn \<Rightarrow> bool" where
  "bn_isOdd x \<longleftrightarrow> bn_words x ! 0 AND 1 = 1"

definition andln :: "bn \<Rightarrow> int \<Rightarrow> int" where
  "andln x num = int32 (bn_words x ! 0) AND int32 num"

section \<open>Addition and subtraction\<close>

definition bn_neg :: "bn \<Rightarrow> bn" where
  "bn_neg x = (if cmpn x 0 = 0 then x else x\<lparr> bn_sign := \<not> bn_sign x \<rparr>)"

definition iabs :: "bn \<Rightarrow> bn" where
  "iabs x = x\<lparr> bn_sign := False \<rparr>"

text \<open>The second loop of \<^verbatim>\<open>iadd\<close>, with the words after the place where the carry ends.\<close>

fun carry_words :: "int \<Rightarrow> int list \<Rightarrow> int list" where
  "carry_words c [] = (if c \<noteq> 0 then [c] else [])"
| "carry_words c (a # as) = (if c \<noteq> 0 then and26 (a + c) # carry_words (ushr (a + c) 26) as else a # as)"

fun add_words :: "int \<Rightarrow> int list \<Rightarrow> int list \<Rightarrow> int list" where
  "add_words c (a # as) (b # bs) = and26 (a + b + c) # add_words (ushr (a + b + c) 26) as bs"
| "add_words c as [] = carry_words c as"
| "add_words c [] bs = carry_words c []"

text \<open>The addition of \<^verbatim>\<open>iadd\<close> for equal signs: the words of the longer number first.\<close>

definition uadd :: "bn \<Rightarrow> bn \<Rightarrow> bn" where
  "uadd x y = (if length (bn_words x) > length (bn_words y) then x\<lparr> bn_words := add_words 0 (bn_words x) (bn_words y) \<rparr>
     else x\<lparr> bn_words := add_words 0 (bn_words y) (bn_words x) \<rparr>)"

definition borrow :: "int \<Rightarrow> int \<times> int" where
  "borrow r = (if r < 0 then (r + 0x4000000, 1) else (r, 0))"

fun borrow_words :: "int \<Rightarrow> int list \<Rightarrow> int list" where
  "borrow_words c [] = []"
| "borrow_words c (a # as) = (if c \<noteq> 0 then case borrow (a - c) of (r, c') \<Rightarrow> r # borrow_words c' as else a # as)"

fun sub_words :: "int \<Rightarrow> int list \<Rightarrow> int list \<Rightarrow> int list" where
  "sub_words c (a # as) (b # bs) = (case borrow (a - b - c) of (r, c') \<Rightarrow> r # sub_words c' as bs)"
| "sub_words c as [] = borrow_words c as"
| "sub_words c [] bs = []"

text \<open>The subtraction of \<^verbatim>\<open>isub\<close> for positive numbers.\<close>

definition usub :: "bn \<Rightarrow> bn \<Rightarrow> bn" where
  "usub x y = (let c = cmp x y in
     if c = 0 then \<lparr> bn_sign = False, bn_words = [0] \<rparr>
     else if c > 0 then strip (x\<lparr> bn_words := sub_words 0 (bn_words x) (bn_words y) \<rparr>)
     else strip (x\<lparr> bn_words := sub_words 0 (bn_words y) (bn_words x), bn_sign := True \<rparr>))"

text \<open>\<^verbatim>\<open>iadd\<close> and \<^verbatim>\<open>isub\<close> call each other for the other combinations of signs, with the signs removed.\<close>

definition iadd :: "bn \<Rightarrow> bn \<Rightarrow> bn" where
  "iadd x y =
    (if bn_sign x \<and> \<not> bn_sign y then let r = usub (x\<lparr> bn_sign := False \<rparr>) y in normSign (r\<lparr> bn_sign := \<not> bn_sign r \<rparr>)
     else if \<not> bn_sign x \<and> bn_sign y then normSign (usub x (y\<lparr> bn_sign := False \<rparr>))
     else uadd x y)"

definition isub :: "bn \<Rightarrow> bn \<Rightarrow> bn" where
  "isub x y =
    (if bn_sign y then normSign (iadd x (y\<lparr> bn_sign := False \<rparr>))
     else if bn_sign x then normSign ((iadd (x\<lparr> bn_sign := False \<rparr>) y)\<lparr> bn_sign := True \<rparr>)
     else usub x y)"

definition bn_sub :: "bn \<Rightarrow> bn \<Rightarrow> bn" where
  "bn_sub x y = isub x y"

definition bn_add :: "bn \<Rightarrow> bn \<Rightarrow> bn" where
  "bn_add x y =
    (if bn_sign y \<and> \<not> bn_sign x then bn_sub x (y\<lparr> bn_sign := False \<rparr>)
     else if \<not> bn_sign y \<and> bn_sign x then bn_sub y (x\<lparr> bn_sign := False \<rparr>)
     else if length (bn_words x) > length (bn_words y) then iadd x y else iadd y x)"

section \<open>Small operands\<close>

text \<open>The carry loop of \<^verbatim>\<open>iaddn\<close>: a word that reached \<open>2 ^ 26\<close> gives 1 to the next.\<close>

fun carryn :: "int list \<Rightarrow> int list" where
  "carryn [] = []"
| "carryn [w] = (if w \<ge> 0x4000000 then [w - 0x4000000, 1] else [w])"
| "carryn (w # v # ws) = (if w \<ge> 0x4000000 then (w - 0x4000000) # carryn ((v + 1) # ws) else w # v # ws)"

text \<open>The loop of \<^verbatim>\<open>isubn\<close>; at the last word the borrow goes to a place beyond \<^verbatim>\<open>length\<close> and is lost.\<close>

fun borrown :: "int list \<Rightarrow> int list" where
  "borrown [] = []"
| "borrown [w] = (if w < 0 then [w + 0x4000000] else [w])"
| "borrown (w # v # ws) = (if w < 0 then (w + 0x4000000) # borrown ((v - 1) # ws) else w # v # ws)"

definition uaddn :: "bn \<Rightarrow> int \<Rightarrow> bn" where
  "uaddn x num = x\<lparr> bn_words := carryn ((bn_words x ! 0 + num) # tl (bn_words x)) \<rparr>"

definition usubn :: "bn \<Rightarrow> int \<Rightarrow> bn" where
  "usubn x num = strip (x\<lparr> bn_words := borrown ((bn_words x ! 0 - num) # tl (bn_words x)) \<rparr>)"

text \<open>\<^verbatim>\<open>iaddn\<close> and \<^verbatim>\<open>isubn\<close> for \<open>num \<ge> 0\<close>; a negative operand calls the other with its absolute value.\<close>

definition iaddn_pos :: "bn \<Rightarrow> int \<Rightarrow> bn" where
  "iaddn_pos x num =
    (if bn_sign x then
       if length (bn_words x) = 1 \<and> bn_words x ! 0 < num then \<lparr> bn_sign = False, bn_words = [num - bn_words x ! 0] \<rparr>
       else (usubn (x\<lparr> bn_sign := False \<rparr>) num)\<lparr> bn_sign := True \<rparr>
     else uaddn x num)"

definition isubn_pos :: "bn \<Rightarrow> int \<Rightarrow> bn" where
  "isubn_pos x num = (if bn_sign x then (uaddn (x\<lparr> bn_sign := False \<rparr>) num)\<lparr> bn_sign := True \<rparr> else usubn x num)"

definition iaddn :: "bn \<Rightarrow> int \<Rightarrow> bn" where
  "iaddn x num = (if num < 0 then isubn_pos x (- num) else iaddn_pos x num)"

definition isubn :: "bn \<Rightarrow> int \<Rightarrow> bn" where
  "isubn x num = (if num < 0 then iaddn_pos x (- num) else isubn_pos x num)"

section \<open>The value of a number\<close>

fun wval :: "int list \<Rightarrow> int" where
  "wval [] = 0"
| "wval (w # ws) = w + 0x4000000 * wval ws"

definition val :: "bn \<Rightarrow> int" where
  "val x = (if bn_sign x then - wval (bn_words x) else wval (bn_words x))"

definition word_ok :: "int \<Rightarrow> bool" where
  "word_ok w \<longleftrightarrow> 0 \<le> w \<and> w < 0x4000000"

text \<open>The type invariant: words of 26 bits, at least one, no leading zero word, and no negative zero.\<close>

definition bn_ok :: "bn \<Rightarrow> bool" where
  "bn_ok x \<longleftrightarrow> bn_words x \<noteq> [] \<and> list_all word_ok (bn_words x) \<and> (1 < length (bn_words x) \<longrightarrow> last (bn_words x) \<noteq> 0)
     \<and> (bn_words x = [0] \<longrightarrow> \<not> bn_sign x)"

section \<open>Words\<close>

abbreviation (input) radix :: int where "radix \<equiv> 0x4000000"

lemma and26_mod: "and26 x = x mod radix"
proof -
  have m: "(0x3ffffff :: int) = mask 26" by (simp add: mask_eq_exp_minus_1)
  have "int32 x mod radix = int32 x mod 2 ^ 32 mod radix" by (simp add: mod_mod_cancel)
  also have "\<dots> = x mod radix" unfolding int32_mod by (simp add: mod_mod_cancel)
  finally show ?thesis unfolding and26_def m take_bit_eq_mask[symmetric] take_bit_eq_mod by simp
qed

lemma ushr26: "0 \<le> x \<Longrightarrow> x < 2 ^ 32 \<Longrightarrow> ushr x 26 = x div radix"
  by (simp add: ushr_def take_bit_eq_mod drop_bit_eq_div)

lemma word_ok_mod [simp]: "word_ok (x mod radix)"
  by (simp add: word_ok_def)

lemma wval_nonneg: "list_all word_ok ws \<Longrightarrow> 0 \<le> wval ws"
  by (induction ws) (auto simp: word_ok_def)

lemma wval_bound: "list_all word_ok ws \<Longrightarrow> wval ws < radix ^ length ws"
proof (induction ws)
  case (Cons w ws)
  then have "wval ws + 1 \<le> radix ^ length ws" "w < radix" by (auto simp: word_ok_def)
  then have "radix * (wval ws + 1) \<le> radix * radix ^ length ws" by (intro mult_left_mono) simp_all
  then show ?case using \<open>w < radix\<close> by simp
qed simp

lemma wval_append: "wval (xs @ ys) = wval xs + radix ^ length xs * wval ys"
  by (induction xs) (auto simp: algebra_simps)

lemma wval_lower: "list_all word_ok ws \<Longrightarrow> ws \<noteq> [] \<Longrightarrow> last ws \<noteq> 0 \<Longrightarrow> radix ^ (length ws - 1) \<le> wval ws"
proof -
  assume a: "list_all word_ok ws" "ws \<noteq> []" "last ws \<noteq> 0"
  then have "wval ws = wval (butlast ws) + radix ^ (length ws - 1) * last ws" using wval_append[of "butlast ws" "[last ws]"] by simp
  moreover have "0 \<le> wval (butlast ws)" using a by (intro wval_nonneg) (auto simp: list_all_iff dest: in_set_butlastD)
  moreover have "word_ok (last ws)" using a by (simp add: list_all_iff)
  then have "1 \<le> last ws" using a(3) by (simp add: word_ok_def)
  then have "radix ^ (length ws - 1) * 1 \<le> radix ^ (length ws - 1) * last ws" by (intro mult_left_mono) simp_all
  ultimately show ?thesis by linarith
qed

lemma strip_words_keeps:
  "wval (strip_words ws) = wval ws \<and> (list_all word_ok ws \<longrightarrow> list_all word_ok (strip_words ws)) \<and> (ws \<noteq> [] \<longrightarrow> strip_words ws \<noteq> [])
   \<and> (1 < length (strip_words ws) \<longrightarrow> last (strip_words ws) \<noteq> 0)"
proof (induction ws rule: strip_words.induct)
  case (1 ws)
  show ?case
  proof (cases "1 < length ws \<and> last ws = 0")
    case True
    then have "ws = butlast ws @ [0]" by (metis append_butlast_last_id list.size(3) not_one_less_zero)
    then have w: "wval (butlast ws) = wval ws" using wval_append[of "butlast ws" "[0]"] by simp
    have "butlast ws \<noteq> []" using True by (metis length_butlast list.size(3) not_one_le_zero zero_less_diff less_numeral_extra(3))
    moreover have "list_all word_ok ws \<longrightarrow> list_all word_ok (butlast ws)" by (auto simp: list_all_iff dest: in_set_butlastD)
    ultimately show ?thesis using 1[OF True] w True unfolding strip_words.simps[of ws] by simp
  next
    case False
    then show ?thesis unfolding strip_words.simps[of ws] by auto
  qed
qed

lemmas strip_words_facts [simp] = strip_words_keeps[THEN conjunct1] strip_words_keeps[THEN conjunct2, THEN conjunct1, rule_format]
  strip_words_keeps[THEN conjunct2, THEN conjunct2, THEN conjunct1, rule_format]

lemma val_normSign [simp]: "val (normSign x) = val x"
  by (simp add: val_def normSign_def)

lemma val_strip [simp]: "val (strip x) = val x"
  by (simp add: strip_def) (simp add: val_def)

text \<open>Words that are only bounded; \<^verbatim>\<open>strip\<close> makes the number canonical.\<close>

definition bn_pre :: "bn \<Rightarrow> bool" where
  "bn_pre x \<longleftrightarrow> bn_words x \<noteq> [] \<and> list_all word_ok (bn_words x)"

lemma bn_ok_pre [simp]: "bn_ok x \<Longrightarrow> bn_pre x"
  by (simp add: bn_ok_def bn_pre_def)

lemma bn_ok_strip: "bn_pre x \<Longrightarrow> bn_ok (strip x)"
  using strip_words_keeps[of "bn_words x"] by (auto simp: bn_pre_def bn_ok_def strip_def normSign_def simp del: strip_words_facts)

lemma bn_ok_normSign: "bn_pre x \<Longrightarrow> (1 < length (bn_words x) \<longrightarrow> last (bn_words x) \<noteq> 0) \<Longrightarrow> bn_ok (normSign x)"
  by (auto simp: bn_pre_def bn_ok_def normSign_def)

section \<open>Comparison of values\<close>

lemma radix_dom:
  fixes u v :: int
  assumes "0 \<le> u" "u < radix ^ n" "0 \<le> v" "v < radix ^ n" "a < b"
  shows "u + radix ^ n * a < v + radix ^ n * b"
proof -
  have "radix ^ n * (a + 1) \<le> radix ^ n * b" using assms(5) by (intro mult_left_mono) simp_all
  then show ?thesis using assms(2,3) by (simp add: distrib_left)
qed

lemma ucmp_down_sgn:
  assumes "length as = length bs" "list_all word_ok as" "list_all word_ok bs"
  shows "ucmp_down as bs = sgn (wval (rev as) - wval (rev bs))"
  using assms
proof (induction as bs rule: list_induct2)
  case (Cons a as b bs)
  have r: "0 \<le> wval (rev as)" "wval (rev as) < radix ^ length bs" "0 \<le> wval (rev bs)" "wval (rev bs) < radix ^ length bs"
    using Cons wval_nonneg[of "rev as"] wval_nonneg[of "rev bs"] wval_bound[of "rev as"] wval_bound[of "rev bs"] by simp_all
  show ?case using Cons radix_dom[OF r(1-4), of a b] radix_dom[OF r(3,4) r(1,2), of b a] by (auto simp: wval_append sgn_if)
qed simp

lemma wval_length:
  assumes "list_all word_ok as" "list_all word_ok bs" "length as < length bs" "last bs \<noteq> 0"
  shows "wval as < wval bs"
proof -
  have "wval as < radix ^ length as" using assms(1) by (rule wval_bound)
  also have "\<dots> \<le> radix ^ (length bs - 1)" using assms(3) by (intro power_increasing) simp_all
  also have "\<dots> \<le> wval bs" using assms by (intro wval_lower) auto
  finally show ?thesis .
qed

lemma bn_okD: "bn_ok x \<Longrightarrow> list_all word_ok (bn_words x)" "bn_ok x \<Longrightarrow> bn_words x \<noteq> []" "bn_ok x \<Longrightarrow> 0 \<le> wval (bn_words x)"
  by (simp_all add: bn_ok_def wval_nonneg)

lemma bn_ok_last: "bn_ok x \<Longrightarrow> 1 < length (bn_words x) \<Longrightarrow> last (bn_words x) \<noteq> 0"
  by (simp add: bn_ok_def)

lemma wval_longer:
  assumes "bn_ok x" "bn_ok y" "length (bn_words x) < length (bn_words y)"
  shows "wval (bn_words x) < wval (bn_words y)"
proof -
  have "0 < length (bn_words x)" using bn_okD(2)[OF assms(1)] by simp
  then have "1 < length (bn_words y)" using assms(3) by linarith
  from bn_ok_last[OF assms(2) this] show ?thesis using assms by (intro wval_length bn_okD)
qed

lemma ucmp_value: "bn_ok x \<Longrightarrow> bn_ok y \<Longrightarrow> ucmp x y = sgn (wval (bn_words x) - wval (bn_words y))"
  using wval_longer[of x y] wval_longer[of y x] ucmp_down_sgn[of "rev (bn_words x)" "rev (bn_words y)"]
  by (cases "length (bn_words x)" "length (bn_words y)" rule: linorder_cases) (simp_all add: ucmp_def bn_okD)

lemma wval_zero: "bn_ok x \<Longrightarrow> wval (bn_words x) = 0 \<Longrightarrow> bn_words x = [0]"
proof -
  assume x: "bn_ok x" "wval (bn_words x) = 0"
  have "bn_ok \<lparr> bn_sign = False, bn_words = [0] \<rparr>" by (simp add: bn_ok_def word_ok_def)
  from wval_longer[OF this x(1)] x have "length (bn_words x) = 1" using bn_okD(2)[OF x(1)] by (cases "bn_words x") force+
  then show ?thesis using x(2) by (auto simp: length_Suc_conv)
qed

lemma wval_pos: "bn_ok x \<Longrightarrow> bn_sign x \<Longrightarrow> 0 < wval (bn_words x)"
  using wval_zero[of x] bn_okD(3)[of x] by (force simp: bn_ok_def)

lemma cmp_value: "bn_ok x \<Longrightarrow> bn_ok y \<Longrightarrow> cmp x y = sgn (val x - val y)"
  using ucmp_value[of x y] wval_pos[of x] wval_pos[of y] bn_okD(3)[of x] bn_okD(3)[of y]
  by (auto simp: cmp_def val_def sgn_if)

lemma strip_same: "bn_ok x \<Longrightarrow> strip x = x"
  by (auto simp: bn_ok_def strip_def normSign_def strip_words.simps[of "bn_words x"])

lemma length_one_iff: "bn_ok x \<Longrightarrow> length (bn_words x) \<le> 1 \<longleftrightarrow> wval (bn_words x) < radix"
proof -
  assume x: "bn_ok x"
  have "radix ^ 1 \<le> wval (bn_words x)" if "1 < length (bn_words x)"
    using wval_lower[OF bn_okD(1,2)[OF x] bn_ok_last[OF x that]] power_increasing[of 1 "length (bn_words x) - 1" radix] that by linarith
  moreover have "wval (bn_words x) < radix" if "length (bn_words x) \<le> 1"
    using that x by (cases "bn_words x") (auto simp: bn_ok_def word_ok_def)
  ultimately show ?thesis by force
qed

lemma cmpn_value: "bn_ok x \<Longrightarrow> \<bar>n\<bar> < radix \<Longrightarrow> cmpn x n = sgn (val x - n)"
proof -
  assume x: "bn_ok x" and n: "\<bar>n\<bar> < radix"
  have w: "bn_words x ! 0 = wval (bn_words x)" if "length (bn_words x) \<le> 1" using that bn_okD(2)[OF x] by (cases "bn_words x") auto
  show ?thesis using wval_pos[OF x] bn_okD(3)[OF x] length_one_iff[OF x] w n
    by (auto simp: cmpn_def Let_def strip_same[OF x] val_def sgn_if and26_mod)
qed

section \<open>Addition\<close>

lemma carry_step:
  assumes "0 \<le> r" "r < 2 ^ 32"
  shows "and26 r + radix * ushr r 26 = r" "word_ok (and26 r)" "0 \<le> ushr r 26" "r < 2 * radix \<Longrightarrow> ushr r 26 \<le> 1"
  using assms by (simp_all add: and26_mod ushr26)

lemma carry_words_facts:
  assumes "list_all word_ok as" "0 \<le> c" "c \<le> 1"
  shows "wval (carry_words c as) = c + wval as \<and> list_all word_ok (carry_words c as) \<and> length as \<le> length (carry_words c as)
    \<and> (length as < length (carry_words c as) \<longrightarrow> last (carry_words c as) \<noteq> 0)"
  using assms
proof (induction as arbitrary: c)
  case (Cons a as)
  have r: "0 \<le> a + c" "a + c < 2 ^ 32" "a + c < 2 * radix" using Cons.prems by (auto simp: word_ok_def)
  note s = carry_step[OF r(1,2)] and ih = Cons.IH[of "ushr (a + c) 26"]
  show ?case using ih s(2,3) s(4)[OF r(3)] s(1) Cons.prems by (auto simp: algebra_simps)
qed (auto simp: word_ok_def)

lemma add_words_facts:
  assumes "list_all word_ok as" "list_all word_ok bs" "length bs \<le> length as" "0 \<le> c" "c \<le> 1"
  shows "wval (add_words c as bs) = c + wval as + wval bs \<and> list_all word_ok (add_words c as bs) \<and> length as \<le> length (add_words c as bs)
    \<and> (length as < length (add_words c as bs) \<longrightarrow> last (add_words c as bs) \<noteq> 0)"
  using assms
proof (induction c as bs rule: add_words.induct)
  case (1 c a as b bs)
  have r: "0 \<le> a + b + c" "a + b + c < 2 ^ 32" "a + b + c < 2 * radix" using "1.prems" by (auto simp: word_ok_def)
  note s = carry_step[OF r(1,2)]
  have ih: "wval (add_words (ushr (a + b + c) 26) as bs) = ushr (a + b + c) 26 + wval as + wval bs \<and> list_all word_ok (add_words (ushr (a + b + c) 26) as bs)
      \<and> length as \<le> length (add_words (ushr (a + b + c) 26) as bs)
      \<and> (length as < length (add_words (ushr (a + b + c) 26) as bs) \<longrightarrow> last (add_words (ushr (a + b + c) 26) as bs) \<noteq> 0)"
    using "1.prems" s(3) s(4)[OF r(3)] by (intro "1.IH") simp_all
  then show ?case using s(1,2) by (auto simp: algebra_simps)
next
  case (2 c as)
  then show ?case using carry_words_facts[of as c] by simp
qed simp

lemma last_nonzero: "list_all word_ok ws \<Longrightarrow> ws \<noteq> [] \<Longrightarrow> radix ^ (length ws - 1) \<le> wval ws \<Longrightarrow> last ws \<noteq> 0"
proof
  assume a: "list_all word_ok ws" "ws \<noteq> []" "radix ^ (length ws - 1) \<le> wval ws" "last ws = 0"
  have "wval (butlast ws @ [last ws]) = wval (butlast ws)" unfolding wval_append a(4) by simp
  then have "wval ws = wval (butlast ws)" unfolding append_butlast_last_id[OF a(2)] .
  also have "\<dots> < radix ^ length (butlast ws)" using a(1) by (intro wval_bound) (auto simp: list_all_iff dest: in_set_butlastD)
  finally show False using a(3) by simp
qed

lemma add_words_top:
  assumes x: "bn_ok x" "bn_ok y" and l: "length (bn_words y) \<le> length (bn_words x)"
  shows "1 < length (add_words 0 (bn_words x) (bn_words y)) \<longrightarrow> last (add_words 0 (bn_words x) (bn_words y)) \<noteq> 0"
proof
  let ?s = "add_words 0 (bn_words x) (bn_words y)"
  assume g: "1 < length ?s"
  note f = add_words_facts[OF bn_okD(1)[OF x(1)] bn_okD(1)[OF x(2)] l, of 0, simplified]
  show "last ?s \<noteq> 0"
  proof (cases "length (bn_words x) < length ?s")
    case False
    then have e: "length ?s = length (bn_words x)" using f by simp
    then have "radix ^ (length ?s - 1) \<le> wval (bn_words x)"
      using wval_lower[OF bn_okD(1,2)[OF x(1)] bn_ok_last[OF x(1)]] g by simp
    moreover have "?s \<noteq> []" using g by auto
    ultimately show ?thesis using f bn_okD(3)[OF x(2)] by (intro last_nonzero) auto
  qed (use f in simp)
qed

lemma uadd_value:
  assumes "bn_ok x" "bn_ok y" "bn_sign x = bn_sign y"
  shows "bn_ok (uadd x y)" "val (uadd x y) = val x + val y"
proof -
  have g: "bn_ok (x\<lparr> bn_words := add_words 0 (bn_words u) (bn_words v) \<rparr>) \<and> wval (add_words 0 (bn_words u) (bn_words v)) = wval (bn_words u) + wval (bn_words v)"
    if u: "bn_ok u" "bn_ok v" "length (bn_words v) \<le> length (bn_words u)" and s: "bn_sign x = bn_sign u" "bn_sign x = bn_sign v" for u v
  proof -
    note f = add_words_facts[OF bn_okD(1)[OF u(1)] bn_okD(1)[OF u(2)] u(3), of 0, simplified]
    have "0 < length (bn_words u)" using bn_okD(2)[OF u(1)] by simp
    then have "add_words 0 (bn_words u) (bn_words v) \<noteq> []" using f by (metis less_le_trans list.size(3) not_less0)
    moreover have "bn_sign x \<longrightarrow> 0 < wval (bn_words u)" using s wval_pos[OF u(1)] by simp
    ultimately show ?thesis using f add_words_top[OF u] bn_okD(3)[OF u(2)] by (auto simp: bn_ok_def)
  qed
  show "bn_ok (uadd x y)" "val (uadd x y) = val x + val y"
    using g[of x y] g[of y x] assms by (auto simp: uadd_def val_def)
qed

section \<open>Subtraction\<close>

lemma borrow_words_facts:
  assumes "list_all word_ok as" "0 \<le> c" "c \<le> 1" "c \<le> wval as"
  shows "wval (borrow_words c as) = wval as - c \<and> list_all word_ok (borrow_words c as) \<and> length (borrow_words c as) = length as"
  using assms
proof (induction as arbitrary: c)
  case (Cons a as)
  have n: "0 \<le> wval as" using Cons.prems(1) by (intro wval_nonneg) simp
  show ?case
  proof (cases "a - c < 0")
    case True
    then have "c = 1" "a = 0" using Cons.prems by (auto simp: word_ok_def)
    moreover from this have "1 \<le> wval as" using Cons.prems(4) n by simp
    ultimately show ?thesis using Cons.IH[of 1] Cons.prems(1) by (auto simp: borrow_def word_ok_def)
  next
    case False
    then have "word_ok (a - c)" using Cons.prems by (auto simp: word_ok_def)
    then show ?thesis using False Cons.IH[of 0] Cons.prems n by (auto simp: borrow_def)
  qed
qed simp

lemma sub_words_facts:
  assumes "list_all word_ok as" "list_all word_ok bs" "length bs \<le> length as" "0 \<le> c" "c \<le> 1" "wval bs + c \<le> wval as"
  shows "wval (sub_words c as bs) = wval as - wval bs - c \<and> list_all word_ok (sub_words c as bs) \<and> length (sub_words c as bs) = length as"
  using assms
proof (induction c as bs rule: sub_words.induct)
  case (1 c a as b bs)
  have w: "0 \<le> a" "a < radix" "0 \<le> b" "b < radix" using "1.prems" by (auto simp: word_ok_def)
  show ?case
  proof (cases "a - b - c < 0")
    case True
    then have "wval bs + 1 \<le> wval as" using "1.prems"(4-6) w by simp
    then have "wval (sub_words 1 as bs) = wval as - wval bs - 1 \<and> list_all word_ok (sub_words 1 as bs) \<and> length (sub_words 1 as bs) = length as"
      using "1.prems" True by (intro "1.IH"[of "a - b - c + radix" 1]) (simp_all add: borrow_def)
    moreover have "word_ok (a - b - c + radix)" using True w "1.prems"(4,5) by (auto simp: word_ok_def)
    ultimately show ?thesis using True by (auto simp: borrow_def)
  next
    case False
    have "wval bs \<le> wval as" using False w "1.prems"(4-6) by simp
    then have "wval (sub_words 0 as bs) = wval as - wval bs - 0 \<and> list_all word_ok (sub_words 0 as bs) \<and> length (sub_words 0 as bs) = length as"
      using "1.prems" False by (intro "1.IH"[of "a - b - c" 0]) (simp_all add: borrow_def)
    moreover have "word_ok (a - b - c)" using False w "1.prems"(4,5) by (auto simp: word_ok_def)
    ultimately show ?thesis using False by (auto simp: borrow_def)
  qed
next
  case (2 c as)
  then show ?case using borrow_words_facts[of as c] by simp
qed simp

lemma sub_words_strip:
  assumes "bn_ok x" "bn_ok y" "wval (bn_words y) < wval (bn_words x)"
  shows "bn_ok (strip \<lparr> bn_sign = s, bn_words = sub_words 0 (bn_words x) (bn_words y) \<rparr>)"
    "val (strip \<lparr> bn_sign = s, bn_words = sub_words 0 (bn_words x) (bn_words y) \<rparr>) = (if s then wval (bn_words y) - wval (bn_words x) else wval (bn_words x) - wval (bn_words y))"
proof -
  have l: "length (bn_words y) \<le> length (bn_words x)" using wval_longer[OF assms(1,2)] assms(3) by linarith
  have f: "wval (sub_words 0 (bn_words x) (bn_words y)) = wval (bn_words x) - wval (bn_words y)" "list_all word_ok (sub_words 0 (bn_words x) (bn_words y))"
      "length (sub_words 0 (bn_words x) (bn_words y)) = length (bn_words x)"
    using sub_words_facts[OF bn_okD(1)[OF assms(1)] bn_okD(1)[OF assms(2)] l, of 0] assms(3) by simp_all
  have "sub_words 0 (bn_words x) (bn_words y) \<noteq> []" using f(3) bn_okD(2)[OF assms(1)] by (metis length_0_conv)
  then show "bn_ok (strip \<lparr> bn_sign = s, bn_words = sub_words 0 (bn_words x) (bn_words y) \<rparr>)" using f by (intro bn_ok_strip) (simp add: bn_pre_def)
  show "val (strip \<lparr> bn_sign = s, bn_words = sub_words 0 (bn_words x) (bn_words y) \<rparr>) = (if s then wval (bn_words y) - wval (bn_words x) else wval (bn_words x) - wval (bn_words y))"
    unfolding val_strip using f by (simp add: val_def)
qed

lemma usub_value:
  assumes "bn_ok x" "bn_ok y" "\<not> bn_sign x" "\<not> bn_sign y"
  shows "bn_ok (usub x y) \<and> val (usub x y) = val x - val y"
proof -
  have v: "val x = wval (bn_words x)" "val y = wval (bn_words y)" using assms by (simp_all add: val_def)
  have r: "x\<lparr> bn_words := ws \<rparr> = \<lparr> bn_sign = False, bn_words = ws \<rparr>" "x\<lparr> bn_words := ws, bn_sign := True \<rparr> = \<lparr> bn_sign = True, bn_words = ws \<rparr>" for ws
    using assms(3) by (cases x; simp)+
  show ?thesis
    using cmp_value[OF assms(1,2)] sub_words_strip[OF assms(1,2), of False] sub_words_strip[OF assms(2,1), of True]
    by (cases "val x" "val y" rule: linorder_cases) (simp_all add: usub_def Let_def r v, simp add: bn_ok_def word_ok_def val_def)
qed

lemma bn_ok_unsigned: "bn_ok x \<Longrightarrow> bn_ok (x\<lparr> bn_sign := False \<rparr>)" "val (x\<lparr> bn_sign := False \<rparr>) = wval (bn_words x)"
  by (auto simp: bn_ok_def val_def)

lemma bn_ok_flip: "bn_ok x \<Longrightarrow> bn_ok (normSign (x\<lparr> bn_sign := s \<rparr>))" "bn_sign x = (\<not> s) \<Longrightarrow> val (normSign (x\<lparr> bn_sign := s \<rparr>)) = - val x"
  by (auto simp: bn_ok_def normSign_def val_def)

lemma normSign_ok: "bn_ok x \<Longrightarrow> normSign x = x"
  by (cases x) (auto simp: bn_ok_def normSign_def)

lemma iadd_value: "bn_ok x \<Longrightarrow> bn_ok y \<Longrightarrow> bn_ok (iadd x y) \<and> val (iadd x y) = val x + val y"
proof -
  assume x: "bn_ok x" and y: "bn_ok y"
  note u = bn_ok_unsigned(1)[OF x] bn_ok_unsigned(1)[OF y]
  have p: "bn_ok (usub (x\<lparr> bn_sign := False \<rparr>) y) \<and> val (usub (x\<lparr> bn_sign := False \<rparr>) y) = wval (bn_words x) - val y" if "\<not> bn_sign y"
    using usub_value[OF u(1) y] that by (simp add: bn_ok_unsigned(2))
  have q: "bn_ok (usub x (y\<lparr> bn_sign := False \<rparr>)) \<and> val (usub x (y\<lparr> bn_sign := False \<rparr>)) = val x - wval (bn_words y)" if "\<not> bn_sign x"
    using usub_value[OF x u(2)] that by (simp add: bn_ok_unsigned(2))
  consider "bn_sign x" "\<not> bn_sign y" | "\<not> bn_sign x" "bn_sign y" | "bn_sign x = bn_sign y" by blast
  then show ?thesis
  proof cases
    case 1
    let ?r = "usub (x\<lparr> bn_sign := False \<rparr>) y"
    have "val (normSign (?r\<lparr> bn_sign := \<not> bn_sign ?r \<rparr>)) = - val ?r" by (rule bn_ok_flip(2)) simp
    then show ?thesis using 1 p bn_ok_flip(1)[of ?r] by (simp add: iadd_def Let_def) (simp add: val_def)
  next
    case 2
    then show ?thesis using q by (simp add: iadd_def normSign_ok) (simp add: val_def)
  next
    case 3
    then show ?thesis using uadd_value[OF x y 3] by (simp add: iadd_def)
  qed
qed

lemma isub_value: "bn_ok x \<Longrightarrow> bn_ok y \<Longrightarrow> bn_ok (isub x y) \<and> val (isub x y) = val x - val y"
proof -
  assume x: "bn_ok x" and y: "bn_ok y"
  note u = bn_ok_unsigned(1)[OF x] bn_ok_unsigned(1)[OF y]
  consider "bn_sign y" | "\<not> bn_sign y" "bn_sign x" | "\<not> bn_sign y" "\<not> bn_sign x" by blast
  then show ?thesis
  proof cases
    case 1
    then show ?thesis using iadd_value[OF x u(2)] by (simp add: isub_def normSign_ok bn_ok_unsigned(2)) (simp add: val_def)
  next
    case 2
    let ?r = "iadd (x\<lparr> bn_sign := False \<rparr>) y"
    have "\<not> bn_sign ?r" using 2 by (simp add: iadd_def uadd_def)
    then have "val (normSign (?r\<lparr> bn_sign := True \<rparr>)) = - val ?r" by (intro bn_ok_flip(2)) simp
    then show ?thesis using 2 iadd_value[OF u(1) y] bn_ok_flip(1)[of ?r True] by (simp add: isub_def bn_ok_unsigned(2)) (simp add: val_def)
  next
    case 3
    then show ?thesis using usub_value[OF x y] by (simp add: isub_def)
  qed
qed

lemma bn_add_value: "bn_ok x \<Longrightarrow> bn_ok y \<Longrightarrow> bn_ok (bn_add x y) \<and> val (bn_add x y) = val x + val y"
proof -
  assume x: "bn_ok x" and y: "bn_ok y"
  note u = bn_ok_unsigned(1)[OF x] bn_ok_unsigned(1)[OF y]
  have "val x = - wval (bn_words x)" if "bn_sign x" using that by (simp add: val_def)
  moreover have "val y = - wval (bn_words y)" if "bn_sign y" using that by (simp add: val_def)
  ultimately show ?thesis using isub_value[OF x u(2)] isub_value[OF y u(1)] iadd_value[OF x y] iadd_value[OF y x]
    by (simp add: bn_add_def bn_sub_def bn_ok_unsigned(2))
qed

lemma bn_neg_value: "bn_ok x \<Longrightarrow> bn_ok (bn_neg x) \<and> val (bn_neg x) = - val x"
proof -
  assume x: "bn_ok x"
  have c: "cmpn x 0 = sgn (val x)" using cmpn_value[OF x, of 0] by simp
  show ?thesis
  proof (cases "val x = 0")
    case False
    then have "wval (bn_words x) \<noteq> 0" by (simp add: val_def split: if_splits)
    then have "bn_words x \<noteq> [0]" by auto
    then have "bn_ok (x\<lparr> bn_sign := \<not> bn_sign x \<rparr>)" using x by (simp add: bn_ok_def)
    moreover have "val (x\<lparr> bn_sign := \<not> bn_sign x \<rparr>) = - val x" by (simp add: val_def)
    ultimately show ?thesis using False c by (simp add: bn_neg_def sgn_if)
  qed (use x c in \<open>simp add: bn_neg_def\<close>)
qed

section \<open>Small operands\<close>

text \<open>A carry loop; the first word may have reached \<open>2 ^ 26\<close>.\<close>

lemma carryn_facts:
  assumes "list_all word_ok ws" "0 \<le> w" "w < 2 * radix"
  shows "wval (carryn (w # ws)) = w + radix * wval ws \<and> list_all word_ok (carryn (w # ws)) \<and> length (w # ws) \<le> length (carryn (w # ws))
    \<and> (length (w # ws) < length (carryn (w # ws)) \<longrightarrow> last (carryn (w # ws)) \<noteq> 0)"
  using assms
proof (induction ws arbitrary: w)
  case Nil
  then show ?case by (auto simp: word_ok_def)
next
  case (Cons v ws)
  have "0 \<le> v + 1" "v + 1 < 2 * radix" using Cons.prems(1) by (auto simp: word_ok_def)
  note ih = Cons.IH[OF _ this]
  show ?case
  proof (cases "w \<ge> radix")
    case True
    have "word_ok (w - radix)" using True Cons.prems by (auto simp: word_ok_def)
    then show ?thesis using True ih Cons.prems(1) by auto
  next
    case False
    then show ?thesis using Cons.prems by (auto simp: word_ok_def)
  qed
qed

lemma borrown_facts:
  assumes "list_all word_ok ws" "- radix \<le> w" "w < radix" "0 \<le> w + radix * wval ws"
  shows "wval (borrown (w # ws)) = w + radix * wval ws \<and> list_all word_ok (borrown (w # ws)) \<and> length (borrown (w # ws)) = length (w # ws)"
  using assms
proof (induction ws arbitrary: w)
  case Nil
  then show ?case by (auto simp: word_ok_def)
next
  case (Cons v ws)
  show ?case
  proof (cases "w < 0")
    case True
    have "word_ok (w + radix)" using True Cons.prems by (auto simp: word_ok_def)
    moreover have "0 \<le> v - 1 + radix * wval ws" using True Cons.prems(2,4) by simp
    then have "wval (borrown ((v - 1) # ws)) = v - 1 + radix * wval ws \<and> list_all word_ok (borrown ((v - 1) # ws)) \<and> length (borrown ((v - 1) # ws)) = length ((v - 1) # ws)"
      using Cons.prems(1) by (intro Cons.IH) (auto simp: word_ok_def)
    ultimately show ?thesis using True by auto
  next
    case False
    then show ?thesis using Cons.prems by (auto simp: word_ok_def)
  qed
qed

lemma words_split: "bn_ok x \<Longrightarrow> bn_words x = (bn_words x ! 0) # tl (bn_words x)" "bn_ok x \<Longrightarrow> word_ok (bn_words x ! 0)" "bn_ok x \<Longrightarrow> list_all word_ok (tl (bn_words x))"
  by (cases "bn_words x"; auto simp: bn_ok_def)+

lemma wval_split: "bn_ok x \<Longrightarrow> wval (bn_words x) = bn_words x ! 0 + radix * wval (tl (bn_words x))"
  by (subst words_split(1)) simp_all

lemma top_word:
  assumes x: "bn_ok x" and w: "list_all word_ok ws" "length (bn_words x) \<le> length ws" "length (bn_words x) < length ws \<longrightarrow> last ws \<noteq> 0"
    and v: "wval (bn_words x) \<le> wval ws" "0 < wval ws \<or> \<not> s"
  shows "bn_ok \<lparr> bn_sign = s, bn_words = ws \<rparr>"
proof -
  have "0 < length ws" using w(2) bn_okD(2)[OF x] by (cases "bn_words x") auto
  then have n: "ws \<noteq> []" by simp
  have "last ws \<noteq> 0" if "1 < length ws"
  proof (cases "length (bn_words x) < length ws")
    case False
    then have l: "length ws = length (bn_words x)" using w(2) by simp
    then have "radix ^ (length ws - 1) \<le> wval (bn_words x)" using wval_lower[OF bn_okD(1,2)[OF x] bn_ok_last[OF x]] that by simp
    then show ?thesis using v(1) n w(1) by (intro last_nonzero) auto
  qed (use w(3) in simp)
  then show ?thesis using n w(1) v(2) by (auto simp: bn_ok_def)
qed

lemma uaddn_value:
  assumes x: "bn_ok x" and s: "0 \<le> num" "num < radix"
  shows "wval (bn_words (uaddn x num)) = wval (bn_words x) + num" "bn_ok (uaddn x num)"
proof -
  let ?w = "bn_words x ! 0 + num" let ?t = "tl (bn_words x)"
  have l: "length (?w # ?t) = length (bn_words x)" using bn_okD(2)[OF x] by (cases "bn_words x") simp_all
  have f: "wval (carryn (?w # ?t)) = ?w + radix * wval ?t" "list_all word_ok (carryn (?w # ?t))" "length (bn_words x) \<le> length (carryn (?w # ?t))"
    "length (bn_words x) < length (carryn (?w # ?t)) \<longrightarrow> last (carryn (?w # ?t)) \<noteq> 0"
    using carryn_facts[of ?t ?w] words_split(2,3)[OF x] s unfolding l by (auto simp: word_ok_def)
  show v: "wval (bn_words (uaddn x num)) = wval (bn_words x) + num" using f(1) wval_split[OF x] by (simp add: uaddn_def)
  have e: "uaddn x num = \<lparr> bn_sign = bn_sign x, bn_words = carryn (?w # ?t) \<rparr>" by (cases x) (simp add: uaddn_def)
  have "0 < wval (bn_words x) \<or> \<not> bn_sign x" using wval_pos[OF x] by blast
  then show "bn_ok (uaddn x num)" using f v s unfolding e by (intro top_word[OF x]) auto
qed

lemma usubn_value:
  assumes x: "bn_ok x" "\<not> bn_sign x" and s: "0 \<le> num" "num < radix" "num \<le> val x"
  shows "val (usubn x num) = val x - num" "bn_ok (usubn x num)"
proof -
  let ?w = "bn_words x ! 0 - num" let ?t = "tl (bn_words x)"
  have v: "val x = bn_words x ! 0 + radix * wval ?t" using wval_split[OF x(1)] x(2) by (simp add: val_def)
  then have f: "wval (borrown (?w # ?t)) = ?w + radix * wval ?t" "list_all word_ok (borrown (?w # ?t))" "length (borrown (?w # ?t)) = length (?w # ?t)"
    using borrown_facts[of ?t ?w] words_split(2,3)[OF x(1)] s by (auto simp: word_ok_def)
  show "val (usubn x num) = val x - num" unfolding usubn_def val_strip using f(1) x(2) v by (simp add: val_def)
  have "borrown (?w # ?t) \<noteq> []" using f(3) by auto
  then show "bn_ok (usubn x num)" unfolding usubn_def using f(2) by (intro bn_ok_strip) (simp add: bn_pre_def)
qed

lemma iaddn_value:
  assumes x: "bn_ok x" "\<not> bn_sign x" and s: "0 \<le> num" "num < radix"
  shows "bn_ok (iaddn x num)" "val (iaddn x num) = val x + num"
  using uaddn_value[OF x(1) s] x(2) s(1) by (simp_all add: iaddn_def iaddn_pos_def val_def, simp add: uaddn_def)

lemma isubn_value:
  assumes x: "bn_ok x" and s: "0 \<le> num" "num < radix" "bn_sign x \<or> num \<le> val x"
  shows "bn_ok (isubn x num)" "val (isubn x num) = val x - num"
proof -
  have "bn_ok (isubn x num) \<and> val (isubn x num) = val x - num"
  proof (cases "bn_sign x")
    case True
    note u = uaddn_value[OF bn_ok_unsigned(1)[OF x] s(1,2)]
    have w: "bn_words (uaddn (x\<lparr> bn_sign := False \<rparr>) num) \<noteq> [0]" using u(1) wval_pos[OF x True] s(1) by auto
    then have "bn_ok ((uaddn (x\<lparr> bn_sign := False \<rparr>) num)\<lparr> bn_sign := True \<rparr>)" using u(2) by (simp add: bn_ok_def)
    then show ?thesis using True u(1) s(1) by (simp add: isubn_def isubn_pos_def val_def)
  next
    case False
    then show ?thesis using usubn_value[OF x False s(1,2)] s by (simp add: isubn_def isubn_pos_def)
  qed
  then show "bn_ok (isubn x num)" "val (isubn x num) = val x - num" by blast+
qed

text \<open>A number built from a Number is exact only below \<open>2 ^ 52\<close>.\<close>

lemma BN_number_mod: "val (BN_number n) = (if n < 0 then - (\<bar>n\<bar> mod 2 ^ 52) else \<bar>n\<bar> mod 2 ^ 52)"
proof -
  have "\<bar>n\<bar> mod (radix * radix) = \<bar>n\<bar> mod radix + radix * (\<bar>n\<bar> div radix mod radix)" by (subst zmod_zmult2_eq) simp_all
  then have "wval (bn_words (BN_number n)) = \<bar>n\<bar> mod 2 ^ 52" by (simp add: BN_number_def Let_def and26_mod)
  moreover have "bn_sign (BN_number n) = (n < 0)" by (simp add: BN_number_def Let_def)
  ultimately show ?thesis unfolding val_def by simp
qed

lemma BN_number_value: "\<bar>n\<bar> < 2 ^ 52 \<Longrightarrow> bn_ok (BN_number n)" "\<bar>n\<bar> < 2 ^ 52 \<Longrightarrow> val (BN_number n) = n"
proof -
  assume n: "\<bar>n\<bar> < 2 ^ 52"
  then show "val (BN_number n) = n" unfolding BN_number_mod by simp
  have "\<bar>n\<bar> div radix < radix" using n by (simp add: div_less_iff_less_mult)
  moreover have "0 < \<bar>n\<bar> div radix" if "\<not> \<bar>n\<bar> < radix" using that by (simp add: pos_imp_zdiv_pos_iff)
  ultimately show "bn_ok (BN_number n)" by (auto simp: bn_ok_def BN_number_def Let_def and26_mod word_ok_def)
qed

end
