(* ===== verification/Spec2Isabelle.thy ===== *)
theory Spec2Isabelle
  imports DER Paying Books Hashes BigNum
begin

text \<open>
  BitMesh sells network access over Bitcoin payment channels. A client in a web page locks an amount
  in an output that needs its own and the provider's signature, obtains from the provider a signed
  transaction that refunds it after a day, and then pays by signing updates of a payment transaction
  that spends the same output. This development models the JavaScript of that client under
  \<^verbatim>\<open>src/Sources/WebClient/js\<close>, from bytes and numbers up to the channel and the page that drives it.

  \<^bold>\<open>Conventions.\<close> A method is a function of the same name, prefixed where the name is taken. Code with
  effects is an action on a record of the object's properties that answers a value or an exception
  together with the state at that moment (\<open>Prelude\<close>), so a state changed before a throw stays changed.
  JavaScript numbers are rationals rounded to binary64 with infinities and NaN (\<open>JSNumber\<close>); buffers
  are lists of 8-bit words; exceptions are values of a datatype. The hash functions, key derivation
  and ECDSA are fields of the record \<open>crypto\<close>, an argument of whatever uses them; \<open>good_key\<close> and
  \<open>good_hash\<close> name what is relied on: lengths, the DER form of signatures and that a signature verifies.

  \<^bold>\<open>Theories.\<close>
  \<^item> \<open>Prelude\<close>: actions, exceptions, blocks of statements, invariants of actions (\<open>keeps\<close>), the interface
    \<open>codec\<close> of a writer and its reader.
  \<^item> \<open>JSNumber\<close>: binary64 arithmetic, rounding, comparison, conversion to 32-bit integers.
  \<^item> \<open>Buffers\<close>: \<^verbatim>\<open>Buffer\<close>, \<^verbatim>\<open>BN\<close> conversions, \<^verbatim>\<open>BufferReader\<close>, \<^verbatim>\<open>BufferWriter\<close> and \<^verbatim>\<open>Varint\<close> of
    \<^verbatim>\<open>bitcore.js\<close>. Variable-length integers are read back as written.
  \<^item> \<open>Scripts\<close>: \<^verbatim>\<open>Script\<close>: the chunk format, standard forms, builders, addresses, \<^verbatim>\<open>findAndDelete\<close>. Parsing
    and printing are inverse both ways; classification answers on whatever was parsed.
  \<^item> \<open>DER\<close>: \<^verbatim>\<open>Signature\<close>: DER, transaction and compact formats.
  \<^item> \<open>Transactions\<close>: \<^verbatim>\<open>Input\<close>, \<^verbatim>\<open>Output\<close>, \<^verbatim>\<open>Transaction\<close>: the wire format, totals, fees and change.
  \<^item> \<open>Signing\<close>: \<^verbatim>\<open>sighash\<close>, \<^verbatim>\<open>Transaction.sign\<close> and the checks before serialization: what a signature covers
    and what it leaves open, and that signing completes.
  \<^item> \<open>Interpreter\<close>: \<^verbatim>\<open>Interpreter\<close>: every operation, \<^verbatim>\<open>step\<close>, \<^verbatim>\<open>evaluate\<close> and \<^verbatim>\<open>verify\<close>. The loop ends because each
    step advances the program counter, which no operation moves (the interface \<open>op_frame\<close>).
  \<^item> \<open>Spending\<close>: runs of the interpreter on the two output forms of a channel: it accepts exactly the inputs
    whose signatures cover the transaction, and accepts what \<^verbatim>\<open>Transaction.sign\<close> makes.
  \<^item> \<open>LongJS\<close>: the 64-bit integers of \<^verbatim>\<open>Long.js\<close>: its chunked arithmetic is word arithmetic.
  \<^item> \<open>Channel\<close>: \<^verbatim>\<open>bitcore-channel.js\<close>: \<^verbatim>\<open>Consumer\<close>, \<^verbatim>\<open>Provider\<close> and their three transactions. Setting up a channel
    returns with a signed commitment and a refund; payments conserve the channel's amount.
  \<^item> \<open>Refund\<close>: what \<^verbatim>\<open>validateRefund\<close> and \<^verbatim>\<open>incrementPaymentBy\<close> do on a channel that was set up: the refund that is accepted
    verifies, and every sequence of payments that fits the channel goes through.
  \<^item> \<open>Triples\<close>: pre- and postconditions of actions that may throw.
  \<^item> \<open>Bitmesh\<close>: \<^verbatim>\<open>bitmesh.js\<close>, the client in the page. The record \<open>client\<close> holds its global variables, the state of the socket and logs of
    what it has sent and posted; each function, message handler and timer is an action on it.
  \<^item> \<open>Session\<close>: the events that reach the client as the relation \<open>client_step\<close>, the states that can be reached, and the invariant that
    ties contracts to refunds. The interface \<open>client_invariant\<close> collects what an invariant has to survive; it is interpreted
    with the invariant and with its forms while the socket is open and while the contract is being sent.
  \<^item> \<open>Opening\<close>: a whole session up to the open channel, and the safety of all runs: no contract without a refund.
  \<^item> \<open>Paying\<close>: the payments of the open channel, their bounds and their end.
  \<^item> \<open>Books\<close>: the invariants of the bookkeeping in all runs, and two situations in which the client gets stuck.

  \<^item> \<open>Sha\<close>, \<open>Sha1\<close>: the package \<^verbatim>\<open>sha.js\<close>: the buffering of \<^verbatim>\<open>Hash\<close> and the rounds of SHA-256 and SHA-1 on Numbers. The interface
    \<open>block_hash\<close> relates the rounds on Numbers to the rounds of the standard on words; the sums of SHA-256, which the code reduces only at
    the end of a block, stay in the exact range.
  \<^item> \<open>HashJS\<close>, \<open>Ripemd\<close>: the package \<^verbatim>\<open>hash.js\<close> with its padding, SHA-256, SHA-224, SHA-1 and RIPEMD-160 (the interface \<open>js_block_hash\<close>).
  \<^item> \<open>Hashes\<close>: the module \<^verbatim>\<open>Hash\<close> of bitcore and HMAC in its two implementations: they compute the functions of the standards.

  \<^bold>\<open>Bounds.\<close> No definition has fuel: every loop of the modelled code is a structural recursion or a
  function with a termination proof. Buffers are shorter than \<open>2 ^ 31\<close> bytes where a length is written
  as a number, amounts are below \<open>2 ^ 52\<close>, the width \<^verbatim>\<open>BN\<close> keeps of a number; both exceed what Bitcoin allows.

  \<^bold>\<open>Events.\<close> A handler of the client runs to its end or to an exception before the next event, as in a browser. Between
  two events anything may happen in \<open>client_step\<close>: every message, in any order and with any content, the opening and closing of
  the socket, clicks, ticks of the payment timer at any time, and fresh random keys.

  \<^bold>\<open>Not modelled.\<close> Text forms (Base58, JSON, hexadecimal scripts), blocks, HD keys, the payment protocol,
  the message encoding of \<^verbatim>\<open>ProtoBuf.js\<close>, page layout and general page libraries. Division and the string
  conversions of \<^verbatim>\<open>Long.js\<close>, which rest on estimates by \<^verbatim>\<open>Math.log\<close>. The 26-bit word arithmetic of \<^verbatim>\<open>bn.js\<close> is
  taken as integer arithmetic.
\<close>

end
